(* ===== verification/Prelude.thy ===== *)
theory Prelude
  imports Complex_Main "HOL-Library.Word" "HOL-Library.Multiset"
begin

text \<open>
  Vocabulary shared by the whole development: the machine types of the Go code, the fact
  collections the component theories extend, and generic lemmas on lists, finite sums over
  maps and 64-bit words.
\<close>

section \<open>Types of the Go program\<close>

text \<open>
  A Go \<open>uint64\<close> is a 64-bit word, whose \<open>+\<close> wraps as Go's does. A Go \<open>string\<close> or
  \<open>[]byte\<close> is a list of bytes; HOL's \<open>char\<close> is exactly one byte. Go's \<open>int\<close> is
  64 bits wide on the supported targets and is an \<open>int\<close> here; where a value can leave that
  range (decoding, saturating durations) the bound is written out.
\<close>

type_synonym u64 = "64 word"
type_synonym bytes = "char list"
type_synonym goint = int

abbreviation max_int64 :: int where "max_int64 \<equiv> 2 ^ 63 - 1"
abbreviation min_int64 :: int where "min_int64 \<equiv> - (2 ^ 63)"

text \<open>Collections of rewrite rules, filled by the component theories.\<close>

named_theorems chan_simps \<open>effects of the channel operations\<close>
named_theorems store_simps \<open>effects of the state store operations\<close>
named_theorems decode_simps \<open>evaluation of the JSON decoder\<close>
named_theorems float_simps \<open>comparison of float64 values\<close>
named_theorems step_intros \<open>introduction rules of the step relations\<close>

section \<open>Lists\<close>

lemma sum_list_update_add:
  fixes f :: "'a \<Rightarrow> 'b::ab_group_add"
  assumes "i < length xs"
  shows "sum_list (map f (xs[i := y])) = sum_list (map f xs) - f (xs ! i) + f y"
  using assms
proof (induction xs arbitrary: i)
  case Nil
  then show ?case by simp
next
  case (Cons x xs)
  then show ?case by (cases i) (simp_all add: algebra_simps)
qed

lemma nth_update_cases:
  "j < length xs \<Longrightarrow> (xs[i := y]) ! j = (if j = i then y else xs ! j)"
  by (simp add: nth_list_update)

lemma mset_concat_update:
  assumes "i < length xs"
  shows "mset (concat (map f (xs[i := y]))) + mset (f (xs ! i)) = mset (concat (map f xs)) + mset (f y)"
  using assms
proof (induction xs arbitrary: i)
  case (Cons x xs)
  then show ?case by (cases i) (simp_all add: ac_simps)
qed simp

section \<open>Totals over finite maps\<close>

text \<open>The total of \<open>f\<close> over the values of a map.\<close>

definition map_total :: "('v \<Rightarrow> 'b::ab_group_add) \<Rightarrow> ('k \<rightharpoonup> 'v) \<Rightarrow> 'b" where
  "map_total f m = (\<Sum>k\<in>dom m. f (the (m k)))"

lemma map_total_empty [simp]: "map_total f Map.empty = 0"
  by (simp add: map_total_def)

lemma map_total_insert:
  assumes "finite (dom m)" and "m k = None"
  shows "map_total f (m(k \<mapsto> v)) = map_total f m + f v"
proof -
  have "k \<notin> dom m" using assms(2) by auto
  then have "(\<Sum>x\<in>dom m. f (the ((m(k \<mapsto> v)) x))) = (\<Sum>x\<in>dom m. f (the (m x)))"
    by (intro sum.cong) auto
  with \<open>k \<notin> dom m\<close> assms(1) show ?thesis
    by (simp add: map_total_def add.commute)
qed

lemma map_total_update:
  assumes "finite (dom m)" and "m k = Some w"
  shows "map_total f (m(k \<mapsto> v)) = map_total f m - f w + f v"
proof -
  have k: "k \<in> dom m" using assms(2) by auto
  have eq: "(\<Sum>x\<in>dom m - {k}. f (the ((m(k \<mapsto> v)) x))) = (\<Sum>x\<in>dom m - {k}. f (the (m x)))"
    by (intro sum.cong) auto
  have "map_total f m = f w + (\<Sum>x\<in>dom m - {k}. f (the (m x)))"
    using assms k by (simp add: map_total_def sum.remove [of _ k])
  moreover have "map_total f (m(k \<mapsto> v)) = f v + (\<Sum>x\<in>dom m - {k}. f (the (m x)))"
    using assms(1) k eq by (simp add: map_total_def insert_absorb sum.remove [of _ k])
  ultimately show ?thesis by simp
qed

section \<open>64-bit words\<close>

lemma u64_succ_gap:
  fixes a b :: u64
  assumes "a < b"
  shows "unat (b - a - 1) = unat b - unat a - 1"
proof -
  have le: "a \<le> b" using assms by simp
  have lt: "unat a < unat b" using assms by (simp add: word_less_nat_alt)
  have d: "unat (b - a) = unat b - unat a" using le by (rule unat_sub)
  have "1 \<le> b - a" using d lt by (simp add: word_le_nat_alt)
  then have "unat (b - a - 1) = unat (b - a) - unat (1::u64)" by (rule unat_sub)
  with d show ?thesis by simp
qed

lemma u64_add_no_wrap:
  fixes a b :: u64
  assumes "unat a + unat b < 2 ^ 64"
  shows "unat (a + b) = unat a + unat b"
  using assms by (simp add: unat_word_ariths)

lemma u64_bound: "unat (a :: u64) < 2 ^ 64"
  using unsigned_less [of a] by simp

end
