(* ===== verification/Go_Float.thy ===== *)
theory Go_Float
  imports Prelude "HOL-Library.Log_Nat"
begin

text \<open>
  Go's \<open>float64\<close>, as far as the program uses it: exact rational values with the two
  infinities and NaN, IEEE 754 rounding to nearest even with gradual underflow and overflow,
  comparisons that are false on NaN, and the conversions between \<open>int\<close> and
  \<open>float64\<close>. The sign of a zero is not kept: no comparison of the modelled code tells
  the two zeros apart. The lemmas at the end say that rounding never crosses a representable
  value, which is what bounds on rounded results rest on.
\<close>

section \<open>Values, comparison\<close>

datatype float64 = Fin rat | PInf | NInf | NaN

fun flt :: "float64 \<Rightarrow> float64 \<Rightarrow> bool" where
  "flt (Fin x) (Fin y) = (x < y)"
| "flt (Fin _) PInf = True"
| "flt NInf (Fin _) = True"
| "flt NInf PInf = True"
| "flt _ _ = False"

definition fgt :: "float64 \<Rightarrow> float64 \<Rightarrow> bool" where
  "fgt x y = flt y x"

definition fle :: "float64 \<Rightarrow> float64 \<Rightarrow> bool" where
  "fle x y = (flt x y \<or> (x = y \<and> x \<noteq> NaN))"

definition is_finite :: "float64 \<Rightarrow> bool" where
  "is_finite x = (case x of Fin _ \<Rightarrow> True | _ \<Rightarrow> False)"

lemmas flt_defs [float_simps] = fgt_def fle_def

lemma is_finite_Fin [simp]: "is_finite (Fin q)"
  by (simp add: is_finite_def)

lemma is_finiteE: "is_finite x \<Longrightarrow> (\<And>q. x = Fin q \<Longrightarrow> P) \<Longrightarrow> P"
  by (cases x) (simp_all add: is_finite_def)

section \<open>Rounding\<close>

text \<open>The binary exponent of a positive rational: \<open>2 ^ ilog2 x \<le> x < 2 ^ (ilog2 x + 1)\<close>.\<close>

definition ilog2 :: "rat \<Rightarrow> int" where
  "ilog2 x = (let (p, q) = quotient_of x; k = bitlen p - bitlen q
              in if 2 powi k \<le> x then k else k - 1)"

text \<open>Rounding a non-negative rational to an integer, ties to even.\<close>

definition round_even :: "rat \<Rightarrow> int" where
  "round_even r = (let f = \<lfloor>r\<rfloor>; d = r - of_int f
     in if d < 1 / 2 then f else if 1 / 2 < d then f + 1 else if even f then f else f + 1)"

text \<open>The exponent of the last place of the float64 next to a positive magnitude.\<close>

definition ulp_exp :: "rat \<Rightarrow> int" where
  "ulp_exp a = max (ilog2 a - 52) (- 1074)"

definition round_mag :: "rat \<Rightarrow> rat" where
  "round_mag a = of_int (round_even (a / 2 powi ulp_exp a)) * 2 powi ulp_exp a"

definition round64 :: "rat \<Rightarrow> float64" where
  "round64 x = (if x = 0 then Fin 0
     else let v = round_mag \<bar>x\<bar> in
       if 2 ^ 1024 \<le> v then (if x < 0 then NInf else PInf) else Fin (sgn x * v))"

section \<open>Operations and conversions\<close>

text \<open>Multiplication and addition of finite operands; the code modelled never multiplies or
  adds an infinity to its opposite, the general cases follow IEEE 754.\<close>

fun fadd :: "float64 \<Rightarrow> float64 \<Rightarrow> float64" where
  "fadd (Fin x) (Fin y) = round64 (x + y)"
| "fadd NaN _ = NaN"
| "fadd _ NaN = NaN"
| "fadd PInf NInf = NaN"
| "fadd NInf PInf = NaN"
| "fadd PInf _ = PInf"
| "fadd _ PInf = PInf"
| "fadd NInf _ = NInf"
| "fadd _ NInf = NInf"

fun fneg :: "float64 \<Rightarrow> float64" where
  "fneg (Fin x) = Fin (- x)"
| "fneg PInf = NInf"
| "fneg NInf = PInf"
| "fneg NaN = NaN"

definition fsub :: "float64 \<Rightarrow> float64 \<Rightarrow> float64" where
  "fsub x y = fadd x (fneg y)"

definition fsign :: "float64 \<Rightarrow> rat" where
  "fsign x = (case x of Fin q \<Rightarrow> sgn q | PInf \<Rightarrow> 1 | NInf \<Rightarrow> - 1 | NaN \<Rightarrow> 0)"

definition fmul :: "float64 \<Rightarrow> float64 \<Rightarrow> float64" where
  "fmul x y = (case (x, y) of
       (Fin a, Fin b) \<Rightarrow> round64 (a * b)
     | _ \<Rightarrow> (if x = NaN \<or> y = NaN \<or> fsign x * fsign y = 0 then NaN
            else if 0 < fsign x * fsign y then PInf else NInf))"

text \<open>Division of finite values, \<open>math.Max\<close>, \<open>math.Min\<close>, and \<open>math.Mod\<close>, which is exact
  and has the sign of its first argument.\<close>

definition fdiv :: "float64 \<Rightarrow> float64 \<Rightarrow> float64" where
  "fdiv x y = (case (x, y) of
       (Fin a, Fin b) \<Rightarrow> if b \<noteq> 0 then round64 (a / b) else if a = 0 then NaN else if 0 < a then PInf else NInf
     | (Fin a, _) \<Rightarrow> if y = NaN then NaN else Fin 0
     | (_, Fin b) \<Rightarrow> if x = NaN then NaN else if (x = PInf) = (0 \<le> b) then PInf else NInf
     | _ \<Rightarrow> NaN)"

definition fmax :: "float64 \<Rightarrow> float64 \<Rightarrow> float64" where
  "fmax x y = (if x = PInf \<or> y = PInf then PInf else if x = NaN \<or> y = NaN then NaN
     else if fgt x y then x else y)"

definition fmin :: "float64 \<Rightarrow> float64 \<Rightarrow> float64" where
  "fmin x y = (if x = NInf \<or> y = NInf then NInf else if x = NaN \<or> y = NaN then NaN
     else if flt x y then x else y)"

text \<open>\<open>float64(n)\<close> and the truncating \<open>int(x)\<close>. Go leaves the conversion of a value
  that does not fit to the implementation; the model returns None there.\<close>

definition float_of_int :: "goint \<Rightarrow> float64" where
  "float_of_int n = round64 (of_int n)"

definition trunc_rat :: "rat \<Rightarrow> int" where
  "trunc_rat q = (if 0 \<le> q then \<lfloor>q\<rfloor> else \<lceil>q\<rceil>)"

definition fmod :: "float64 \<Rightarrow> float64 \<Rightarrow> float64" where
  "fmod x y = (case (x, y) of
       (Fin a, Fin b) \<Rightarrow> if b = 0 then NaN else Fin (a - b * of_int (trunc_rat (a / b)))
     | (Fin a, _) \<Rightarrow> if y = NaN then NaN else Fin a
     | _ \<Rightarrow> NaN)"

definition int_of_float :: "float64 \<Rightarrow> goint option" where
  "int_of_float x = (case x of
       Fin q \<Rightarrow> (let n = trunc_rat q in if min_int64 \<le> n \<and> n \<le> max_int64 then Some n else None)
     | _ \<Rightarrow> None)"

section \<open>Rounding never crosses a representable value\<close>

definition representable :: "rat \<Rightarrow> bool" where
  "representable b = (\<exists>m e. b = of_int m * 2 powi e \<and> \<bar>m\<bar> \<le> 2 ^ 53 \<and> - 1074 \<le> e)"

lemma representable_of_int: "\<bar>m\<bar> \<le> 2 ^ 53 \<Longrightarrow> representable (of_int m)"
  unfolding representable_def by (rule exI [of _ m], rule exI [of _ 0]) simp

lemma representable_minus: "representable b \<Longrightarrow> representable (- b)"
proof -
  assume "representable b"
  then obtain m e where "b = of_int m * 2 powi e" "\<bar>m\<bar> \<le> 2 ^ 53" "- 1074 \<le> e"
    unfolding representable_def by blast
  then have "- b = of_int (- m) * 2 powi e \<and> \<bar>- m\<bar> \<le> 2 ^ 53 \<and> - 1074 \<le> e" by simp
  then show ?thesis unfolding representable_def by blast
qed

lemma powi_pos: "0 < (2::rat) powi e"
  by simp

lemma powi_split: "(2::rat) powi (a + b) = 2 powi a * 2 powi b"
  by (simp add: power_int_add)

lemma powi_diff: "(2::rat) powi (a - b) = 2 powi a / 2 powi b"
  by (simp add: power_int_diff)

lemma bitlen_powi:
  assumes "0 < (p::int)"
  shows "(2::rat) powi (bitlen p - 1) \<le> of_int p" and "of_int p < (2::rat) powi bitlen p"
proof -
  have b: "2 ^ nat (bitlen p - 1) \<le> p \<and> p < 2 ^ nat (bitlen p)"
    using bitlen_bounds [OF assms] .
  have pos: "1 \<le> bitlen p" using assms bitlen_ge_iff_power [of 1 p] by simp
  have "(of_int (2 ^ nat (bitlen p - 1)) :: rat) \<le> of_int p" using b by (simp only: of_int_le_iff)
  then show "(2::rat) powi (bitlen p - 1) \<le> of_int p" using pos by (simp add: power_int_def)
  have "(of_int p :: rat) < of_int (2 ^ nat (bitlen p))" using b by (simp only: of_int_less_iff)
  then show "of_int p < (2::rat) powi bitlen p" using pos by (simp add: power_int_def)
qed

lemma ilog2_bounds:
  assumes "0 < x"
  shows "2 powi ilog2 x \<le> x" and "x < 2 powi (ilog2 x + 1)"
proof -
  obtain p q where pq: "quotient_of x = (p, q)" by fastforce
  have q: "0 < q" using quotient_of_denom_pos [OF pq] .
  have x: "x = of_int p / of_int q" using quotient_of_div [OF pq] .
  have p: "0 < p" using assms q by (simp add: x zero_less_divide_iff)
  define k where "k = bitlen p - bitlen q"
  have lo: "2 powi (k - 1) \<le> x"
  proof -
    have "(2::rat) powi (k - 1) * of_int q \<le> 2 powi (k - 1) * 2 powi bitlen q"
      using bitlen_powi(2) [OF q] by (intro mult_left_mono) simp_all
    also have "\<dots> = 2 powi (bitlen p - 1)" by (simp add: k_def flip: powi_split)
    also have "\<dots> \<le> of_int p" using bitlen_powi(1) [OF p] .
    finally show ?thesis using q by (simp add: x pos_le_divide_eq)
  qed
  have hi: "x < 2 powi (k + 1)"
  proof -
    have "of_int p < (2::rat) powi bitlen p" using bitlen_powi(2) [OF p] .
    also have "\<dots> = 2 powi (k + 1) * 2 powi (bitlen q - 1)" by (simp add: k_def flip: powi_split)
    also have "\<dots> \<le> 2 powi (k + 1) * of_int q"
      using bitlen_powi(1) [OF q] by (intro mult_left_mono) simp_all
    finally show ?thesis using q by (simp add: x pos_divide_less_eq)
  qed
  have i: "ilog2 x = (if 2 powi k \<le> x then k else k - 1)"
    by (simp add: ilog2_def pq k_def)
  show "2 powi ilog2 x \<le> x" using lo by (simp add: i)
  show "x < 2 powi (ilog2 x + 1)" using hi by (simp add: i)
qed

lemma round_even_int [simp]: "round_even (of_int n) = n"
  by (simp add: round_even_def)

lemma round_even_mono:
  assumes "r \<le> s"
  shows "round_even r \<le> round_even s"
proof (cases "\<lfloor>r\<rfloor> = \<lfloor>s\<rfloor>")
  case True
  then show ?thesis using assms by (auto simp: round_even_def Let_def)
next
  case False
  then have "\<lfloor>r\<rfloor> + 1 \<le> \<lfloor>s\<rfloor>" using floor_mono [OF assms] by linarith
  moreover have "round_even r \<le> \<lfloor>r\<rfloor> + 1" by (simp add: round_even_def Let_def)
  moreover have "\<lfloor>s\<rfloor> \<le> round_even s" by (simp add: round_even_def Let_def)
  ultimately show ?thesis by linarith
qed

lemma round_even_le: "r \<le> of_int n \<Longrightarrow> round_even r \<le> n"
  using round_even_mono [of r "of_int n"] by simp

lemma round_even_ge: "of_int n \<le> r \<Longrightarrow> n \<le> round_even r"
  using round_even_mono [of "of_int n" r] by simp

text \<open>
  A representable value is a multiple of the last place of \<open>a\<close>, or lies at or below the
  power of two under \<open>a\<close>, which is such a multiple.
\<close>

lemma representable_grid:
  assumes "representable b" and "0 < a"
  shows "(\<exists>n. b = of_int n * 2 powi ulp_exp a) \<or>
         (b \<le> 2 ^ 52 * 2 powi ulp_exp a \<and> 2 ^ 52 * 2 powi ulp_exp a \<le> a)"
proof -
  obtain m e where b: "b = of_int m * 2 powi e" and m: "\<bar>m\<bar> \<le> 2 ^ 53" and e: "- 1074 \<le> e"
    using assms(1) unfolding representable_def by blast
  show ?thesis
  proof (cases "ulp_exp a \<le> e")
    case True
    then have "(2::rat) powi (e - ulp_exp a) = of_int (2 ^ nat (e - ulp_exp a))"
      by (simp add: power_int_def)
    moreover have "(2::rat) powi e = 2 powi (e - ulp_exp a) * 2 powi ulp_exp a"
      by (simp flip: powi_split)
    ultimately have "(2::rat) powi e = of_int (2 ^ nat (e - ulp_exp a)) * 2 powi ulp_exp a"
      by simp
    then have "b = of_int (m * 2 ^ nat (e - ulp_exp a)) * 2 powi ulp_exp a" by (simp add: b)
    then show ?thesis by blast
  next
    case False
    then have u: "ulp_exp a = ilog2 a - 52" using e by (auto simp: ulp_exp_def max_def split: if_splits)
    have p52: "(2::rat) ^ 52 * 2 powi ulp_exp a = 2 powi ilog2 a"
      by (simp add: u powi_diff)
    have "b \<le> 2 ^ 53 * 2 powi e"
    proof -
      have "m \<le> 2 ^ 53" using m by simp
      then have "(of_int m :: rat) \<le> of_int (2 ^ 53)" by (simp only: of_int_le_iff)
      then show ?thesis unfolding b by (intro mult_right_mono) simp_all
    qed
    also have "(2::rat) ^ 53 * 2 powi e = 2 powi (53 + e)" by (simp add: powi_split)
    also have "\<dots> \<le> 2 powi (52 + ulp_exp a)" using False by (intro power_int_increasing) simp_all
    also have "\<dots> = 2 ^ 52 * 2 powi ulp_exp a" by (simp add: powi_split)
    finally show ?thesis using ilog2_bounds(1) [OF assms(2)] p52 by simp
  qed
qed

lemma round_mag_le:
  assumes "0 < a" and "a \<le> b" and "representable b"
  shows "round_mag a \<le> b"
proof -
  have "\<exists>n. b = of_int n * 2 powi ulp_exp a"
    using representable_grid [OF assms(3,1)]
  proof (elim disjE)
    assume "b \<le> 2 ^ 52 * 2 powi ulp_exp a \<and> 2 ^ 52 * 2 powi ulp_exp a \<le> a"
    then have "b = of_int (2 ^ 52) * 2 powi ulp_exp a" using assms(2) by simp
    then show ?thesis by (rule exI)
  qed
  then obtain n where b: "b = of_int n * 2 powi ulp_exp a" ..
  have "a / 2 powi ulp_exp a \<le> of_int n"
    using assms(2) by (simp add: b pos_divide_le_eq)
  then have "round_even (a / 2 powi ulp_exp a) \<le> n" by (rule round_even_le)
  then have "(of_int (round_even (a / 2 powi ulp_exp a)) :: rat) \<le> of_int n"
    by (simp only: of_int_le_iff)
  then show ?thesis unfolding round_mag_def b by (rule mult_right_mono) simp
qed

lemma round_mag_ge:
  assumes "0 < a" and "b \<le> a" and "representable b"
  shows "b \<le> round_mag a"
proof -
  let ?u = "2 powi ulp_exp a :: rat"
  have "\<exists>n. b \<le> of_int n * ?u \<and> of_int n * ?u \<le> a"
    using representable_grid [OF assms(3,1)]
  proof (elim disjE)
    assume "\<exists>n. b = of_int n * ?u"
    then show ?thesis using assms(2) by auto
  next
    assume "b \<le> 2 ^ 52 * ?u \<and> 2 ^ 52 * ?u \<le> a"
    then show ?thesis by (intro exI [of _ "2 ^ 52"]) simp
  qed
  then obtain n where n: "b \<le> of_int n * ?u" "of_int n * ?u \<le> a" by blast
  have "of_int n \<le> a / ?u" using n(2) by (simp add: pos_le_divide_eq)
  then have "n \<le> round_even (a / ?u)" by (rule round_even_ge)
  then have "(of_int n :: rat) \<le> of_int (round_even (a / ?u))" by (simp only: of_int_le_iff)
  then have "of_int n * ?u \<le> round_mag a" unfolding round_mag_def by (rule mult_right_mono) simp
  with n(1) show ?thesis by linarith
qed

lemma round_mag_nonneg: "0 < a \<Longrightarrow> 0 \<le> round_mag a"
  using round_mag_ge [of a 0] representable_of_int [of 0] by simp

lemma round_mag_exact: "0 < a \<Longrightarrow> representable a \<Longrightarrow> round_mag a = a"
  using round_mag_le [of a a] round_mag_ge [of a a] by (simp add: antisym)

lemma ilog2_mono:
  assumes "0 < a" and "a \<le> b"
  shows "ilog2 a \<le> ilog2 b"
proof (rule ccontr)
  assume "\<not> ?thesis"
  then have "(2::rat) powi (ilog2 b + 1) \<le> 2 powi ilog2 a" by (intro power_int_increasing) simp_all
  also have "\<dots> \<le> a" using ilog2_bounds(1) [OF assms(1)] .
  also have "\<dots> \<le> b" using assms(2) .
  finally show False using ilog2_bounds(2) [of b] assms by simp
qed

lemma round_mag_top:
  assumes "0 < a"
  shows "round_mag a \<le> 2 ^ 53 * 2 powi ulp_exp a"
proof -
  have "(2::rat) powi (ilog2 a + 1) \<le> 2 powi (53 + ulp_exp a)"
    by (intro power_int_increasing) (simp_all add: ulp_exp_def)
  then have "a \<le> 2 ^ 53 * 2 powi ulp_exp a"
    using ilog2_bounds(2) [OF assms] by (simp add: powi_split)
  then have "a / 2 powi ulp_exp a \<le> of_int (2 ^ 53)" by (simp add: pos_divide_le_eq)
  then have "round_even (a / 2 powi ulp_exp a) \<le> 2 ^ 53" by (rule round_even_le)
  then have "(of_int (round_even (a / 2 powi ulp_exp a)) :: rat) \<le> of_int (2 ^ 53)"
    by (simp only: of_int_le_iff)
  then show ?thesis unfolding round_mag_def by (intro mult_right_mono) simp_all
qed

lemma round_mag_mono:
  assumes "0 < a" and "a \<le> b"
  shows "round_mag a \<le> round_mag b"
proof -
  have b: "0 < b" using assms by simp
  have le: "ulp_exp a \<le> ulp_exp b" using ilog2_mono [OF assms] by (simp add: ulp_exp_def)
  show ?thesis
  proof (cases "ulp_exp a = ulp_exp b")
    case True
    have "a / 2 powi ulp_exp b \<le> b / 2 powi ulp_exp b"
      using assms(2) by (intro divide_right_mono) simp_all
    then have "round_even (a / 2 powi ulp_exp b) \<le> round_even (b / 2 powi ulp_exp b)"
      by (rule round_even_mono)
    then have "(of_int (round_even (a / 2 powi ulp_exp b)) :: rat) \<le> of_int (round_even (b / 2 powi ulp_exp b))"
      by (simp only: of_int_le_iff)
    then show ?thesis unfolding round_mag_def True by (rule mult_right_mono) simp
  next
    case False
    then have u: "ulp_exp b = ilog2 b - 52" "ulp_exp a + 1 \<le> ulp_exp b"
      using le by (auto simp: ulp_exp_def max_def split: if_splits)
    let ?p = "2 ^ 52 * 2 powi ulp_exp b :: rat"
    have "round_mag a \<le> 2 powi (53 + ulp_exp a)" using round_mag_top [OF assms(1)] by (simp add: powi_split)
    also have "\<dots> \<le> 2 powi (52 + ulp_exp b)" using u(2) by (intro power_int_increasing) simp_all
    finally have ap: "round_mag a \<le> ?p" by (simp add: powi_split)
    have "?p = 2 powi ilog2 b" by (simp add: u powi_diff)
    then have "?p \<le> b" using ilog2_bounds(1) [OF b] by simp
    moreover have "representable ?p" unfolding representable_def
      by (rule exI [of _ "2 ^ 52"], rule exI [of _ "ulp_exp b"]) (simp add: ulp_exp_def)
    ultimately have "?p \<le> round_mag b" using round_mag_ge [OF b] by simp
    with ap show ?thesis by simp
  qed
qed

text \<open>The same facts for signed values, as comparisons of float64.\<close>

lemma round64_zero [simp]: "round64 0 = Fin 0"
  by (simp add: round64_def)

lemma round64_pos:
  "0 < x \<Longrightarrow> round64 x = (if 2 ^ 1024 \<le> round_mag x then PInf else Fin (round_mag x))"
  by (simp add: round64_def Let_def)

lemma round64_neg:
  "x < 0 \<Longrightarrow> round64 x = (if 2 ^ 1024 \<le> round_mag (- x) then NInf else Fin (- round_mag (- x)))"
  by (simp add: round64_def Let_def)

lemma round64_minus: "round64 (- x) = fneg (round64 x)"
  by (cases x "0::rat" rule: linorder_cases) (simp_all add: round64_pos round64_neg)

lemma round64_not_NaN [simp]: "round64 x \<noteq> NaN"
  by (simp add: round64_def Let_def)

lemma round64_exact:
  assumes "representable x" and "\<bar>x\<bar> < 2 ^ 1024"
  shows "round64 x = Fin x"
proof (cases x "0::rat" rule: linorder_cases)
  case less
  then show ?thesis using assms round_mag_exact [of "- x"] representable_minus [of x]
    by (simp add: round64_neg)
next
  case greater
  then show ?thesis using assms round_mag_exact [of x] by (simp add: round64_pos)
qed simp

lemma round64_mono:
  assumes "x \<le> y"
  shows "fle (round64 x) (round64 y)"
proof -
  consider "x = y" | "0 < x" "x \<le> y" | "x \<le> 0" "0 \<le> y" | "x \<le> y" "y < 0" using assms by linarith
  then show ?thesis
  proof cases
    case 1
    then show ?thesis by (simp add: fle_def)
  next
    case 2
    then show ?thesis using round_mag_mono [OF 2] by (auto simp: round64_pos fle_def)
  next
    case 3
    have "fle (round64 x) (Fin 0)"
      using 3(1) round_mag_nonneg [of "- x"]
      by (cases "x = 0") (auto simp: round64_neg fle_def)
    moreover have "fle (Fin 0) (round64 y)"
      using 3(2) round_mag_nonneg [of y]
      by (cases "y = 0") (auto simp: round64_pos fle_def)
    ultimately show ?thesis
      by (cases "round64 x"; cases "round64 y") (auto simp: fle_def)
  next
    case 4
    then show ?thesis using round_mag_mono [of "- y" "- x"] by (auto simp: round64_neg fle_def)
  qed
qed

lemma round64_le:
  assumes "x \<le> b" and "representable b" and "\<bar>b\<bar> < 2 ^ 1024"
  shows "fle (round64 x) (Fin b)"
  using round64_mono [OF assms(1)] round64_exact [OF assms(2,3)] by simp

lemma round64_ge:
  assumes "b \<le> x" and "representable b" and "\<bar>b\<bar> < 2 ^ 1024"
  shows "fle (Fin b) (round64 x)"
  using round64_mono [OF assms(1)] round64_exact [OF assms(2,3)] by simp

lemma small_int_lt_top: "\<bar>n\<bar> \<le> 2 ^ 53 \<Longrightarrow> \<bar>of_int n :: rat\<bar> < 2 ^ 1024"
proof -
  assume "\<bar>n\<bar> \<le> 2 ^ 53"
  then have "(of_int \<bar>n\<bar> :: rat) \<le> of_int (2 ^ 53)" by (simp only: of_int_le_iff)
  then show ?thesis by simp
qed

lemma float_of_int_exact: "\<bar>n\<bar> \<le> 2 ^ 53 \<Longrightarrow> float_of_int n = Fin (of_int n)"
  unfolding float_of_int_def
  by (intro round64_exact representable_of_int small_int_lt_top)

section \<open>Ranges\<close>

definition at_least :: "rat \<Rightarrow> float64 \<Rightarrow> bool" where
  "at_least lo x = (case x of Fin q \<Rightarrow> lo \<le> q | _ \<Rightarrow> False)"

definition at_most :: "rat \<Rightarrow> float64 \<Rightarrow> bool" where
  "at_most hi x = (case x of Fin q \<Rightarrow> q \<le> hi | _ \<Rightarrow> False)"

definition in_range :: "rat \<Rightarrow> rat \<Rightarrow> float64 \<Rightarrow> bool" where
  "in_range lo hi x = (at_least lo x \<and> at_most hi x)"

lemma finite_range_simps:
  assumes "is_finite x"
  shows "flt x (Fin lo) \<longleftrightarrow> \<not> at_least lo x"
    and "fgt x (Fin hi) \<longleftrightarrow> \<not> at_most hi x"
    and "fle x (Fin 0) \<longleftrightarrow> \<not> at_least 0 x \<or> x = Fin 0"
  using assms by (auto simp: at_least_def at_most_def flt_defs elim!: is_finiteE)

lemma in_range_Fin: "in_range lo hi x \<longleftrightarrow> (\<exists>q. x = Fin q \<and> lo \<le> q \<and> q \<le> hi)"
  by (cases x) (auto simp: in_range_def at_least_def at_most_def)

lemma in_range_finite: "in_range lo hi x \<Longrightarrow> is_finite x"
  by (auto simp: in_range_Fin)

lemma in_range_weaken: "in_range lo hi x \<Longrightarrow> lo' \<le> lo \<Longrightarrow> hi \<le> hi' \<Longrightarrow> in_range lo' hi' x"
  by (auto simp: in_range_Fin)

text \<open>A rounded result stays between representable bounds of the exact one.\<close>

lemma round64_in_range:
  assumes "lo \<le> x" "x \<le> hi" and "representable lo" "representable hi" and "\<bar>lo\<bar> < 2 ^ 1024" "\<bar>hi\<bar> < 2 ^ 1024"
  shows "in_range lo hi (round64 x)"
  using round64_ge [OF assms(1,3,5)] round64_le [OF assms(2,4,6)]
  by (cases "round64 x") (auto simp: fle_def in_range_def at_least_def at_most_def)

lemma round64_in_int_range:
  assumes "of_int lo \<le> x" "x \<le> of_int hi" and "\<bar>lo\<bar> \<le> 2 ^ 53" "\<bar>hi\<bar> \<le> 2 ^ 53"
  shows "in_range (of_int lo) (of_int hi) (round64 x)"
  using assms by (intro round64_in_range representable_of_int small_int_lt_top)

lemma fadd_in_range:
  assumes "in_range (of_int a) (of_int b) x" and "in_range (of_int c) (of_int d) y"
    and "\<bar>a + c\<bar> \<le> 2 ^ 53" "\<bar>b + d\<bar> \<le> 2 ^ 53"
  shows "in_range (of_int (a + c)) (of_int (b + d)) (fadd x y)"
proof -
  obtain p q where "x = Fin p" "y = Fin q" "of_int a \<le> p" "p \<le> of_int b" "of_int c \<le> q" "q \<le> of_int d"
    using assms(1,2) by (auto simp: in_range_Fin)
  then show ?thesis using assms(3,4) round64_in_int_range [of "a + c" "p + q" "b + d"] by simp
qed

lemma fneg_in_range: "in_range lo hi x \<Longrightarrow> in_range (- hi) (- lo) (fneg x)"
  by (auto simp: in_range_Fin)

lemma fmul_in_range:
  assumes "in_range (of_int a) (of_int b) x" and "in_range 0 (of_int c) y" and "a \<le> 0" "0 \<le> b"
    and "\<bar>a * c\<bar> \<le> 2 ^ 53" "\<bar>b * c\<bar> \<le> 2 ^ 53"
  shows "in_range (of_int (a * c)) (of_int (b * c)) (fmul x y)"
proof -
  obtain p q where pq: "x = Fin p" "y = Fin q" "of_int a \<le> p" "p \<le> of_int b" "0 \<le> q" "q \<le> of_int c"
    using assms(1,2) by (auto simp: in_range_Fin)
  have "of_int a * of_int c \<le> (of_int a :: rat) * q" using pq assms(3) by (intro mult_left_mono_neg) simp_all
  also have "\<dots> \<le> p * q" using pq by (intro mult_right_mono)
  finally have lo: "of_int (a * c) \<le> p * q" by simp
  have "p * q \<le> of_int b * q" using pq by (intro mult_right_mono)
  also have "\<dots> \<le> of_int b * of_int c" using pq assms(4) by (intro mult_left_mono) simp_all
  finally have hi: "p * q \<le> of_int (b * c)" by simp
  show ?thesis using round64_in_int_range [OF lo hi] assms(5,6) pq by (simp add: fmul_def)
qed

lemma fdiv_in_range:
  assumes "in_range 0 (of_int a) x" and "1 \<le> n" and "\<bar>a\<bar> \<le> 2 ^ 53"
  shows "in_range 0 (of_int a) (fdiv x (Fin (of_int n)))"
proof -
  obtain p where p: "x = Fin p" "0 \<le> p" "p \<le> of_int a" using assms(1) by (auto simp: in_range_Fin)
  have "p / of_int n \<le> p / 1" using p assms(2) by (intro divide_left_mono) auto
  then show ?thesis
    using round64_in_int_range [of 0 "p / of_int n" a] p assms by (simp add: fdiv_def)
qed

text \<open>Clamping to a range, and the remainder of a division.\<close>

lemma clamp_in_range:
  assumes "is_finite x" and "lo \<le> hi"
  shows "in_range lo hi (fmax (Fin lo) (fmin (Fin hi) x))"
  using assms by (auto simp: fmax_def fmin_def in_range_Fin flt_defs elim!: is_finiteE)

lemma fmax_zero_in_range: "in_range lo hi x \<Longrightarrow> 0 \<le> hi \<Longrightarrow> in_range 0 hi (fmax (Fin 0) x)"
  by (auto simp: fmax_def in_range_Fin flt_defs)

lemma fmod_in_range:
  assumes "is_finite x" and "0 < b"
  shows "in_range (- b) b (fmod x (Fin b))"
proof -
  obtain a where a: "x = Fin a" using assms(1) by (rule is_finiteE)
  have "\<bar>a / b - of_int (trunc_rat (a / b))\<bar> \<le> 1"
    by (simp add: trunc_rat_def) linarith
  then have "\<bar>b * (a / b - of_int (trunc_rat (a / b)))\<bar> \<le> b"
    using assms(2) by (simp add: abs_mult mult_le_cancel_left1)
  moreover have "b * (a / b - of_int (trunc_rat (a / b))) = a - b * of_int (trunc_rat (a / b))"
    using assms(2) by (simp add: algebra_simps)
  ultimately show ?thesis using a assms(2) by (simp add: fmod_def in_range_Fin abs_le_iff)
qed

text \<open>Beyond 2^53 a small increment is lost to rounding, so a sum of small steps cannot overflow.\<close>

lemma round64_absorbs: "round64 (2 ^ 60 + 120) = Fin (2 ^ 60)"
  by code_simp

lemma fadd_saturates:
  assumes "in_range 0 (2 ^ 60) x" and "in_range (of_int c) 120 y" and "\<bar>c\<bar> \<le> 2 ^ 53"
  shows "in_range (of_int c) (2 ^ 60) (fadd x y)"
proof -
  obtain p q where pq: "x = Fin p" "y = Fin q" "0 \<le> p" "p \<le> 2 ^ 60" "of_int c \<le> q" "q \<le> 120"
    using assms by (auto simp: in_range_Fin)
  have "fle (round64 (p + q)) (round64 (2 ^ 60 + 120))" using pq by (intro round64_mono) linarith
  moreover have "fle (Fin (of_int c)) (round64 (p + q))"
    using pq assms(3) by (intro round64_ge representable_of_int small_int_lt_top) simp_all
  ultimately show ?thesis using pq round64_absorbs
    by (cases "round64 (p + q)") (auto simp: fle_def in_range_Fin)
qed

end
