(* ===== verification/Go_Time.thy ===== *)
theory Go_Time
  imports Prelude
begin

text \<open>
  Go's \<open>time\<close> package as the program uses it. An instant is its number of nanoseconds
  since the zero \<open>time.Time\<close> (January 1 of year 1, UTC), so \<open>IsZero\<close> is equality with
  0; a \<open>time.Duration\<close> is a number of nanoseconds. Reading the clock is an argument of the
  definitions that call \<open>time.Now\<close>. The section on RFC 3339 is the text format
  \<open>time.Time\<close> is decoded from.
\<close>

section \<open>Instants and durations\<close>

type_synonym time = int
type_synonym duration = int

definition millisecond :: duration where "millisecond = 1000000"
definition second :: duration where "second = 1000000000"
definition minute :: duration where "minute = 60 * second"

definition IsZero :: "time \<Rightarrow> bool" where "IsZero t = (t = 0)"
definition After :: "time \<Rightarrow> time \<Rightarrow> bool" where "After t u = (u < t)"
definition Add :: "time \<Rightarrow> duration \<Rightarrow> time" where "Add t d = t + d"

text \<open>\<open>t.Sub(u)\<close> saturates at the bounds of a duration.\<close>

definition Sub :: "time \<Rightarrow> time \<Rightarrow> duration" where
  "Sub t u = max min_int64 (min max_int64 (t - u))"

lemma Sub_le: "d < max_int64 \<Longrightarrow> min_int64 \<le> d \<Longrightarrow> (Sub t u > d) = (t - u > d)"
  by (auto simp: Sub_def)

lemma Sub_bounds: "min_int64 \<le> Sub t u \<and> Sub t u \<le> max_int64"
  by (auto simp: Sub_def)

section \<open>Decimal digits\<close>

definition byte_val :: "char \<Rightarrow> int" where "byte_val c = of_char c"

definition is_digit :: "char \<Rightarrow> bool" where
  "is_digit c = (48 \<le> byte_val c \<and> byte_val c \<le> 57)"

definition digit_val :: "char \<Rightarrow> int" where "digit_val c = byte_val c - 48"

definition digits_val :: "bytes \<Rightarrow> int" where
  "digits_val s = foldl (\<lambda>n c. 10 * n + digit_val c) 0 s"

section \<open>RFC 3339\<close>

text \<open>Days from January 1 of year 1 to the given date of the proleptic Gregorian calendar.\<close>

definition is_leap :: "int \<Rightarrow> bool" where
  "is_leap y = (y mod 4 = 0 \<and> (y mod 100 \<noteq> 0 \<or> y mod 400 = 0))"

definition days_in :: "int \<Rightarrow> int \<Rightarrow> int" where
  "days_in y m = (if m = 2 then (if is_leap y then 29 else 28)
                  else if m \<in> {4, 6, 9, 11} then 30 else 31)"

definition days_before :: "int \<Rightarrow> int \<Rightarrow> int \<Rightarrow> int" where
  "days_before y m d = (let p = y - 1 in
     365 * p + p div 4 - p div 100 + p div 400
     + sum_list (map (days_in y) [1..m - 1]) + d - 1)"

definition unix_ns :: "int \<Rightarrow> int \<Rightarrow> int \<Rightarrow> int \<Rightarrow> int \<Rightarrow> int \<Rightarrow> int \<Rightarrow> int \<Rightarrow> time" where
  "unix_ns y mo d h mi s ns off =
     (((days_before y mo d * 24 + h) * 60 + mi) * 60 + s - off) * second + ns"

text \<open>
  The layout \<open>2006-01-02T15:04:05Z07:00\<close> as \<open>time.Parse\<close> reads it: the hour may
  have one digit, a fraction (after a period or a comma) is optional and cut to nine digits,
  the offset is \<open>Z\<close> or a signed \<open>hh:mm\<close>.
\<close>

definition getnum :: "bool \<Rightarrow> bytes \<Rightarrow> (int \<times> bytes) option" where
  "getnum fixed s = (case s of
       [] \<Rightarrow> None
     | a # r \<Rightarrow>
         if \<not> is_digit a then None
         else (case r of
             b # r' \<Rightarrow> if is_digit b then Some (10 * digit_val a + digit_val b, r')
                       else if fixed then None else Some (digit_val a, r)
           | [] \<Rightarrow> if fixed then None else Some (digit_val a, [])))"

definition get_in :: "bool \<Rightarrow> int \<Rightarrow> int \<Rightarrow> bytes \<Rightarrow> (int \<times> bytes) option" where
  "get_in fixed lo hi s = (case getnum fixed s of
       Some (n, r) \<Rightarrow> if lo \<le> n \<and> n \<le> hi then Some (n, r) else None
     | None \<Rightarrow> None)"

definition skip :: "char \<Rightarrow> bytes \<Rightarrow> bytes option" where
  "skip c s = (case s of x # r \<Rightarrow> if x = c then Some r else None | [] \<Rightarrow> None)"

definition get_year :: "bytes \<Rightarrow> (int \<times> bytes) option" where
  "get_year s = (if 4 \<le> length s \<and> list_all is_digit (take 4 s)
                 then Some (digits_val (take 4 s), drop 4 s) else None)"

definition get_frac :: "bytes \<Rightarrow> int \<times> bytes" where
  "get_frac s = (case s of
       p # c # _ \<Rightarrow>
         if (p = CHR ''.'' \<or> p = CHR '','') \<and> is_digit c
         then (let ds = takeWhile is_digit (tl s); k = take 9 ds
               in (digits_val k * 10 ^ (9 - length k), dropWhile is_digit (tl s)))
         else (0, s)
     | _ \<Rightarrow> (0, s))"

definition get_zone :: "bytes \<Rightarrow> (int \<times> bytes) option" where
  "get_zone s = (case s of
       [] \<Rightarrow> None
     | c # r \<Rightarrow>
         if c = CHR ''Z'' then Some (0, r)
         else if length s < 6 \<or> s ! 3 \<noteq> CHR '':'' then None
         else (case (get_in True 0 24 (take 2 r), get_in True 0 60 (take 2 (drop 4 s))) of
             (Some (h, _), Some (m, _)) \<Rightarrow>
               if c = CHR ''+'' then Some ((h * 60 + m) * 60, drop 6 s)
               else if c = CHR ''-'' then Some (- ((h * 60 + m) * 60), drop 6 s)
               else None
           | _ \<Rightarrow> None))"

definition parse_rfc3339 :: "bytes \<Rightarrow> time option" where
  "parse_rfc3339 s =
     Option.bind (get_year s) (\<lambda>(y, s). Option.bind (skip (CHR ''-'') s) (\<lambda>s.
     Option.bind (get_in True 1 12 s) (\<lambda>(mo, s). Option.bind (skip (CHR ''-'') s) (\<lambda>s.
     Option.bind (getnum True s) (\<lambda>(d, s). Option.bind (skip (CHR ''T'') s) (\<lambda>s.
     Option.bind (get_in False 0 23 s) (\<lambda>(h, s). Option.bind (skip (CHR '':'') s) (\<lambda>s.
     Option.bind (get_in True 0 59 s) (\<lambda>(mi, s). Option.bind (skip (CHR '':'') s) (\<lambda>s.
     Option.bind (get_in True 0 59 s) (\<lambda>(sec, s).
       let (ns, s) = get_frac s in
     Option.bind (get_zone s) (\<lambda>(off, s).
       if s = [] \<and> 1 \<le> d \<and> d \<le> days_in y mo
       then Some (unix_ns y mo d h mi sec ns off) else None))))))))))))"

text \<open>The Unix epoch lies 719162 days after the zero time.\<close>

lemma parse_rfc3339_epoch:
  "parse_rfc3339 ''1970-01-01T00:00:00Z'' = Some (719162 * 86400 * second)"
  by code_simp

end
