(* ===== verification/Go_Json.thy ===== *)
theory Go_Json
  imports Go_Float Go_Time
begin

text \<open>
  The part of \<open>encoding/json\<close> the program calls: the syntax check and parse that
  \<open>json.Unmarshal\<close> starts with, from bytes to a tree, and the decoding of a tree into a
  struct field by field. A number keeps its text and a string its text between the quotes,
  as in the package, where the field's type decides how they are read; an object member keeps
  the text of its value, which is what a \<open>json.RawMessage\<close> field receives.
\<close>

section \<open>Syntax\<close>

datatype json =
    JNull
  | JBool bool
  | JNum bytes
  | JStr bytes
  | JArr "json list"
  | JObj "(bytes \<times> bytes \<times> json) list"

definition is_ws :: "char \<Rightarrow> bool" where
  "is_ws c = (byte_val c \<in> {32, 9, 10, 13})"

definition skip_ws :: "bytes \<Rightarrow> bytes" where
  "skip_ws = dropWhile is_ws"

definition is_hex :: "char \<Rightarrow> bool" where
  "is_hex c = (is_digit c \<or> (65 \<le> byte_val c \<and> byte_val c \<le> 70)
                 \<or> (97 \<le> byte_val c \<and> byte_val c \<le> 102))"

abbreviation dquote :: char where "dquote \<equiv> CHR 0x22"
abbreviation backslash :: char where "backslash \<equiv> CHR 0x5C"

text \<open>The text of a string up to its closing quote, and what follows the quote.\<close>

fun scan_string :: "bytes \<Rightarrow> (bytes \<times> bytes) option" where
  "scan_string [] = None"
| "scan_string (c # r) =
     (if c = dquote then Some ([], r)
      else if c = backslash then
        (case r of
           [] \<Rightarrow> None
         | e # r' \<Rightarrow>
             if e = CHR ''u'' then
               (if 4 \<le> length r' \<and> list_all is_hex (take 4 r')
                then map_option (\<lambda>(t, q). (c # e # take 4 r' @ t, q)) (scan_string (drop 4 r'))
                else None)
             else if e \<in> set ''bfnrt/'' \<or> e = backslash \<or> e = dquote
             then map_option (\<lambda>(t, q). (c # e # t, q)) (scan_string r')
             else None)
      else if byte_val c < 32 then None
      else map_option (\<lambda>(t, q). (c # t, q)) (scan_string r))"

text \<open>Numbers: an optional minus sign, digits without a leading zero, fraction, exponent.\<close>

definition scan_digits1 :: "bytes \<Rightarrow> (bytes \<times> bytes) option" where
  "scan_digits1 s = (let d = takeWhile is_digit s
                     in if d = [] then None else Some (d, dropWhile is_digit s))"

definition scan_int :: "bytes \<Rightarrow> (bytes \<times> bytes) option" where
  "scan_int s = (case s of
       [] \<Rightarrow> None
     | c # r \<Rightarrow> if c = CHR ''0'' then Some ([c], r) else scan_digits1 s)"

definition scan_frac :: "bytes \<Rightarrow> (bytes \<times> bytes) option" where
  "scan_frac s = (case s of
       c # r \<Rightarrow> if c = CHR ''.'' then map_option (\<lambda>(d, q). (c # d, q)) (scan_digits1 r)
                else Some ([], s)
     | [] \<Rightarrow> Some ([], []))"

definition scan_exp :: "bytes \<Rightarrow> (bytes \<times> bytes) option" where
  "scan_exp s = (case s of
       c # r \<Rightarrow>
         if c = CHR ''e'' \<or> c = CHR ''E'' then
           (case r of
              g # r' \<Rightarrow>
                if g = CHR ''+'' \<or> g = CHR ''-''
                then map_option (\<lambda>(d, q). (c # g # d, q)) (scan_digits1 r')
                else map_option (\<lambda>(d, q). (c # d, q)) (scan_digits1 r)
            | [] \<Rightarrow> None)
         else Some ([], s)
     | [] \<Rightarrow> Some ([], []))"

definition scan_number :: "bytes \<Rightarrow> (bytes \<times> bytes) option" where
  "scan_number s =
     (let (m, s0) = (case s of c # r \<Rightarrow> if c = CHR ''-'' then ([c], r) else ([], s) | [] \<Rightarrow> ([], s))
      in Option.bind (scan_int s0) (\<lambda>(i, s1). Option.bind (scan_frac s1) (\<lambda>(f, s2).
         map_option (\<lambda>(e, s3). (m @ i @ f @ e, s3)) (scan_exp s2))))"

definition scan_lit :: "bytes \<Rightarrow> json \<Rightarrow> bytes \<Rightarrow> (json \<times> bytes) option" where
  "scan_lit l j s = (if take (length l) s = l then Some (j, drop (length l) s) else None)"

definition scan_scalar :: "bytes \<Rightarrow> (json \<times> bytes) option" where
  "scan_scalar s = (case s of
       [] \<Rightarrow> None
     | c # r \<Rightarrow>
         if c = dquote then map_option (\<lambda>(t, q). (JStr t, q)) (scan_string r)
         else if c = CHR ''t'' then scan_lit ''true'' (JBool True) s
         else if c = CHR ''f'' then scan_lit ''false'' (JBool False) s
         else if c = CHR ''n'' then scan_lit ''null'' JNull s
         else map_option (\<lambda>(t, q). (JNum t, q)) (scan_number s))"

text \<open>
  Values, with the nesting depth bounded as in the package. The first argument is fuel: a value
  or a member spends one unit and consumes at least one byte, an array element spends two, so
  twice the length of the input is enough (\<open>parse_json_fuel\<close> below).
\<close>

definition max_nesting_depth :: nat where "max_nesting_depth = 10000"

definition member_key :: "bytes \<Rightarrow> (bytes \<times> bytes) option" where
  "member_key s = (case s of
       [] \<Rightarrow> None
     | c # r \<Rightarrow>
         if c \<noteq> dquote then None
         else Option.bind (scan_string r) (\<lambda>(k, s1).
           map_option (\<lambda>s2. (k, skip_ws s2)) (skip (CHR '':'') (skip_ws s1))))"

fun parse_value :: "nat \<Rightarrow> nat \<Rightarrow> bytes \<Rightarrow> (json \<times> bytes) option"
and parse_members :: "nat \<Rightarrow> nat \<Rightarrow> bytes \<Rightarrow> ((bytes \<times> bytes \<times> json) list \<times> bytes) option"
and parse_elems :: "nat \<Rightarrow> nat \<Rightarrow> bytes \<Rightarrow> (json list \<times> bytes) option" where
  "parse_value 0 d s = None"
| "parse_value (Suc n) d s = (case s of
       [] \<Rightarrow> None
     | c # r \<Rightarrow>
         if c = CHR ''{'' then
           (if max_nesting_depth \<le> d then None
            else if take 1 (skip_ws r) = ''}'' then Some (JObj [], drop 1 (skip_ws r))
            else map_option (\<lambda>(m, q). (JObj m, q)) (parse_members n (Suc d) (skip_ws r)))
         else if c = CHR ''['' then
           (if max_nesting_depth \<le> d then None
            else if take 1 (skip_ws r) = '']'' then Some (JArr [], drop 1 (skip_ws r))
            else map_option (\<lambda>(m, q). (JArr m, q)) (parse_elems n (Suc d) (skip_ws r)))
         else scan_scalar s)"
| "parse_members 0 d s = None"
| "parse_members (Suc n) d s =
     (case member_key s of
        None \<Rightarrow> None
      | Some (k, s1) \<Rightarrow>
        (case parse_value n d s1 of
           None \<Rightarrow> None
         | Some (v, s2) \<Rightarrow>
           let m = (k, take (length s1 - length s2) s1, v)
           in (case skip_ws s2 of
                 [] \<Rightarrow> None
               | c # r \<Rightarrow>
                   if c = CHR ''}'' then Some ([m], r)
                   else if c = CHR '','' then
                     map_option (\<lambda>(ms, q). (m # ms, q)) (parse_members n d (skip_ws r))
                   else None)))"
| "parse_elems 0 d s = None"
| "parse_elems (Suc n) d s =
     (case parse_value n d s of
        None \<Rightarrow> None
      | Some (v, s2) \<Rightarrow>
        (case skip_ws s2 of
           [] \<Rightarrow> None
         | c # r \<Rightarrow>
             if c = CHR '']'' then Some ([v], r)
             else if c = CHR '','' then
               map_option (\<lambda>(vs, q). (v # vs, q)) (parse_elems n d (skip_ws r))
             else None))"

definition parse_json :: "bytes \<Rightarrow> json option" where
  "parse_json s = (case parse_value (2 * length s + 1) 0 (skip_ws s) of
       Some (v, r) \<Rightarrow> if skip_ws r = [] then Some v else None
     | None \<Rightarrow> None)"

subsection \<open>The fuel is enough\<close>

lemma length_skip_ws: "length (skip_ws s) \<le> length s"
  by (simp add: skip_ws_def length_dropWhile_le)

lemma skip_ws_lt: "length s < n \<Longrightarrow> length (skip_ws s) < n"
  using length_skip_ws [of s] by simp

lemma scan_string_lt: "scan_string s = Some (t, q) \<Longrightarrow> length q < length s"
proof (induction s arbitrary: t q rule: scan_string.induct)
  case (2 c r)
  then show ?case by (force split: if_splits list.splits dest: less_trans)
qed simp

lemma scan_digits1_lt: "scan_digits1 s = Some (d, q) \<Longrightarrow> length q < length s"
proof -
  assume a: "scan_digits1 s = Some (d, q)"
  then have "takeWhile is_digit s \<noteq> []" and q: "q = dropWhile is_digit s"
    by (auto simp: scan_digits1_def Let_def split: if_splits)
  moreover have "length s = length (takeWhile is_digit s) + length (dropWhile is_digit s)"
    by (metis length_append takeWhile_dropWhile_id)
  ultimately show ?thesis by simp
qed

lemma scan_int_lt: "scan_int s = Some (d, q) \<Longrightarrow> length q < length s"
  by (auto simp: scan_int_def split: list.splits if_splits dest: scan_digits1_lt)

lemma scan_frac_le: "scan_frac s = Some (d, q) \<Longrightarrow> length q \<le> length s"
  by (auto simp: scan_frac_def split: list.splits if_splits dest!: scan_digits1_lt)

lemma scan_exp_le: "scan_exp s = Some (d, q) \<Longrightarrow> length q \<le> length s"
  by (auto simp: scan_exp_def split: list.splits if_splits dest!: scan_digits1_lt)

lemma scan_number_lt: "scan_number s = Some (t, q) \<Longrightarrow> length q < length s"
  by (auto simp: scan_number_def Let_def split: list.splits if_splits prod.splits bind_splits
        dest!: scan_int_lt scan_frac_le scan_exp_le)

lemma scan_scalar_lt: "scan_scalar s = Some (v, q) \<Longrightarrow> length q < length s"
  by (auto simp: scan_scalar_def scan_lit_def split: list.splits if_splits
        dest: scan_string_lt scan_number_lt)

lemma member_key_lt: "member_key s = Some (k, q) \<Longrightarrow> length q < length s"
proof -
  assume "member_key s = Some (k, q)"
  then obtain c r s1 s2 where s: "s = c # r" and k: "scan_string r = Some (k, s1)"
    and c: "skip (CHR '':'') (skip_ws s1) = Some s2" and q: "q = skip_ws s2"
    by (auto simp: member_key_def split: list.splits if_splits bind_splits)
  have "length s2 < length s1" using c length_skip_ws [of s1]
    by (auto simp: skip_def split: list.splits if_splits)
  then show ?thesis using scan_string_lt [OF k] length_skip_ws [of s2] s q by simp
qed

lemma parse_lt:
  "parse_value n d s = Some (v, q) \<Longrightarrow> length q < length s"
  "parse_members n d s = Some (ms, q) \<Longrightarrow> length q < length s"
  "parse_elems n d s = Some (vs, q) \<Longrightarrow> length q < length s"
proof (induction n arbitrary: d s v q ms vs)
  case (Suc n)
  {
    case 1
    then show ?case
      by (auto split: list.splits if_splits simp: less_Suc_eq_le
          dest!: Suc.IH(2) Suc.IH(3) scan_scalar_lt
          intro: le_trans [OF diff_le_self length_skip_ws] less_imp_le order_less_le_trans [OF _ length_skip_ws])
  next
    case 2
    then obtain k s1 v' s2 c r where m: "member_key s = Some (k, s1)"
      and v: "parse_value n d s1 = Some (v', s2)" and s2: "skip_ws s2 = c # r"
      by (auto simp: Let_def split: option.splits list.splits)
    have "length r < length s"
      using member_key_lt [OF m] Suc.IH(1) [OF v] length_skip_ws [of s2] s2 by simp
    then show ?case using 2 m v s2
      by (auto simp: Let_def split: if_splits dest!: Suc.IH(2) intro: less_trans skip_ws_lt)
  next
    case 3
    then obtain v' s2 c r where v: "parse_value n d s = Some (v', s2)" and s2: "skip_ws s2 = c # r"
      by (auto simp: Let_def split: option.splits list.splits)
    have "length r < length s"
      using Suc.IH(1) [OF v] length_skip_ws [of s2] s2 by simp
    then show ?case using 3 v s2
      by (auto split: if_splits dest!: Suc.IH(3) intro: less_trans skip_ws_lt)
  }
qed simp_all

lemma parse_more_fuel:
  "2 * length s + 1 \<le> n \<Longrightarrow> parse_value (Suc n) d s = parse_value n d s"
  "2 * length s + 2 \<le> n \<Longrightarrow> parse_members (Suc n) d s = parse_members n d s"
  "2 * length s + 2 \<le> n \<Longrightarrow> parse_elems (Suc n) d s = parse_elems n d s"
proof (induction n arbitrary: d s)
  case (Suc n)
  {
    case 1
    have "2 * length (skip_ws r) + 2 \<le> n" if "s = c # r" for c r
      using 1 that length_skip_ws [of r] by simp
    then show ?case
      by (simp only: parse_value.simps) (auto simp del: parse_members.simps parse_elems.simps
          simp: Suc.IH split: list.split)
  next
    case 2
    have v: "parse_value (Suc n) d s1 = parse_value n d s1" if "member_key s = Some (k, s1)" for k s1
      using 2 member_key_lt [OF that] by (intro Suc.IH(1)) simp
    have m: "parse_members (Suc n) d (skip_ws r) = parse_members n d (skip_ws r)"
      if "member_key s = Some (k, s1)" "parse_value n d s1 = Some (w, s2)" "skip_ws s2 = c # r" for k s1 w s2 c r
      using 2 member_key_lt [OF that(1)] parse_lt(1) [OF that(2)] length_skip_ws [of s2] that(3)
        length_skip_ws [of r] by (intro Suc.IH(2)) simp
    show ?case
      by (subst (1 2) parse_members.simps) (auto simp: v m Let_def
          simp del: parse_value.simps parse_members.simps split: option.split list.split)
  next
    case 3
    have v: "parse_value (Suc n) d s = parse_value n d s"
      using 3 by (intro Suc.IH(1)) simp
    have m: "parse_elems (Suc n) d (skip_ws r) = parse_elems n d (skip_ws r)"
      if "parse_value n d s = Some (w, s2)" "skip_ws s2 = c # r" for w s2 c r
      using 3 parse_lt(1) [OF that(1)] length_skip_ws [of s2] that(2) length_skip_ws [of r]
      by (intro Suc.IH(3)) simp
    show ?case
      by (subst (1 2) parse_elems.simps) (auto simp: v m Let_def
          simp del: parse_value.simps parse_elems.simps split: option.split list.split)
  }
qed simp_all

lemma parse_fuel:
  "2 * length s + 1 \<le> n \<Longrightarrow> parse_value (n + k) d s = parse_value n d s"
  by (induction k) (simp_all add: parse_more_fuel(1) del: parse_value.simps)

text \<open>The parse does not depend on the fuel: any larger amount gives the same answer.\<close>

lemma parse_json_fuel:
  "parse_json s = (case parse_value (2 * length s + 1 + k) 0 (skip_ws s) of
       Some (v, r) \<Rightarrow> if skip_ws r = [] then Some v else None
     | None \<Rightarrow> None)"
proof -
  have "2 * length (skip_ws s) + 1 \<le> 2 * length s + 1" using length_skip_ws [of s] by simp
  then show ?thesis unfolding parse_json_def by (simp only: parse_fuel)
qed

section \<open>Strings and numbers of a field's type\<close>

definition hex_val :: "char \<Rightarrow> int" where
  "hex_val c = (if is_digit c then digit_val c
                else if 97 \<le> byte_val c then byte_val c - 87 else byte_val c - 55)"

definition hex4 :: "bytes \<Rightarrow> int" where
  "hex4 s = foldl (\<lambda>n c. 16 * n + hex_val c) 0 (take 4 s)"

definition byte_of :: "int \<Rightarrow> char" where "byte_of n = char_of (nat n)"

definition utf8_encode :: "int \<Rightarrow> bytes" where
  "utf8_encode n =
     (if n < 128 then [byte_of n]
      else if n < 2048 then [byte_of (192 + n div 64), byte_of (128 + n mod 64)]
      else if n < 65536 then
        [byte_of (224 + n div 4096), byte_of (128 + n div 64 mod 64), byte_of (128 + n mod 64)]
      else [byte_of (240 + n div 262144), byte_of (128 + n div 4096 mod 64),
            byte_of (128 + n div 64 mod 64), byte_of (128 + n mod 64)])"

definition replacement :: bytes where "replacement = utf8_encode 65533"

text \<open>The length of the well-formed multi-byte UTF-8 sequence at the front, 0 if there is none.\<close>

definition utf8_len :: "bytes \<Rightarrow> nat" where
  "utf8_len s =
     (let b = (\<lambda>i. if i < length s then byte_val (s ! i) else 0);
          cont = (\<lambda>i. 128 \<le> b i \<and> b i \<le> 191); c = b 0 in
      if 194 \<le> c \<and> c \<le> 223 \<and> cont 1 then 2
      else if 224 \<le> c \<and> c \<le> 239 \<and> cont 1 \<and> cont 2 \<and> (c = 224 \<longrightarrow> 160 \<le> b 1) \<and> (c = 237 \<longrightarrow> b 1 \<le> 159)
      then 3
      else if 240 \<le> c \<and> c \<le> 244 \<and> cont 1 \<and> cont 2 \<and> cont 3 \<and> (c = 240 \<longrightarrow> 144 \<le> b 1)
        \<and> (c = 244 \<longrightarrow> b 1 \<le> 143) then 4
      else 0)"

definition escape_val :: "char \<Rightarrow> char" where
  "escape_val e = (if e = CHR ''b'' then CHR 0x08 else if e = CHR ''f'' then CHR 0x0C
     else if e = CHR ''n'' then CHR 0x0A else if e = CHR ''r'' then CHR 0x0D
     else if e = CHR ''t'' then CHR 0x09 else e)"

function unquote :: "bytes \<Rightarrow> bytes" where
  "unquote [] = []"
| "unquote (c # r) =
     (if c = backslash then
        (case r of
           [] \<Rightarrow> []
         | e # r' \<Rightarrow>
             if e = CHR ''u'' then
               (let u = hex4 r'; q = drop 4 r' in
                if 55296 \<le> u \<and> u \<le> 57343 then
                  (let low = hex4 (drop 2 q) in
                   if u \<le> 56319 \<and> take 2 q = [backslash, CHR ''u''] \<and> 56320 \<le> low \<and> low \<le> 57343
                   then utf8_encode ((u - 55296) * 1024 + (low - 56320) + 65536) @ unquote (drop 6 q)
                   else replacement @ unquote q)
                else utf8_encode u @ unquote q)
             else escape_val e # unquote r')
      else if byte_val c < 128 then c # unquote r
      else if 2 \<le> utf8_len (c # r)
      then take (utf8_len (c # r)) (c # r) @ unquote (drop (utf8_len (c # r) - 1) r)
      else replacement @ unquote r)"
  by pat_completeness auto
termination by (relation "measure length") auto

text \<open>\<open>strconv.ParseUint\<close>, \<open>ParseInt\<close> and \<open>ParseFloat\<close> on the text of a JSON number.\<close>

definition parse_uint64 :: "bytes \<Rightarrow> u64 option" where
  "parse_uint64 s = (if s \<noteq> [] \<and> list_all is_digit s \<and> digits_val s < 2 ^ 64
                     then Some (word_of_int (digits_val s)) else None)"

definition parse_int64 :: "bytes \<Rightarrow> goint option" where
  "parse_int64 s =
     (let neg = (take 1 s = ''-''); ds = (if neg then tl s else s);
          v = (if neg then - digits_val ds else digits_val ds)
      in if ds \<noteq> [] \<and> list_all is_digit ds \<and> min_int64 \<le> v \<and> v \<le> max_int64 then Some v else None)"

definition dec_value :: "bytes \<Rightarrow> rat" where
  "dec_value s =
     (let neg = (take 1 s = ''-''); t = (if neg then tl s else s);
          ip = takeWhile is_digit t; r = dropWhile is_digit t;
          (fp, r) = (if take 1 r = ''.'' then (takeWhile is_digit (tl r), dropWhile is_digit (tl r))
                     else ([], r));
          ex = (case r of [] \<Rightarrow> 0
                | _ # q \<Rightarrow> if take 1 q = ''-'' then - digits_val (tl q)
                          else if take 1 q = ''+'' then digits_val (tl q) else digits_val q);
          v = of_int (digits_val (ip @ fp)) * 10 powi (ex - int (length fp))
      in if neg then - v else v)"

definition parse_float64 :: "bytes \<Rightarrow> float64 option" where
  "parse_float64 s = (case round64 (dec_value s) of Fin q \<Rightarrow> Some (Fin q) | _ \<Rightarrow> None)"

section \<open>Decoding into a struct\<close>

text \<open>
  A field decoder gets the text and the tree of the member's value and the field's old value;
  None is a type error. JSON \<open>null\<close> leaves every type of field but \<open>RawMessage\<close> alone.
\<close>

type_synonym 'r field_decoder = "bytes \<Rightarrow> json \<Rightarrow> 'r \<Rightarrow> 'r option"

definition dec_field :: "(json \<Rightarrow> 'a option) \<Rightarrow> ('a \<Rightarrow> 'r \<Rightarrow> 'r) \<Rightarrow> 'r field_decoder" where
  "dec_field conv store raw j r =
     (if j = JNull then Some r else map_option (\<lambda>v. store v r) (conv j))"

definition as_string :: "json \<Rightarrow> bytes option" where
  "as_string j = (case j of JStr s \<Rightarrow> Some (unquote s) | _ \<Rightarrow> None)"

definition as_bool :: "json \<Rightarrow> bool option" where
  "as_bool j = (case j of JBool b \<Rightarrow> Some b | _ \<Rightarrow> None)"

definition as_uint64 :: "json \<Rightarrow> u64 option" where
  "as_uint64 j = (case j of JNum s \<Rightarrow> parse_uint64 s | _ \<Rightarrow> None)"

definition as_int :: "json \<Rightarrow> goint option" where
  "as_int j = (case j of JNum s \<Rightarrow> parse_int64 s | _ \<Rightarrow> None)"

definition as_float64 :: "json \<Rightarrow> float64 option" where
  "as_float64 j = (case j of JNum s \<Rightarrow> parse_float64 s | _ \<Rightarrow> None)"

text \<open>\<open>time.Time\<close> reads the text between the quotes as it stands.\<close>

definition as_time :: "json \<Rightarrow> time option" where
  "as_time j = (case j of JStr s \<Rightarrow> parse_rfc3339 s | _ \<Rightarrow> None)"

definition dec_raw :: "(bytes \<Rightarrow> 'r \<Rightarrow> 'r) \<Rightarrow> 'r field_decoder" where
  "dec_raw store raw j r = Some (store raw r)"

text \<open>
  A member is matched to the field of the same name or, failing that, of the same name up to
  case; folding sends a letter to its capital, the long s to S and the Kelvin sign to K.
\<close>

fun fold_name :: "bytes \<Rightarrow> bytes" where
  "fold_name [] = []"
| "fold_name (c # r) =
     (if c = CHR 0xC5 \<and> take 1 r = [CHR 0xBF] then CHR ''S'' # fold_name (drop 1 r)
      else if c = CHR 0xE2 \<and> take 2 r = [CHR 0x84, CHR 0xAA] then CHR ''K'' # fold_name (drop 2 r)
      else (if 97 \<le> byte_val c \<and> byte_val c \<le> 122 then byte_of (byte_val c - 32) else c) # fold_name r)"

definition find_field :: "(bytes \<times> 'r field_decoder) list \<Rightarrow> bytes \<Rightarrow> 'r field_decoder option" where
  "find_field fs k = (case map_of fs k of
       Some f \<Rightarrow> Some f
     | None \<Rightarrow> map_of (map (\<lambda>(n, f). (fold_name n, f)) fs) (fold_name k))"

fun decode_members :: "(bytes \<times> 'r field_decoder) list \<Rightarrow> (bytes \<times> bytes \<times> json) list \<Rightarrow> 'r \<Rightarrow> 'r option" where
  "decode_members fs [] r = Some r"
| "decode_members fs ((k, raw, j) # ms) r =
     (case find_field fs (unquote k) of
        None \<Rightarrow> decode_members fs ms r
      | Some f \<Rightarrow> (case f raw j r of None \<Rightarrow> None | Some r' \<Rightarrow> decode_members fs ms r'))"

definition decode_struct :: "(bytes \<times> 'r field_decoder) list \<Rightarrow> json \<Rightarrow> 'r \<Rightarrow> 'r option" where
  "decode_struct fs j r = (case j of
       JObj ms \<Rightarrow> decode_members fs ms r
     | JNull \<Rightarrow> Some r
     | _ \<Rightarrow> None)"

text \<open>\<open>json.Unmarshal(s, &r)\<close>: None is any error.\<close>

definition unmarshal :: "(bytes \<times> 'r field_decoder) list \<Rightarrow> 'r \<Rightarrow> bytes \<Rightarrow> 'r option" where
  "unmarshal fs r s = (case parse_json s of None \<Rightarrow> None | Some j \<Rightarrow> decode_struct fs j r)"

section \<open>Invariants of decoding\<close>

text \<open>What holds of the zero value and survives every field decoder holds of the result.\<close>

lemma decode_members_invariant:
  assumes "\<And>n f raw j r r'. (n, f) \<in> set fs \<Longrightarrow> P r \<Longrightarrow> f raw j r = Some r' \<Longrightarrow> P r'"
    and "P r" and "decode_members fs ms r = Some r'"
  shows "P r'"
  using assms(2,3)
proof (induction ms arbitrary: r)
  case (Cons m ms)
  obtain k raw j where m: "m = (k, raw, j)" by (cases m)
  show ?case
  proof (cases "find_field fs (unquote k)")
    case None
    then show ?thesis using Cons m by simp
  next
    case (Some f)
    then obtain n where n: "(n, f) \<in> set fs"
      by (auto simp: find_field_def split: option.splits dest!: map_of_SomeD)
    obtain r1 where r1: "f raw j r = Some r1" "decode_members fs ms r1 = Some r'"
      using Cons.prems(2) m Some by (auto split: option.splits)
    then show ?thesis using Cons.IH assms(1) [OF n Cons.prems(1) r1(1)] by blast
  qed
qed simp

lemma unmarshal_invariant:
  assumes "unmarshal fs r s = Some r'" and "P r"
    and "\<And>n f raw j r r'. (n, f) \<in> set fs \<Longrightarrow> P r \<Longrightarrow> f raw j r = Some r' \<Longrightarrow> P r'"
  shows "P r'"
proof -
  obtain j where j: "decode_struct fs j r = Some r'"
    using assms(1) by (auto simp: unmarshal_def split: option.splits)
  show ?thesis
  proof (cases j)
    case (JObj ms)
    then have "decode_members fs ms r = Some r'" using j by (simp add: decode_struct_def)
    show ?thesis
      by (rule decode_members_invariant [where P = P, OF _ assms(2) \<open>decode_members fs ms r = Some r'\<close>])
        (rule assms(3))
  qed (use j assms(2) in \<open>simp_all add: decode_struct_def\<close>)
qed

lemma as_float64_finite: "as_float64 j = Some v \<Longrightarrow> is_finite v"
  by (auto simp: as_float64_def parse_float64_def is_finite_def split: json.splits float64.splits)

lemma as_int_range: "as_int j = Some v \<Longrightarrow> min_int64 \<le> v \<and> v \<le> max_int64"
  by (auto simp: as_int_def parse_int64_def Let_def split: json.splits if_splits)

lemma dec_float_invariant:
  assumes "dec_field as_float64 st raw j r = Some r'" and "P r" and "\<And>q. P (st (Fin q) r)"
  shows "P r'"
  using assms by (auto simp: dec_field_def split: if_splits elim: is_finiteE dest!: as_float64_finite)

lemma dec_other_invariant:
  assumes "dec_field conv st raw j r = Some r'" and "P r" and "\<And>v. P (st v r)"
  shows "P r'"
  using assms by (auto simp: dec_field_def split: if_splits)

lemmas dec_invariants = dec_float_invariant dec_other_invariant [where conv = as_int]
  dec_other_invariant [where conv = as_string] dec_other_invariant [where conv = as_bool]

end
