(* ===== verification/Protocol.thy ===== *)
theory Protocol
  imports Go_Json
begin

text \<open>
  internal/protocol: the telemetry message and the payload structs (types.go), the validation
  rules (validation.go) and the parsers (parser.go). A struct's JSON tags become the list of its
  field decoders. A Go \<open>error\<close> result is the left side of a sum; a \<open>ValidationError\<close>
  stays apart from every other error, because the workers branch on it.
\<close>

section \<open>Messages and payloads (types.go)\<close>

record TelemetryMessage =
  SensorID :: bytes
  SensorType :: bytes
  Sequence :: u64
  Timestamp :: time
  Data :: bytes

definition zero_TelemetryMessage :: TelemetryMessage where
  "zero_TelemetryMessage =
     \<lparr>SensorID = [], SensorType = [], Sequence = 0, Timestamp = 0, Data = []\<rparr>"

definition TelemetryMessage_fields :: "(bytes \<times> TelemetryMessage field_decoder) list" where
  "TelemetryMessage_fields =
    [(''sensor_id'', dec_field as_string (\<lambda>v m. m\<lparr>SensorID := v\<rparr>)),
     (''sensor_type'', dec_field as_string (\<lambda>v m. m\<lparr>SensorType := v\<rparr>)),
     (''sequence'', dec_field as_uint64 (\<lambda>v m. m\<lparr>Sequence := v\<rparr>)),
     (''timestamp'', dec_field as_time (\<lambda>v m. m\<lparr>Timestamp := v\<rparr>)),
     (''data'', dec_raw (\<lambda>v m. m\<lparr>Data := v\<rparr>))]"

record GPSData =
  gps_Latitude :: float64
  gps_Longitude :: float64
  gps_Altitude :: float64
  gps_Speed :: float64
  gps_Heading :: float64

definition zero_GPSData :: GPSData where
  "zero_GPSData = \<lparr>gps_Latitude = Fin 0, gps_Longitude = Fin 0, gps_Altitude = Fin 0, gps_Speed = Fin 0, gps_Heading = Fin 0\<rparr>"

definition GPSData_fields :: "(bytes \<times> GPSData field_decoder) list" where
  "GPSData_fields =
    [(''latitude'', dec_field as_float64 (\<lambda>v d. d\<lparr>gps_Latitude := v\<rparr>)),
     (''longitude'', dec_field as_float64 (\<lambda>v d. d\<lparr>gps_Longitude := v\<rparr>)),
     (''altitude'', dec_field as_float64 (\<lambda>v d. d\<lparr>gps_Altitude := v\<rparr>)),
     (''speed'', dec_field as_float64 (\<lambda>v d. d\<lparr>gps_Speed := v\<rparr>)),
     (''heading'', dec_field as_float64 (\<lambda>v d. d\<lparr>gps_Heading := v\<rparr>))]"

record DroneData =
  drone_Latitude :: float64
  drone_Longitude :: float64
  drone_Altitude :: float64
  drone_Battery :: goint
  drone_Signal :: goint

definition zero_DroneData :: DroneData where
  "zero_DroneData = \<lparr>drone_Latitude = Fin 0, drone_Longitude = Fin 0, drone_Altitude = Fin 0, drone_Battery = 0, drone_Signal = 0\<rparr>"

definition DroneData_fields :: "(bytes \<times> DroneData field_decoder) list" where
  "DroneData_fields =
    [(''latitude'', dec_field as_float64 (\<lambda>v d. d\<lparr>drone_Latitude := v\<rparr>)),
     (''longitude'', dec_field as_float64 (\<lambda>v d. d\<lparr>drone_Longitude := v\<rparr>)),
     (''altitude'', dec_field as_float64 (\<lambda>v d. d\<lparr>drone_Altitude := v\<rparr>)),
     (''battery'', dec_field as_int (\<lambda>v d. d\<lparr>drone_Battery := v\<rparr>)),
     (''signal'', dec_field as_int (\<lambda>v d. d\<lparr>drone_Signal := v\<rparr>))]"

record RadarData =
  radar_TargetCount :: goint
  radar_MaxRange :: float64
  radar_Operational :: bool

definition zero_RadarData :: RadarData where
  "zero_RadarData = \<lparr>radar_TargetCount = 0, radar_MaxRange = Fin 0, radar_Operational = False\<rparr>"

definition RadarData_fields :: "(bytes \<times> RadarData field_decoder) list" where
  "RadarData_fields =
    [(''target_count'', dec_field as_int (\<lambda>v d. d\<lparr>radar_TargetCount := v\<rparr>)),
     (''max_range'', dec_field as_float64 (\<lambda>v d. d\<lparr>radar_MaxRange := v\<rparr>)),
     (''operational'', dec_field as_bool (\<lambda>v d. d\<lparr>radar_Operational := v\<rparr>))]"

record TemperatureSensorData =
  temp_Temperature :: float64
  temp_Humidity :: float64
  temp_Unit :: bytes

definition zero_TemperatureSensorData :: TemperatureSensorData where
  "zero_TemperatureSensorData = \<lparr>temp_Temperature = Fin 0, temp_Humidity = Fin 0, temp_Unit = []\<rparr>"

definition TemperatureSensorData_fields :: "(bytes \<times> TemperatureSensorData field_decoder) list" where
  "TemperatureSensorData_fields =
    [(''temperature'', dec_field as_float64 (\<lambda>v d. d\<lparr>temp_Temperature := v\<rparr>)),
     (''humidity'', dec_field as_float64 (\<lambda>v d. d\<lparr>temp_Humidity := v\<rparr>)),
     (''unit'', dec_field as_string (\<lambda>v d. d\<lparr>temp_Unit := v\<rparr>))]"

record PressureSensorData =
  press_Pressure :: float64
  press_Unit :: bytes

definition zero_PressureSensorData :: PressureSensorData where
  "zero_PressureSensorData = \<lparr>press_Pressure = Fin 0, press_Unit = []\<rparr>"

definition PressureSensorData_fields :: "(bytes \<times> PressureSensorData field_decoder) list" where
  "PressureSensorData_fields =
    [(''pressure'', dec_field as_float64 (\<lambda>v d. d\<lparr>press_Pressure := v\<rparr>)),
     (''unit'', dec_field as_string (\<lambda>v d. d\<lparr>press_Unit := v\<rparr>))]"

record VibrationSensorData =
  vib_Frequency :: float64
  vib_Amplitude :: float64
  vib_Unit :: bytes

definition zero_VibrationSensorData :: VibrationSensorData where
  "zero_VibrationSensorData = \<lparr>vib_Frequency = Fin 0, vib_Amplitude = Fin 0, vib_Unit = []\<rparr>"

definition VibrationSensorData_fields :: "(bytes \<times> VibrationSensorData field_decoder) list" where
  "VibrationSensorData_fields =
    [(''frequency'', dec_field as_float64 (\<lambda>v d. d\<lparr>vib_Frequency := v\<rparr>)),
     (''amplitude'', dec_field as_float64 (\<lambda>v d. d\<lparr>vib_Amplitude := v\<rparr>)),
     (''unit'', dec_field as_string (\<lambda>v d. d\<lparr>vib_Unit := v\<rparr>))]"

record VehicleData =
  veh_Latitude :: float64
  veh_Longitude :: float64
  veh_Speed :: float64
  veh_Fuel :: float64
  veh_Mileage :: float64

definition zero_VehicleData :: VehicleData where
  "zero_VehicleData = \<lparr>veh_Latitude = Fin 0, veh_Longitude = Fin 0, veh_Speed = Fin 0, veh_Fuel = Fin 0, veh_Mileage = Fin 0\<rparr>"

definition VehicleData_fields :: "(bytes \<times> VehicleData field_decoder) list" where
  "VehicleData_fields =
    [(''latitude'', dec_field as_float64 (\<lambda>v d. d\<lparr>veh_Latitude := v\<rparr>)),
     (''longitude'', dec_field as_float64 (\<lambda>v d. d\<lparr>veh_Longitude := v\<rparr>)),
     (''speed'', dec_field as_float64 (\<lambda>v d. d\<lparr>veh_Speed := v\<rparr>)),
     (''fuel'', dec_field as_float64 (\<lambda>v d. d\<lparr>veh_Fuel := v\<rparr>)),
     (''mileage'', dec_field as_float64 (\<lambda>v d. d\<lparr>veh_Mileage := v\<rparr>))]"

record AssetTrackerData =
  asset_Latitude :: float64
  asset_Longitude :: float64
  asset_Temperature :: float64
  asset_Humidity :: float64

definition zero_AssetTrackerData :: AssetTrackerData where
  "zero_AssetTrackerData = \<lparr>asset_Latitude = Fin 0, asset_Longitude = Fin 0, asset_Temperature = Fin 0, asset_Humidity = Fin 0\<rparr>"

definition AssetTrackerData_fields :: "(bytes \<times> AssetTrackerData field_decoder) list" where
  "AssetTrackerData_fields =
    [(''latitude'', dec_field as_float64 (\<lambda>v d. d\<lparr>asset_Latitude := v\<rparr>)),
     (''longitude'', dec_field as_float64 (\<lambda>v d. d\<lparr>asset_Longitude := v\<rparr>)),
     (''temperature'', dec_field as_float64 (\<lambda>v d. d\<lparr>asset_Temperature := v\<rparr>)),
     (''humidity'', dec_field as_float64 (\<lambda>v d. d\<lparr>asset_Humidity := v\<rparr>))]"

record PowerGridData =
  grid_Voltage :: float64
  grid_Current :: float64
  grid_Frequency :: float64
  grid_PowerFactor :: float64

definition zero_PowerGridData :: PowerGridData where
  "zero_PowerGridData = \<lparr>grid_Voltage = Fin 0, grid_Current = Fin 0, grid_Frequency = Fin 0, grid_PowerFactor = Fin 0\<rparr>"

definition PowerGridData_fields :: "(bytes \<times> PowerGridData field_decoder) list" where
  "PowerGridData_fields =
    [(''voltage'', dec_field as_float64 (\<lambda>v d. d\<lparr>grid_Voltage := v\<rparr>)),
     (''current'', dec_field as_float64 (\<lambda>v d. d\<lparr>grid_Current := v\<rparr>)),
     (''frequency'', dec_field as_float64 (\<lambda>v d. d\<lparr>grid_Frequency := v\<rparr>)),
     (''power_factor'', dec_field as_float64 (\<lambda>v d. d\<lparr>grid_PowerFactor := v\<rparr>))]"

record WeatherStationData =
  wx_Temperature :: float64
  wx_Humidity :: float64
  wx_Pressure :: float64
  wx_WindSpeed :: float64
  wx_Precipitation :: float64

definition zero_WeatherStationData :: WeatherStationData where
  "zero_WeatherStationData = \<lparr>wx_Temperature = Fin 0, wx_Humidity = Fin 0, wx_Pressure = Fin 0, wx_WindSpeed = Fin 0, wx_Precipitation = Fin 0\<rparr>"

definition WeatherStationData_fields :: "(bytes \<times> WeatherStationData field_decoder) list" where
  "WeatherStationData_fields =
    [(''temperature'', dec_field as_float64 (\<lambda>v d. d\<lparr>wx_Temperature := v\<rparr>)),
     (''humidity'', dec_field as_float64 (\<lambda>v d. d\<lparr>wx_Humidity := v\<rparr>)),
     (''pressure'', dec_field as_float64 (\<lambda>v d. d\<lparr>wx_Pressure := v\<rparr>)),
     (''wind_speed'', dec_field as_float64 (\<lambda>v d. d\<lparr>wx_WindSpeed := v\<rparr>)),
     (''precipitation'', dec_field as_float64 (\<lambda>v d. d\<lparr>wx_Precipitation := v\<rparr>))]"

record PatientVitalsData =
  pv_HeartRate :: goint
  pv_BloodPressure :: bytes
  pv_Temperature :: float64
  pv_SpO2 :: goint

definition zero_PatientVitalsData :: PatientVitalsData where
  "zero_PatientVitalsData = \<lparr>pv_HeartRate = 0, pv_BloodPressure = [], pv_Temperature = Fin 0, pv_SpO2 = 0\<rparr>"

definition PatientVitalsData_fields :: "(bytes \<times> PatientVitalsData field_decoder) list" where
  "PatientVitalsData_fields =
    [(''heart_rate'', dec_field as_int (\<lambda>v d. d\<lparr>pv_HeartRate := v\<rparr>)),
     (''blood_pressure'', dec_field as_string (\<lambda>v d. d\<lparr>pv_BloodPressure := v\<rparr>)),
     (''temperature'', dec_field as_float64 (\<lambda>v d. d\<lparr>pv_Temperature := v\<rparr>)),
     (''spo2'', dec_field as_int (\<lambda>v d. d\<lparr>pv_SpO2 := v\<rparr>))]"

record MedicalDeviceData =
  med_DeviceID :: bytes
  med_Status :: bytes
  med_Battery :: goint
  med_LastCal :: bytes

definition zero_MedicalDeviceData :: MedicalDeviceData where
  "zero_MedicalDeviceData = \<lparr>med_DeviceID = [], med_Status = [], med_Battery = 0, med_LastCal = []\<rparr>"

definition MedicalDeviceData_fields :: "(bytes \<times> MedicalDeviceData field_decoder) list" where
  "MedicalDeviceData_fields =
    [(''device_id'', dec_field as_string (\<lambda>v d. d\<lparr>med_DeviceID := v\<rparr>)),
     (''status'', dec_field as_string (\<lambda>v d. d\<lparr>med_Status := v\<rparr>)),
     (''battery'', dec_field as_int (\<lambda>v d. d\<lparr>med_Battery := v\<rparr>)),
     (''last_calibration'', dec_field as_string (\<lambda>v d. d\<lparr>med_LastCal := v\<rparr>))]"

section \<open>Validation (validation.go)\<close>

record ValidationError =
  Field :: bytes
  Reason :: bytes

definition verr :: "bytes \<Rightarrow> bytes \<Rightarrow> ValidationError" where
  "verr f r = \<lparr>Field = f, Reason = r\<rparr>"

text \<open>\<open>fmt.Sprintf("validation error in %s: %s", e.Field, e.Reason)\<close>\<close>

definition ValidationError_Error :: "ValidationError \<Rightarrow> bytes" where
  "ValidationError_Error e = ''validation error in '' @ Field e @ '': '' @ Reason e"

definition ValidateTelemetryMessage :: "time \<Rightarrow> TelemetryMessage \<Rightarrow> ValidationError option" where
  "ValidateTelemetryMessage now msg =
     (if SensorID msg = [] then Some (verr ''sensor_id'' ''required'')
      else if SensorType msg = [] then Some (verr ''sensor_type'' ''required'')
      else if IsZero (Timestamp msg) then Some (verr ''timestamp'' ''required'')
      else if After (Timestamp msg) (Add now (5 * minute))
      then Some (verr ''timestamp'' ''cannot be in the future'')
      else if length (Data msg) = 0 then Some (verr ''data'' ''required'')
      else None)"

definition ValidateGPSData :: "GPSData \<Rightarrow> ValidationError option" where
  "ValidateGPSData data =
     (if flt (gps_Latitude data) (Fin (- 90)) \<or> fgt (gps_Latitude data) (Fin 90)
      then Some (verr ''latitude'' ''must be between -90 and 90'')
      else if flt (gps_Longitude data) (Fin (- 180)) \<or> fgt (gps_Longitude data) (Fin 180)
      then Some (verr ''longitude'' ''must be between -180 and 180'')
      else if flt (gps_Altitude data) (Fin 0) then Some (verr ''altitude'' ''must be non-negative'')
      else if flt (gps_Speed data) (Fin 0) then Some (verr ''speed'' ''must be non-negative'')
      else None)"

definition ValidateDroneData :: "DroneData \<Rightarrow> ValidationError option" where
  "ValidateDroneData data =
     (if flt (drone_Latitude data) (Fin (- 90)) \<or> fgt (drone_Latitude data) (Fin 90)
      then Some (verr ''latitude'' ''must be between -90 and 90'')
      else if flt (drone_Longitude data) (Fin (- 180)) \<or> fgt (drone_Longitude data) (Fin 180)
      then Some (verr ''longitude'' ''must be between -180 and 180'')
      else if flt (drone_Altitude data) (Fin 0) then Some (verr ''altitude'' ''must be non-negative'')
      else if drone_Battery data < 0 \<or> 100 < drone_Battery data
      then Some (verr ''battery'' ''must be between 0 and 100'')
      else if drone_Signal data < 0 \<or> 100 < drone_Signal data
      then Some (verr ''signal'' ''must be between 0 and 100'')
      else None)"

definition ValidateRadarData :: "RadarData \<Rightarrow> ValidationError option" where
  "ValidateRadarData data =
     (if radar_TargetCount data < 0 then Some (verr ''target_count'' ''must be non-negative'')
      else if fle (radar_MaxRange data) (Fin 0) then Some (verr ''max_range'' ''must be positive'')
      else None)"

definition ValidateTemperatureSensorData :: "TemperatureSensorData \<Rightarrow> ValidationError option" where
  "ValidateTemperatureSensorData data =
     (if flt (temp_Humidity data) (Fin 0) \<or> fgt (temp_Humidity data) (Fin 100)
      then Some (verr ''humidity'' ''must be between 0 and 100'')
      else if temp_Unit data = [] then Some (verr ''unit'' ''required'')
      else None)"

definition ValidateBatteryPercentage :: "goint \<Rightarrow> ValidationError option" where
  "ValidateBatteryPercentage battery =
     (if battery < 0 \<or> 100 < battery then Some (verr ''battery'' ''must be between 0 and 100'')
      else None)"

definition ValidateVehicleData :: "VehicleData \<Rightarrow> ValidationError option" where
  "ValidateVehicleData data =
     (if flt (veh_Latitude data) (Fin (- 90)) \<or> fgt (veh_Latitude data) (Fin 90)
      then Some (verr ''latitude'' ''must be between -90 and 90'')
      else if flt (veh_Longitude data) (Fin (- 180)) \<or> fgt (veh_Longitude data) (Fin 180)
      then Some (verr ''longitude'' ''must be between -180 and 180'')
      else if flt (veh_Speed data) (Fin 0) then Some (verr ''speed'' ''must be non-negative'')
      else if flt (veh_Fuel data) (Fin 0) then Some (verr ''fuel'' ''must be non-negative'')
      else if flt (veh_Mileage data) (Fin 0) then Some (verr ''mileage'' ''must be non-negative'')
      else None)"

definition ValidatePatientVitals :: "PatientVitalsData \<Rightarrow> ValidationError option" where
  "ValidatePatientVitals data =
     (if pv_HeartRate data < 0 \<or> 300 < pv_HeartRate data
      then Some (verr ''heart_rate'' ''must be between 0 and 300'')
      else if flt (pv_Temperature data) (Fin 35) \<or> fgt (pv_Temperature data) (Fin 42)
      then Some (verr ''temperature'' ''must be between 35 and 42 Celsius'')
      else if pv_SpO2 data < 0 \<or> 100 < pv_SpO2 data
      then Some (verr ''spo2'' ''must be between 0 and 100'')
      else None)"

section \<open>Parsers (parser.go)\<close>

text \<open>An error: \<open>ParseFailed ctx\<close> wraps a JSON error, \<open>Invalid e\<close> is a validation error.\<close>

datatype parse_error = ParseFailed bytes | Invalid ValidationError

definition ParseTelemetryMessage :: "time \<Rightarrow> bytes \<Rightarrow> parse_error + TelemetryMessage" where
  "ParseTelemetryMessage now rawJSON =
     (case unmarshal TelemetryMessage_fields zero_TelemetryMessage rawJSON of
        None \<Rightarrow> Inl (ParseFailed ''failed to parse JSON'')
      | Some msg \<Rightarrow> (case ValidateTelemetryMessage now msg of
            Some err \<Rightarrow> Inl (Invalid err)
          | None \<Rightarrow> Inr msg))"

definition ParseGPSData :: "TelemetryMessage \<Rightarrow> parse_error + GPSData" where
  "ParseGPSData msg =
     (case unmarshal GPSData_fields zero_GPSData (Data msg) of
        None \<Rightarrow> Inl (ParseFailed ''failed to parse GPS data'')
      | Some data \<Rightarrow> (case ValidateGPSData data of
            Some err \<Rightarrow> Inl (Invalid err)
          | None \<Rightarrow> Inr data))"

definition ParseDroneData :: "TelemetryMessage \<Rightarrow> parse_error + DroneData" where
  "ParseDroneData msg =
     (case unmarshal DroneData_fields zero_DroneData (Data msg) of
        None \<Rightarrow> Inl (ParseFailed ''failed to parse drone data'')
      | Some data \<Rightarrow> (case ValidateDroneData data of
            Some err \<Rightarrow> Inl (Invalid err)
          | None \<Rightarrow> Inr data))"

definition ParseRadarData :: "TelemetryMessage \<Rightarrow> parse_error + RadarData" where
  "ParseRadarData msg =
     (case unmarshal RadarData_fields zero_RadarData (Data msg) of
        None \<Rightarrow> Inl (ParseFailed ''failed to parse radar data'')
      | Some data \<Rightarrow> (case ValidateRadarData data of
            Some err \<Rightarrow> Inl (Invalid err)
          | None \<Rightarrow> Inr data))"

definition ParseTemperatureSensorData :: "TelemetryMessage \<Rightarrow> parse_error + TemperatureSensorData" where
  "ParseTemperatureSensorData msg =
     (case unmarshal TemperatureSensorData_fields zero_TemperatureSensorData (Data msg) of
        None \<Rightarrow> Inl (ParseFailed ''failed to parse temperature data'')
      | Some data \<Rightarrow> (case ValidateTemperatureSensorData data of
            Some err \<Rightarrow> Inl (Invalid err)
          | None \<Rightarrow> Inr data))"

definition ParsePressureSensorData :: "TelemetryMessage \<Rightarrow> parse_error + PressureSensorData" where
  "ParsePressureSensorData msg =
     (case unmarshal PressureSensorData_fields zero_PressureSensorData (Data msg) of
        None \<Rightarrow> Inl (ParseFailed ''failed to parse pressure data'')
      | Some data \<Rightarrow> Inr data)"

definition ParseVibrationSensorData :: "TelemetryMessage \<Rightarrow> parse_error + VibrationSensorData" where
  "ParseVibrationSensorData msg =
     (case unmarshal VibrationSensorData_fields zero_VibrationSensorData (Data msg) of
        None \<Rightarrow> Inl (ParseFailed ''failed to parse vibration data'')
      | Some data \<Rightarrow> Inr data)"

definition ParseVehicleData :: "TelemetryMessage \<Rightarrow> parse_error + VehicleData" where
  "ParseVehicleData msg =
     (case unmarshal VehicleData_fields zero_VehicleData (Data msg) of
        None \<Rightarrow> Inl (ParseFailed ''failed to parse vehicle data'')
      | Some data \<Rightarrow> (case ValidateVehicleData data of
            Some err \<Rightarrow> Inl (Invalid err)
          | None \<Rightarrow> Inr data))"

definition ParseAssetTrackerData :: "TelemetryMessage \<Rightarrow> parse_error + AssetTrackerData" where
  "ParseAssetTrackerData msg =
     (case unmarshal AssetTrackerData_fields zero_AssetTrackerData (Data msg) of
        None \<Rightarrow> Inl (ParseFailed ''failed to parse asset tracker data'')
      | Some data \<Rightarrow> Inr data)"

definition ParsePowerGridData :: "TelemetryMessage \<Rightarrow> parse_error + PowerGridData" where
  "ParsePowerGridData msg =
     (case unmarshal PowerGridData_fields zero_PowerGridData (Data msg) of
        None \<Rightarrow> Inl (ParseFailed ''failed to parse power grid data'')
      | Some data \<Rightarrow> Inr data)"

definition ParseWeatherStationData :: "TelemetryMessage \<Rightarrow> parse_error + WeatherStationData" where
  "ParseWeatherStationData msg =
     (case unmarshal WeatherStationData_fields zero_WeatherStationData (Data msg) of
        None \<Rightarrow> Inl (ParseFailed ''failed to parse weather station data'')
      | Some data \<Rightarrow> Inr data)"

definition ParsePatientVitals :: "TelemetryMessage \<Rightarrow> parse_error + PatientVitalsData" where
  "ParsePatientVitals msg =
     (case unmarshal PatientVitalsData_fields zero_PatientVitalsData (Data msg) of
        None \<Rightarrow> Inl (ParseFailed ''failed to parse patient vitals'')
      | Some data \<Rightarrow> (case ValidatePatientVitals data of
            Some err \<Rightarrow> Inl (Invalid err)
          | None \<Rightarrow> Inr data))"

definition ParseMedicalDeviceData :: "TelemetryMessage \<Rightarrow> parse_error + MedicalDeviceData" where
  "ParseMedicalDeviceData msg =
     (case unmarshal MedicalDeviceData_fields zero_MedicalDeviceData (Data msg) of
        None \<Rightarrow> Inl (ParseFailed ''failed to parse medical device data'')
      | Some data \<Rightarrow> Inr data)"

section \<open>The contract of a payload parser\<close>

text \<open>
  Every payload parser decodes the message's data into the zero value of its struct and then
  validates; the workers rely on a \<open>ValidationError\<close> coming only from data that decoded.
\<close>

locale payload_parser =
  fixes fields :: "(bytes \<times> 'r field_decoder) list"
    and zero :: 'r
    and validate :: "'r \<Rightarrow> ValidationError option"
    and ctx :: bytes
    and parse :: "TelemetryMessage \<Rightarrow> parse_error + 'r"
  assumes malformed: "unmarshal fields zero (Data m) = None \<Longrightarrow> parse m = Inl (ParseFailed ctx)"
    and invalid: "unmarshal fields zero (Data m) = Some d \<Longrightarrow> validate d = Some e
      \<Longrightarrow> parse m = Inl (Invalid e)"
    and accepted: "unmarshal fields zero (Data m) = Some d \<Longrightarrow> validate d = None \<Longrightarrow> parse m = Inr d"
begin

lemma cases_of_parse:
  obtains (failed) "unmarshal fields zero (Data m) = None" "parse m = Inl (ParseFailed ctx)"
  | (anomaly) d e where "unmarshal fields zero (Data m) = Some d" "validate d = Some e"
      "parse m = Inl (Invalid e)"
  | (ok) d where "unmarshal fields zero (Data m) = Some d" "validate d = None" "parse m = Inr d"
proof (cases "unmarshal fields zero (Data m)")
  case None
  then show thesis using malformed failed by blast
next
  case (Some d)
  then show thesis using invalid accepted anomaly ok by (cases "validate d") blast+
qed

lemma parse_ok_iff:
  "parse m = Inr d \<longleftrightarrow> unmarshal fields zero (Data m) = Some d \<and> validate d = None"
  by (rule cases_of_parse [of m]) auto

lemma parse_anomaly_iff:
  "parse m = Inl (Invalid e) \<longleftrightarrow>
     (\<exists>d. unmarshal fields zero (Data m) = Some d \<and> validate d = Some e)"
  by (rule cases_of_parse [of m]) auto

lemma parse_failed_iff:
  "parse m = Inl (ParseFailed c) \<longleftrightarrow> unmarshal fields zero (Data m) = None \<and> c = ctx"
  by (rule cases_of_parse [of m]) auto

lemma parse_not_json: "parse_json (Data m) = None \<Longrightarrow> parse m = Inl (ParseFailed ctx)"
  by (rule malformed) (simp add: unmarshal_def)

lemma parse_null_data: "parse_json (Data m) = Some JNull \<Longrightarrow> validate zero = None \<Longrightarrow> parse m = Inr zero"
  by (rule accepted) (simp_all add: unmarshal_def decode_struct_def)

end

interpretation gps_parser: payload_parser GPSData_fields zero_GPSData "ValidateGPSData" "''failed to parse GPS data''" ParseGPSData
  by unfold_locales (auto simp: ParseGPSData_def)

interpretation drone_parser: payload_parser DroneData_fields zero_DroneData "ValidateDroneData" "''failed to parse drone data''" ParseDroneData
  by unfold_locales (auto simp: ParseDroneData_def)

interpretation radar_parser: payload_parser RadarData_fields zero_RadarData "ValidateRadarData" "''failed to parse radar data''" ParseRadarData
  by unfold_locales (auto simp: ParseRadarData_def)

interpretation temp_parser: payload_parser TemperatureSensorData_fields zero_TemperatureSensorData "ValidateTemperatureSensorData" "''failed to parse temperature data''" ParseTemperatureSensorData
  by unfold_locales (auto simp: ParseTemperatureSensorData_def)

interpretation press_parser: payload_parser PressureSensorData_fields zero_PressureSensorData "\<lambda>_. None" "''failed to parse pressure data''" ParsePressureSensorData
  by unfold_locales (auto simp: ParsePressureSensorData_def)

interpretation vib_parser: payload_parser VibrationSensorData_fields zero_VibrationSensorData "\<lambda>_. None" "''failed to parse vibration data''" ParseVibrationSensorData
  by unfold_locales (auto simp: ParseVibrationSensorData_def)

interpretation veh_parser: payload_parser VehicleData_fields zero_VehicleData "ValidateVehicleData" "''failed to parse vehicle data''" ParseVehicleData
  by unfold_locales (auto simp: ParseVehicleData_def)

interpretation asset_parser: payload_parser AssetTrackerData_fields zero_AssetTrackerData "\<lambda>_. None" "''failed to parse asset tracker data''" ParseAssetTrackerData
  by unfold_locales (auto simp: ParseAssetTrackerData_def)

interpretation grid_parser: payload_parser PowerGridData_fields zero_PowerGridData "\<lambda>_. None" "''failed to parse power grid data''" ParsePowerGridData
  by unfold_locales (auto simp: ParsePowerGridData_def)

interpretation wx_parser: payload_parser WeatherStationData_fields zero_WeatherStationData "\<lambda>_. None" "''failed to parse weather station data''" ParseWeatherStationData
  by unfold_locales (auto simp: ParseWeatherStationData_def)

interpretation pv_parser: payload_parser PatientVitalsData_fields zero_PatientVitalsData "ValidatePatientVitals" "''failed to parse patient vitals''" ParsePatientVitals
  by unfold_locales (auto simp: ParsePatientVitals_def)

interpretation med_parser: payload_parser MedicalDeviceData_fields zero_MedicalDeviceData "\<lambda>_. None" "''failed to parse medical device data''" ParseMedicalDeviceData
  by unfold_locales (auto simp: ParseMedicalDeviceData_def)

section \<open>Decoded payloads\<close>

text \<open>Decoding yields finite numbers, and on those the validators are range checks.\<close>

lemma gps_finite:
  assumes "unmarshal GPSData_fields zero_GPSData s = Some d"
  shows "is_finite (gps_Latitude d) \<and> is_finite (gps_Longitude d) \<and> is_finite (gps_Altitude d) \<and> is_finite (gps_Speed d) \<and> is_finite (gps_Heading d)"
  using assms by (rule unmarshal_invariant)
    (auto simp: zero_GPSData_def GPSData_fields_def
      elim!: dec_invariants)

lemma gps_valid_iff:
  assumes "unmarshal GPSData_fields zero_GPSData s = Some d"
  shows "ValidateGPSData d = None \<longleftrightarrow>
     in_range (- 90) 90 (gps_Latitude d) \<and> in_range (- 180) 180 (gps_Longitude d) \<and>
     at_least 0 (gps_Altitude d) \<and> at_least 0 (gps_Speed d)"
  using gps_finite [OF assms] by (auto simp: ValidateGPSData_def finite_range_simps in_range_def)

lemma drone_finite:
  assumes "unmarshal DroneData_fields zero_DroneData s = Some d"
  shows "is_finite (drone_Latitude d) \<and> is_finite (drone_Longitude d) \<and> is_finite (drone_Altitude d)"
  using assms by (rule unmarshal_invariant)
    (auto simp: zero_DroneData_def DroneData_fields_def
      elim!: dec_invariants)

lemma drone_valid_iff:
  assumes "unmarshal DroneData_fields zero_DroneData s = Some d"
  shows "ValidateDroneData d = None \<longleftrightarrow>
     in_range (- 90) 90 (drone_Latitude d) \<and> in_range (- 180) 180 (drone_Longitude d) \<and>
     at_least 0 (drone_Altitude d) \<and> drone_Battery d \<in> {0..100} \<and> drone_Signal d \<in> {0..100}"
  using drone_finite [OF assms] by (auto simp: ValidateDroneData_def finite_range_simps in_range_def)

lemma radar_finite:
  assumes "unmarshal RadarData_fields zero_RadarData s = Some d"
  shows "is_finite (radar_MaxRange d)"
  using assms by (rule unmarshal_invariant)
    (auto simp: zero_RadarData_def RadarData_fields_def
      elim!: dec_invariants)

lemma radar_valid_iff:
  assumes "unmarshal RadarData_fields zero_RadarData s = Some d"
  shows "ValidateRadarData d = None \<longleftrightarrow>
     0 \<le> radar_TargetCount d \<and> at_least 0 (radar_MaxRange d) \<and> radar_MaxRange d \<noteq> Fin 0"
  using radar_finite [OF assms] by (auto simp: ValidateRadarData_def finite_range_simps in_range_def)

lemma temp_finite:
  assumes "unmarshal TemperatureSensorData_fields zero_TemperatureSensorData s = Some d"
  shows "is_finite (temp_Temperature d) \<and> is_finite (temp_Humidity d)"
  using assms by (rule unmarshal_invariant)
    (auto simp: zero_TemperatureSensorData_def TemperatureSensorData_fields_def
      elim!: dec_invariants)

lemma temp_valid_iff:
  assumes "unmarshal TemperatureSensorData_fields zero_TemperatureSensorData s = Some d"
  shows "ValidateTemperatureSensorData d = None \<longleftrightarrow>
     in_range 0 100 (temp_Humidity d) \<and> temp_Unit d \<noteq> []"
  using temp_finite [OF assms] by (auto simp: ValidateTemperatureSensorData_def finite_range_simps in_range_def)

lemma veh_finite:
  assumes "unmarshal VehicleData_fields zero_VehicleData s = Some d"
  shows "is_finite (veh_Latitude d) \<and> is_finite (veh_Longitude d) \<and> is_finite (veh_Speed d) \<and> is_finite (veh_Fuel d) \<and> is_finite (veh_Mileage d)"
  using assms by (rule unmarshal_invariant)
    (auto simp: zero_VehicleData_def VehicleData_fields_def
      elim!: dec_invariants)

lemma veh_valid_iff:
  assumes "unmarshal VehicleData_fields zero_VehicleData s = Some d"
  shows "ValidateVehicleData d = None \<longleftrightarrow>
     in_range (- 90) 90 (veh_Latitude d) \<and> in_range (- 180) 180 (veh_Longitude d) \<and>
     at_least 0 (veh_Speed d) \<and> at_least 0 (veh_Fuel d) \<and> at_least 0 (veh_Mileage d)"
  using veh_finite [OF assms] by (auto simp: ValidateVehicleData_def finite_range_simps in_range_def)

lemma pv_finite:
  assumes "unmarshal PatientVitalsData_fields zero_PatientVitalsData s = Some d"
  shows "is_finite (pv_Temperature d)"
  using assms by (rule unmarshal_invariant)
    (auto simp: zero_PatientVitalsData_def PatientVitalsData_fields_def
      elim!: dec_invariants)

lemma pv_valid_iff:
  assumes "unmarshal PatientVitalsData_fields zero_PatientVitalsData s = Some d"
  shows "ValidatePatientVitals d = None \<longleftrightarrow>
     pv_HeartRate d \<in> {0..300} \<and> in_range 35 42 (pv_Temperature d) \<and> pv_SpO2 d \<in> {0..100}"
  using pv_finite [OF assms] by (auto simp: ValidatePatientVitals_def finite_range_simps in_range_def)
section \<open>Sample messages\<close>

text \<open>Concrete messages for the witnesses of the component theories.\<close>

definition sample_msg :: "bytes \<Rightarrow> bytes \<Rightarrow> u64 \<Rightarrow> bytes \<Rightarrow> TelemetryMessage" where
  "sample_msg sid ty q data =
     \<lparr>SensorID = sid, SensorType = ty, Sequence = q, Timestamp = 1000, Data = data\<rparr>"

lemma sample_msg_simps [simp]:
  "SensorID (sample_msg sid ty q data) = sid"
  "SensorType (sample_msg sid ty q data) = ty"
  "Sequence (sample_msg sid ty q data) = q"
  "Timestamp (sample_msg sid ty q data) = 1000"
  "Data (sample_msg sid ty q data) = data"
  by (simp_all add: sample_msg_def)

abbreviation gps_msg :: "bytes \<Rightarrow> u64 \<Rightarrow> TelemetryMessage" where
  "gps_msg sid q \<equiv> sample_msg sid ''gps'' q ''{}''"

section \<open>Properties\<close>

text \<open>Property C6. A message that the listeners accept has a sensor id, a sensor type and data,
  carries a timestamp, and that timestamp is at most five minutes ahead of the server's clock;
  conversely every message that decodes and meets these rules is accepted as decoded, and a
  rejected one that decoded is reported as a validation error.\<close>

theorem accepted_message_wellformed:
  "ParseTelemetryMessage now raw = Inr msg \<longleftrightarrow>
     unmarshal TelemetryMessage_fields zero_TelemetryMessage raw = Some msg \<and>
     SensorID msg \<noteq> [] \<and> SensorType msg \<noteq> [] \<and> Data msg \<noteq> [] \<and>
     Timestamp msg \<noteq> 0 \<and> Timestamp msg \<le> now + 300 * second"
  by (auto simp: ParseTelemetryMessage_def ValidateTelemetryMessage_def IsZero_def After_def Add_def
      minute_def verr_def split: option.split if_splits)

text \<open>Property C7. The payload parsers of the six checked sensor types accept exactly the
  payloads that decode into the documented ranges; no infinity or NaN gets through, since decoding
  produces finite numbers only.\<close>

theorem accepted_payloads_in_range:
  "(ParseGPSData m = Inr g \<longleftrightarrow> unmarshal GPSData_fields zero_GPSData (Data m) = Some g \<and>
      in_range (- 90) 90 (gps_Latitude g) \<and> in_range (- 180) 180 (gps_Longitude g) \<and>
      at_least 0 (gps_Altitude g) \<and> at_least 0 (gps_Speed g)) \<and>
   (ParseDroneData m = Inr d \<longleftrightarrow> unmarshal DroneData_fields zero_DroneData (Data m) = Some d \<and>
      in_range (- 90) 90 (drone_Latitude d) \<and> in_range (- 180) 180 (drone_Longitude d) \<and>
      at_least 0 (drone_Altitude d) \<and> drone_Battery d \<in> {0..100} \<and> drone_Signal d \<in> {0..100}) \<and>
   (ParseRadarData m = Inr r \<longleftrightarrow> unmarshal RadarData_fields zero_RadarData (Data m) = Some r \<and>
      0 \<le> radar_TargetCount r \<and> at_least 0 (radar_MaxRange r) \<and> radar_MaxRange r \<noteq> Fin 0) \<and>
   (ParseTemperatureSensorData m = Inr t \<longleftrightarrow>
      unmarshal TemperatureSensorData_fields zero_TemperatureSensorData (Data m) = Some t \<and>
      in_range 0 100 (temp_Humidity t) \<and> temp_Unit t \<noteq> []) \<and>
   (ParseVehicleData m = Inr v \<longleftrightarrow> unmarshal VehicleData_fields zero_VehicleData (Data m) = Some v \<and>
      in_range (- 90) 90 (veh_Latitude v) \<and> in_range (- 180) 180 (veh_Longitude v) \<and>
      at_least 0 (veh_Speed v) \<and> at_least 0 (veh_Fuel v) \<and> at_least 0 (veh_Mileage v)) \<and>
   (ParsePatientVitals m = Inr p \<longleftrightarrow>
      unmarshal PatientVitalsData_fields zero_PatientVitalsData (Data m) = Some p \<and>
      pv_HeartRate p \<in> {0..300} \<and> in_range 35 42 (pv_Temperature p) \<and> pv_SpO2 p \<in> {0..100})"
  by (intro conjI; (unfold gps_parser.parse_ok_iff drone_parser.parse_ok_iff radar_parser.parse_ok_iff
      temp_parser.parse_ok_iff veh_parser.parse_ok_iff pv_parser.parse_ok_iff)?;
    rule conj_cong [OF refl]; erule gps_valid_iff drone_valid_iff radar_valid_iff temp_valid_iff
      veh_valid_iff pv_valid_iff)

end
