(* ===== verification/State_Store.thy ===== *)
theory State_Store
  imports Protocol
begin

text \<open>
  internal/state/state.go: the latest state of every sensor, and the sequence tracking that
  classifies a message as new, in order, after a gap, duplicate or out of order. Every method
  runs under the store's mutex, so each is one atomic function on the store; \<open>time.Now()\<close>
  and the unspecified iteration order of Go's maps are arguments.
\<close>

section \<open>State\<close>

definition recentSeqWindow :: u64 where "recentSeqWindow = 64"

definition StatusHealthy :: bytes where "StatusHealthy = ''healthy''"
definition StatusStale :: bytes where "StatusStale = ''stale''"

record SensorState =
  st_SensorID :: bytes
  st_SensorType :: bytes
  st_Status :: bytes
  st_LastSequence :: u64
  st_FirstSeen :: time
  st_LastSeen :: time
  st_MessageCount :: u64
  st_DroppedCount :: u64
  st_DuplicateCount :: u64
  st_OutOfOrderCount :: u64
  st_ErrorCount :: u64
  st_AnomalyCount :: u64

record UpdateResult =
  IsNewSensor :: bool
  IsDuplicate :: bool
  IsOutOfOrder :: bool
  ur_DroppedCount :: u64

record sensorEntry =
  entry_state :: SensorState
  recentSeqs :: "u64 set"

record StateStore =
  sensors :: "bytes \<rightharpoonup> sensorEntry"

definition NewStateStore :: StateStore where
  "NewStateStore = \<lparr>sensors = Map.empty\<rparr>"

section \<open>Operations\<close>

definition pruneRecentSeqs :: "sensorEntry \<Rightarrow> sensorEntry" where
  "pruneRecentSeqs entry =
     (if st_LastSequence (entry_state entry) < recentSeqWindow then entry
      else let floor = st_LastSequence (entry_state entry) - recentSeqWindow
           in entry\<lparr>recentSeqs := {seq \<in> recentSeqs entry. \<not> seq < floor}\<rparr>)"

text \<open>The entry made for a sensor's first message.\<close>

definition new_entry :: "time \<Rightarrow> TelemetryMessage \<Rightarrow> sensorEntry" where
  "new_entry now msg =
     \<lparr>entry_state = \<lparr>st_SensorID = SensorID msg, st_SensorType = SensorType msg,
         st_Status = StatusHealthy, st_LastSequence = Sequence msg,
         st_FirstSeen = now, st_LastSeen = now, st_MessageCount = 1,
         st_DroppedCount = 0, st_DuplicateCount = 0, st_OutOfOrderCount = 0,
         st_ErrorCount = 0, st_AnomalyCount = 0\<rparr>,
      recentSeqs = {Sequence msg}\<rparr>"

definition no_result :: UpdateResult where
  "no_result = \<lparr>IsNewSensor = False, IsDuplicate = False, IsOutOfOrder = False, ur_DroppedCount = 0\<rparr>"

text \<open>The rest of \<open>Update\<close>, for a sensor that is already known.\<close>

definition update_known :: "time \<Rightarrow> TelemetryMessage \<Rightarrow> sensorEntry \<Rightarrow> UpdateResult \<times> sensorEntry" where
  "update_known now msg entry =
     (let st = (entry_state entry)\<lparr>st_LastSeen := now, st_Status := StatusHealthy,
                  st_MessageCount := st_MessageCount (entry_state entry) + 1\<rparr>;
          duplicate = (no_result\<lparr>IsDuplicate := True\<rparr>,
             entry\<lparr>entry_state := st\<lparr>st_DuplicateCount := st_DuplicateCount st + 1\<rparr>\<rparr>)
      in if Sequence msg = st_LastSequence st then duplicate
         else if Sequence msg > st_LastSequence st then
           (let gap = Sequence msg - st_LastSequence st - 1;
                (result, st') =
                  (if gap > 0 then (no_result\<lparr>ur_DroppedCount := gap\<rparr>,
                                    st\<lparr>st_DroppedCount := st_DroppedCount st + gap\<rparr>)
                   else (no_result, st))
            in (result, pruneRecentSeqs
                  \<lparr>entry_state = st'\<lparr>st_LastSequence := Sequence msg\<rparr>,
                   recentSeqs = insert (Sequence msg) (recentSeqs entry)\<rparr>))
         else if Sequence msg \<in> recentSeqs entry then duplicate
         else (no_result\<lparr>IsOutOfOrder := True\<rparr>,
               \<lparr>entry_state = st\<lparr>st_OutOfOrderCount := st_OutOfOrderCount st + 1\<rparr>,
                recentSeqs = insert (Sequence msg) (recentSeqs entry)\<rparr>))"

definition Update :: "time \<Rightarrow> TelemetryMessage \<Rightarrow> StateStore \<Rightarrow> UpdateResult \<times> StateStore" where
  "Update now msg s =
     (case sensors s (SensorID msg) of
        None \<Rightarrow> (no_result\<lparr>IsNewSensor := True\<rparr>,
                 s\<lparr>sensors := (sensors s)(SensorID msg \<mapsto> new_entry now msg)\<rparr>)
      | Some entry \<Rightarrow>
          (let (result, entry') = update_known now msg entry
           in (result, s\<lparr>sensors := (sensors s)(SensorID msg \<mapsto> entry')\<rparr>)))"

definition RecordError :: "bytes \<Rightarrow> StateStore \<Rightarrow> StateStore" where
  "RecordError sensorID s =
     (case sensors s sensorID of
        None \<Rightarrow> s
      | Some entry \<Rightarrow> s\<lparr>sensors := (sensors s)(sensorID \<mapsto>
          entry\<lparr>entry_state := (entry_state entry)
            \<lparr>st_ErrorCount := st_ErrorCount (entry_state entry) + 1\<rparr>\<rparr>)\<rparr>)"

definition RecordAnomaly :: "bytes \<Rightarrow> StateStore \<Rightarrow> StateStore" where
  "RecordAnomaly sensorID s =
     (case sensors s sensorID of
        None \<Rightarrow> s
      | Some entry \<Rightarrow> s\<lparr>sensors := (sensors s)(sensorID \<mapsto>
          entry\<lparr>entry_state := (entry_state entry)
            \<lparr>st_AnomalyCount := st_AnomalyCount (entry_state entry) + 1\<rparr>\<rparr>)\<rparr>)"

text \<open>
  \<open>CheckStale\<close> visits the entries in the order \<open>ids\<close>, any enumeration of the keys
  (\<open>map_order\<close>).
\<close>

definition map_order :: "bytes list \<Rightarrow> StateStore \<Rightarrow> bool" where
  "map_order ids s = (distinct ids \<and> set ids = dom (sensors s))"

definition stale_entry :: "time \<Rightarrow> duration \<Rightarrow> sensorEntry \<Rightarrow> bool" where
  "stale_entry now timeout entry =
     (st_Status (entry_state entry) \<noteq> StatusStale \<and>
      Sub now (st_LastSeen (entry_state entry)) > timeout)"

definition mark_stale :: "sensorEntry \<Rightarrow> sensorEntry" where
  "mark_stale entry = entry\<lparr>entry_state := (entry_state entry)\<lparr>st_Status := StatusStale\<rparr>\<rparr>"

fun CheckStale :: "bytes list \<Rightarrow> time \<Rightarrow> duration \<Rightarrow> StateStore \<Rightarrow> bytes list \<times> StateStore" where
  "CheckStale [] now timeout s = ([], s)"
| "CheckStale (sid # sids) now timeout s =
     (case sensors s sid of
        None \<Rightarrow> CheckStale sids now timeout s
      | Some entry \<Rightarrow>
          if stale_entry now timeout entry then
            (let (newlyStale, s') = CheckStale sids now timeout
                   (s\<lparr>sensors := (sensors s)(sid \<mapsto> mark_stale entry)\<rparr>)
             in (st_SensorID (entry_state entry) # newlyStale, s'))
          else CheckStale sids now timeout s)"

definition Get :: "bytes \<Rightarrow> StateStore \<Rightarrow> SensorState option" where
  "Get sensorID s = map_option entry_state (sensors s sensorID)"

definition List :: "bytes list \<Rightarrow> StateStore \<Rightarrow> SensorState list" where
  "List ids s = map (\<lambda>sid. entry_state (the (sensors s sid))) ids"

definition Count :: "StateStore \<Rightarrow> nat" where
  "Count s = card (dom (sensors s))"

section \<open>Effects of an update on one entry\<close>

lemma pruneRecentSeqs_state [simp]: "entry_state (pruneRecentSeqs e) = entry_state e"
  by (simp add: pruneRecentSeqs_def Let_def)

text \<open>What stays after pruning: everything within the window of the high-water mark.\<close>

lemma recentSeqs_prune:
  "x \<in> recentSeqs (pruneRecentSeqs e) \<longleftrightarrow>
     x \<in> recentSeqs e \<and> unat (st_LastSequence (entry_state e)) \<le> unat x + 64"
proof (cases "st_LastSequence (entry_state e) < recentSeqWindow")
  case True
  then have "unat (st_LastSequence (entry_state e)) < 64"
    by (simp add: recentSeqWindow_def word_less_nat_alt)
  then show ?thesis using True by (simp add: pruneRecentSeqs_def)
next
  case False
  then have le: "(64 :: u64) \<le> st_LastSequence (entry_state e)" by (simp add: recentSeqWindow_def)
  then have "unat (st_LastSequence (entry_state e) - 64) = unat (st_LastSequence (entry_state e)) - 64"
    using unat_sub [OF le] by simp
  then show ?thesis using False
    by (auto simp: pruneRecentSeqs_def Let_def recentSeqWindow_def word_less_nat_alt)
qed

text \<open>
  The cases of the sequence number, each with the result and the new entry. The first three
  fields every update writes are the same in all of them.
\<close>

definition touched :: "time \<Rightarrow> SensorState \<Rightarrow> SensorState" where
  "touched now st = st\<lparr>st_LastSeen := now, st_Status := StatusHealthy,
     st_MessageCount := st_MessageCount st + 1\<rparr>"

lemma touched_simps [simp]:
  "st_SensorID (touched now st) = st_SensorID st"
  "st_SensorType (touched now st) = st_SensorType st"
  "st_Status (touched now st) = StatusHealthy"
  "st_LastSequence (touched now st) = st_LastSequence st"
  "st_FirstSeen (touched now st) = st_FirstSeen st"
  "st_LastSeen (touched now st) = now"
  "st_MessageCount (touched now st) = st_MessageCount st + 1"
  "st_DroppedCount (touched now st) = st_DroppedCount st"
  "st_DuplicateCount (touched now st) = st_DuplicateCount st"
  "st_OutOfOrderCount (touched now st) = st_OutOfOrderCount st"
  "st_ErrorCount (touched now st) = st_ErrorCount st"
  "st_AnomalyCount (touched now st) = st_AnomalyCount st"
  by (simp_all add: touched_def)

lemma update_known_duplicate [store_simps]:
  assumes "Sequence m = st_LastSequence (entry_state e) \<or>
    Sequence m < st_LastSequence (entry_state e) \<and> Sequence m \<in> recentSeqs e"
  shows "update_known now m e =
    (no_result\<lparr>IsDuplicate := True\<rparr>,
     e\<lparr>entry_state := (touched now (entry_state e))
        \<lparr>st_DuplicateCount := st_DuplicateCount (entry_state e) + 1\<rparr>\<rparr>)"
  using assms by (auto simp: update_known_def Let_def touched_def)

lemma update_known_ahead [store_simps]:
  assumes "st_LastSequence (entry_state e) < Sequence m"
  shows "update_known now m e =
    (no_result\<lparr>ur_DroppedCount := Sequence m - st_LastSequence (entry_state e) - 1\<rparr>,
     pruneRecentSeqs
       \<lparr>entry_state = (touched now (entry_state e))
          \<lparr>st_DroppedCount := st_DroppedCount (entry_state e)
                + (Sequence m - st_LastSequence (entry_state e) - 1),
           st_LastSequence := Sequence m\<rparr>,
        recentSeqs = insert (Sequence m) (recentSeqs e)\<rparr>)"
proof (cases "Sequence m - st_LastSequence (entry_state e) - 1 > 0")
  case True
  then show ?thesis using assms by (auto simp: update_known_def Let_def touched_def)
next
  case False
  then have "Sequence m - st_LastSequence (entry_state e) - 1 = 0" by (simp only: word_gt_0 not_not)
  then show ?thesis using assms by (auto simp: update_known_def Let_def touched_def no_result_def)
qed

lemma update_known_late [store_simps]:
  assumes "Sequence m < st_LastSequence (entry_state e)" and "Sequence m \<notin> recentSeqs e"
  shows "update_known now m e =
    (no_result\<lparr>IsOutOfOrder := True\<rparr>,
     \<lparr>entry_state = (touched now (entry_state e))
        \<lparr>st_OutOfOrderCount := st_OutOfOrderCount (entry_state e) + 1\<rparr>,
      recentSeqs = insert (Sequence m) (recentSeqs e)\<rparr>)"
  using assms by (auto simp: update_known_def Let_def touched_def)

lemma update_known_split:
  obtains (duplicate) "Sequence m = st_LastSequence (entry_state e) \<or>
      Sequence m < st_LastSequence (entry_state e) \<and> Sequence m \<in> recentSeqs e"
  | (ahead) "st_LastSequence (entry_state e) < Sequence m"
  | (late) "Sequence m < st_LastSequence (entry_state e)" "Sequence m \<notin> recentSeqs e"
  by (cases "Sequence m" "st_LastSequence (entry_state e)" rule: linorder_cases) auto

section \<open>The store against the history of its messages\<close>

text \<open>
  The specification keeps every sequence number ever received from a sensor, newest first. The
  store keeps the largest one and those near it; the lemmas say that this bounded memory
  classifies messages as the full history would.
\<close>

fun highest :: "u64 list \<Rightarrow> u64" where
  "highest [] = 0"
| "highest (x # h) = max x (highest h)"

fun advances :: "u64 list \<Rightarrow> nat" where
  "advances [] = 0"
| "advances (x # h) = (if h = [] \<or> highest h < x then Suc (advances h) else advances h)"

lemma highest_ge: "x \<in> set h \<Longrightarrow> x \<le> highest h"
  by (induction h) (auto simp: max_def)

lemma highest_in: "h \<noteq> [] \<Longrightarrow> highest h \<in> set h"
proof (induction h)
  case (Cons x h)
  then show ?case by (cases h) (auto simp: max_def)
qed simp

lemma advances_pos: "h \<noteq> [] \<Longrightarrow> 0 < advances h"
  by (induction h) auto

text \<open>
  Which of the numbers received can still be recognised: \<open>mark_at q h\<close> is the highest number right
  after \<open>q\<close> was last received. A number is recalled while the mark has not moved since then, and
  after that as long as it is at most 64 behind the mark.
\<close>

definition mark_at :: "u64 \<Rightarrow> u64 list \<Rightarrow> u64" where
  "mark_at q h = highest (dropWhile (\<lambda>x. x \<noteq> q) h)"

definition recalls :: "u64 list \<Rightarrow> u64 \<Rightarrow> bool" where
  "recalls h q = (q \<in> set h \<and> (mark_at q h = highest h \<or> unat (highest h) \<le> unat q + 64))"

lemma recalls_Nil [simp]: "\<not> recalls [] q"
  by (simp add: recalls_def)

lemma recalls_latest [simp]: "recalls (x # h) x"
  by (simp add: recalls_def mark_at_def)

lemma mark_at_le: "mark_at q h \<le> highest h"
proof (induction h)
  case (Cons x h)
  then show ?case by (auto simp: mark_at_def intro: order_trans)
qed (simp add: mark_at_def)

lemma recalls_received: "recalls h q \<Longrightarrow> q \<in> set h"
  by (simp add: recalls_def)

lemma recalls_near: "q \<in> set h \<Longrightarrow> unat (highest h) \<le> unat q + 64 \<Longrightarrow> recalls h q"
  by (simp add: recalls_def)

lemma recalls_behind:
  assumes "x \<le> highest h"
  shows "recalls (x # h) q \<longleftrightarrow> q = x \<or> recalls h q"
  using assms by (auto simp: recalls_def mark_at_def max_absorb2)

lemma recalls_ahead:
  assumes "highest h < x"
  shows "recalls (x # h) q \<longleftrightarrow> q = x \<or> recalls h q \<and> unat x \<le> unat q + 64"
proof (cases "q = x")
  case False
  have "mark_at q h \<noteq> x" using assms mark_at_le [of q h] by auto
  moreover have "unat (highest h) \<le> unat x" using assms by (simp add: word_less_nat_alt)
  ultimately show ?thesis using False assms by (auto simp: recalls_def mark_at_def max_absorb1 less_imp_le)
qed simp

definition tracks :: "u64 list \<Rightarrow> sensorEntry \<Rightarrow> bool" where
  "tracks h e = (h \<noteq> [] \<and> st_LastSequence (entry_state e) = highest h \<and>
     recentSeqs e = {q. recalls h q} \<and>
     st_MessageCount (entry_state e) = of_nat (length h) \<and>
     unat (st_DroppedCount (entry_state e)) + advances h = unat (highest h) - unat (last h) + 1 \<and>
     st_DuplicateCount (entry_state e) + st_OutOfOrderCount (entry_state e) + of_nat (advances h)
       = of_nat (length h))"

lemma tracks_new: "tracks [Sequence m] (new_entry now m)"
  by (auto simp: tracks_def new_entry_def recalls_def mark_at_def)

lemma tracks_last_recent: "tracks h e \<Longrightarrow> recalls h (highest h)"
  using highest_in [of h] by (simp add: tracks_def recalls_near)

lemma tracks_update:
  assumes t: "tracks h e"
  shows "tracks (Sequence m # h) (snd (update_known now m e))"
proof (cases rule: update_known_split [of m e])
  case duplicate
  then have "recalls h (Sequence m)" and le: "Sequence m \<le> highest h"
    using t tracks_last_recent [OF t] by (auto simp: tracks_def)
  then have "recentSeqs e = {q. recalls (Sequence m # h) q}"
    using t by (auto simp: tracks_def recalls_behind)
  moreover have "highest (Sequence m # h) = highest h" using le by (simp add: max_def)
  ultimately show ?thesis using t duplicate le
    by (auto simp: tracks_def update_known_duplicate algebra_simps)
next
  case ahead
  then have lt: "highest h < Sequence m" using t by (simp add: tracks_def)
  then have hi: "highest (Sequence m # h) = Sequence m" by simp
  have nat: "unat (highest h) < unat (Sequence m)" using lt by (simp add: word_less_nat_alt)
  have first: "unat (last h) \<le> unat (highest h)"
    using t highest_ge [of "last h" h] by (simp add: tracks_def word_le_nat_alt)
  have d: "unat (st_DroppedCount (entry_state e)) + advances h = unat (highest h) - unat (last h) + 1"
    using t by (simp add: tracks_def)
  have gap: "unat (Sequence m - highest h - 1) = unat (Sequence m) - unat (highest h) - 1"
    using lt by (rule u64_succ_gap)
  have "unat (st_DroppedCount (entry_state e)) + unat (Sequence m - highest h - 1) < 2 ^ 64"
    using d gap nat first advances_pos [of h] t u64_bound [of "Sequence m"] by (simp add: tracks_def)
  then have sum: "unat (st_DroppedCount (entry_state e) + (Sequence m - highest h - 1))
      = unat (st_DroppedCount (entry_state e)) + (unat (Sequence m) - unat (highest h) - 1)"
    by (simp add: u64_add_no_wrap gap)
  have "recentSeqs (snd (update_known now m e)) = {q. recalls (Sequence m # h) q}"
    using t ahead by (auto simp: tracks_def update_known_ahead recentSeqs_prune recalls_ahead [OF lt])
  then show ?thesis using t ahead lt nat hi sum d first
    by (auto simp: tracks_def update_known_ahead algebra_simps)
next
  case late
  then have lt: "Sequence m < highest h" using t by (simp add: tracks_def)
  then have hi: "highest (Sequence m # h) = highest h" by (simp add: max_absorb2)
  have "insert (Sequence m) (recentSeqs e) = {q. recalls (Sequence m # h) q}"
    using t lt by (auto simp: tracks_def recalls_behind)
  then show ?thesis using t late lt hi
    by (auto simp: tracks_def update_known_late algebra_simps)
qed

section \<open>Whole stores\<close>

text \<open>
  The calls other goroutines make on the store, in the order in which they take its mutex.
\<close>

datatype store_op =
    OpUpdate time TelemetryMessage
  | OpError bytes
  | OpAnomaly bytes
  | OpStale "bytes list" time duration

fun exec_op :: "store_op \<Rightarrow> StateStore \<Rightarrow> StateStore" where
  "exec_op (OpUpdate now m) s = snd (Update now m s)"
| "exec_op (OpError sid) s = RecordError sid s"
| "exec_op (OpAnomaly sid) s = RecordAnomaly sid s"
| "exec_op (OpStale sids now timeout) s = snd (CheckStale sids now timeout s)"

definition exec_ops :: "store_op list \<Rightarrow> StateStore \<Rightarrow> StateStore" where
  "exec_ops ops s = fold exec_op ops s"

text \<open>The sequence numbers received from a sensor, newest first.\<close>

fun op_seqs :: "bytes \<Rightarrow> store_op \<Rightarrow> u64 list" where
  "op_seqs sid (OpUpdate now m) = (if SensorID m = sid then [Sequence m] else [])"
| "op_seqs sid _ = []"

definition history :: "bytes \<Rightarrow> store_op list \<Rightarrow> u64 list" where
  "history sid ops = concat (map (op_seqs sid) (rev ops))"

lemma history_snoc: "history sid (ops @ [p]) = op_seqs sid p @ history sid ops"
  by (simp add: history_def)

text \<open>How each operation changes the entry of a sensor.\<close>

lemma sensors_Update [store_simps]:
  "sensors (snd (Update now m s)) = (sensors s)(SensorID m \<mapsto>
     (case sensors s (SensorID m) of None \<Rightarrow> new_entry now m
      | Some e \<Rightarrow> snd (update_known now m e)))"
  by (simp add: Update_def split: option.split prod.split)

lemma fst_Update [store_simps]:
  "fst (Update now m s) = (case sensors s (SensorID m) of
      None \<Rightarrow> no_result\<lparr>IsNewSensor := True\<rparr>
    | Some e \<Rightarrow> fst (update_known now m e))"
  by (simp add: Update_def split: option.split prod.split)

lemma mark_stale_id [simp]: "st_SensorID (entry_state (mark_stale e)) = st_SensorID (entry_state e)"
  by (simp add: mark_stale_def)

lemma mark_stale_idle: "\<not> stale_entry now t (mark_stale e)"
  by (simp add: stale_entry_def mark_stale_def)

lemma sensors_CheckStale [store_simps]:
  "sensors (snd (CheckStale sids now t s)) sid =
     map_option (\<lambda>e. if sid \<in> set sids \<and> stale_entry now t e then mark_stale e else e) (sensors s sid)"
proof (induction sids arbitrary: s)
  case Nil
  then show ?case by (simp add: option.map_ident)
next
  case (Cons i sids)
  show ?case
  proof (cases "sensors s i")
    case None
    then show ?thesis by (cases "i = sid") (simp_all add: Cons.IH)
  next
    case (Some e)
    then show ?thesis
      by (cases "i = sid") (simp_all add: Cons.IH mark_stale_idle case_prod_unfold Let_def)
  qed
qed

lemma tracks_mark_stale: "tracks h (mark_stale e) = tracks h e"
  by (simp add: tracks_def mark_stale_def)

lemma tracks_error:
  "tracks h (e\<lparr>entry_state := (entry_state e)\<lparr>st_ErrorCount := n\<rparr>\<rparr>) = tracks h e"
  by (simp add: tracks_def)

lemma tracks_anomaly:
  "tracks h (e\<lparr>entry_state := (entry_state e)\<lparr>st_AnomalyCount := n\<rparr>\<rparr>) = tracks h e"
  by (simp add: tracks_def)

lemmas tracks_frame = tracks_mark_stale tracks_error tracks_anomaly

text \<open>Every operation keeps the relation between the store and the histories.\<close>

definition store_tracks :: "(bytes \<Rightarrow> u64 list) \<Rightarrow> StateStore \<Rightarrow> bool" where
  "store_tracks H s = (\<forall>sid. (sensors s sid = None \<longrightarrow> H sid = []) \<and>
     (\<forall>e. sensors s sid = Some e \<longrightarrow> tracks (H sid) e))"

lemma store_tracks_op:
  "store_tracks H s \<Longrightarrow> store_tracks (\<lambda>sid. op_seqs sid p @ H sid) (exec_op p s)"
proof (cases p)
  case (OpUpdate now m)
  assume "store_tracks H s"
  then show ?thesis using tracks_update tracks_new
    by (auto simp: OpUpdate store_tracks_def store_simps split: option.splits)
next
  case (OpStale sids now t)
  assume "store_tracks H s"
  then show ?thesis
    by (auto simp: OpStale store_tracks_def store_simps tracks_frame split: option.splits)
qed (auto simp: store_tracks_def RecordError_def RecordAnomaly_def tracks_frame split: option.splits)

lemma store_tracks_run:
  "store_tracks (\<lambda>sid. history sid ops) (exec_ops ops NewStateStore)"
proof (induction ops rule: rev_induct)
  case Nil
  then show ?case by (simp add: store_tracks_def exec_ops_def history_def NewStateStore_def)
next
  case (snoc p ops)
  then show ?case
    using store_tracks_op [OF snoc, of p] by (simp add: exec_ops_def history_snoc)
qed

section \<open>Store invariant\<close>

definition entry_ok :: "bytes \<Rightarrow> sensorEntry \<Rightarrow> bool" where
  "entry_ok sid e = (st_SensorID (entry_state e) = sid \<and>
     st_Status (entry_state e) \<in> {StatusHealthy, StatusStale} \<and>
     st_LastSequence (entry_state e) \<in> recentSeqs e \<and>
     (\<forall>x\<in>recentSeqs e. x \<le> st_LastSequence (entry_state e)))"

definition store_ok :: "StateStore \<Rightarrow> bool" where
  "store_ok s = (finite (dom (sensors s)) \<and> (\<forall>sid e. sensors s sid = Some e \<longrightarrow> entry_ok sid e))"

lemma store_ok_finite: "store_ok s \<Longrightarrow> finite (dom (sensors s))"
  by (simp add: store_ok_def)

lemma entry_ok_new: "entry_ok (SensorID m) (new_entry now m)"
  by (simp add: entry_ok_def new_entry_def)

lemma entry_ok_update: "entry_ok sid e \<Longrightarrow> entry_ok sid (snd (update_known now m e))"
proof (cases rule: update_known_split [of m e])
  case ahead
  assume "entry_ok sid e"
  then show ?thesis using ahead
    by (auto simp: entry_ok_def update_known_ahead recentSeqs_prune
        intro: order_trans [OF _ less_imp_le])
qed (auto simp: entry_ok_def update_known_duplicate update_known_late)

lemma entry_ok_mark_stale: "entry_ok sid e \<Longrightarrow> entry_ok sid (mark_stale e)"
  by (simp add: entry_ok_def mark_stale_def)

lemma dom_CheckStale [store_simps]: "dom (sensors (snd (CheckStale sids now t s))) = dom (sensors s)"
  by (auto simp: sensors_CheckStale dom_def)

lemma store_ok_op: "store_ok s \<Longrightarrow> store_ok (exec_op p s)"
proof (cases p)
  case (OpUpdate now m)
  assume "store_ok s"
  then show ?thesis using entry_ok_new entry_ok_update
    by (auto simp: OpUpdate store_ok_def sensors_Update split: option.split)
next
  case (OpStale sids now t)
  assume "store_ok s"
  then show ?thesis using entry_ok_mark_stale
    by (auto simp: OpStale store_ok_def dom_CheckStale sensors_CheckStale)
qed (auto simp: store_ok_def entry_ok_def RecordError_def RecordAnomaly_def split: option.split)

lemma store_ok_new [simp]: "store_ok NewStateStore"
  by (simp add: store_ok_def NewStateStore_def)

lemma store_ok_run: "store_ok (exec_ops ops NewStateStore)"
  by (induction ops rule: rev_induct) (simp_all add: exec_ops_def store_ok_op)

section \<open>The interface its clients use\<close>

text \<open>
  What the workers, the monitor and the REST API rely on: which sensors are known, and how each
  call changes the counters summed over all sensors. \<open>total f s\<close> is the sum of the counter
  \<open>f\<close>. The laws speak of the calls only, not of how a sensor is represented.
\<close>

locale sensor_store =
  fixes upd :: "time \<Rightarrow> TelemetryMessage \<Rightarrow> 's \<Rightarrow> UpdateResult \<times> 's"
    and err :: "bytes \<Rightarrow> 's \<Rightarrow> 's"
    and anom :: "bytes \<Rightarrow> 's \<Rightarrow> 's"
    and look :: "bytes \<Rightarrow> 's \<Rightarrow> SensorState option"
    and total :: "(SensorState \<Rightarrow> u64) \<Rightarrow> 's \<Rightarrow> u64"
    and inv :: "'s \<Rightarrow> bool"
  assumes inv_upd: "inv s \<Longrightarrow> inv (snd (upd now m s))"
    and inv_err: "inv s \<Longrightarrow> inv (err sid s)"
    and inv_anom: "inv s \<Longrightarrow> inv (anom sid s)"
    and known_upd: "look sid (snd (upd now m s)) \<noteq> None \<longleftrightarrow> sid = SensorID m \<or> look sid s \<noteq> None"
    and known_err: "look sid (err i s) \<noteq> None \<longleftrightarrow> look sid s \<noteq> None"
    and known_anom: "look sid (anom i s) \<noteq> None \<longleftrightarrow> look sid s \<noteq> None"
    and upd_messages: "inv s \<Longrightarrow>
      total st_MessageCount (snd (upd now m s)) = total st_MessageCount s + 1"
    and upd_dropped: "inv s \<Longrightarrow>
      total st_DroppedCount (snd (upd now m s)) = total st_DroppedCount s + ur_DroppedCount (fst (upd now m s))"
    and upd_duplicates: "inv s \<Longrightarrow>
      total st_DuplicateCount (snd (upd now m s))
        = total st_DuplicateCount s + of_bool (IsDuplicate (fst (upd now m s)))"
    and upd_late: "inv s \<Longrightarrow>
      total st_OutOfOrderCount (snd (upd now m s))
        = total st_OutOfOrderCount s + of_bool (IsOutOfOrder (fst (upd now m s)))"
    and upd_errors: "inv s \<Longrightarrow> total st_ErrorCount (snd (upd now m s)) = total st_ErrorCount s"
    and upd_anomalies: "inv s \<Longrightarrow> total st_AnomalyCount (snd (upd now m s)) = total st_AnomalyCount s"
    and err_errors: "inv s \<Longrightarrow>
      total st_ErrorCount (err sid s) = total st_ErrorCount s + of_bool (look sid s \<noteq> None)"
    and err_frame: "inv s \<Longrightarrow> f \<in> {st_MessageCount, st_DroppedCount, st_DuplicateCount,
      st_OutOfOrderCount, st_AnomalyCount} \<Longrightarrow> total f (err sid s) = total f s"
    and anom_anomalies: "inv s \<Longrightarrow>
      total st_AnomalyCount (anom sid s) = total st_AnomalyCount s + of_bool (look sid s \<noteq> None)"
    and anom_frame: "inv s \<Longrightarrow> f \<in> {st_MessageCount, st_DroppedCount, st_DuplicateCount,
      st_OutOfOrderCount, st_ErrorCount} \<Longrightarrow> total f (anom sid s) = total f s"
begin

text \<open>A client that reports an outcome for a message it has just applied is never ignored.\<close>

lemma anom_after_upd:
  assumes "inv s"
  shows "total st_AnomalyCount (anom (SensorID m) (snd (upd now m s))) = total st_AnomalyCount s + 1"
  using assms known_upd [of "SensorID m" now m s]
  by (simp add: anom_anomalies inv_upd upd_anomalies)

lemma err_after_upd:
  assumes "inv s"
  shows "total st_ErrorCount (err (SensorID m) (snd (upd now m s))) = total st_ErrorCount s + 1"
  using assms known_upd [of "SensorID m" now m s]
  by (simp add: err_errors inv_upd upd_errors)

text \<open>A run of updates counts every message, whatever its sequence number.\<close>

lemma upds_messages:
  assumes "inv s"
  shows "inv (fold (\<lambda>(now, m) s. snd (upd now m s)) ms s) \<and>
    total st_MessageCount (fold (\<lambda>(now, m) s. snd (upd now m s)) ms s)
      = total st_MessageCount s + of_nat (length ms)"
  using assms
  by (induction ms arbitrary: s) (auto simp: upd_messages inv_upd algebra_simps)

end

definition store_total :: "(SensorState \<Rightarrow> u64) \<Rightarrow> StateStore \<Rightarrow> u64" where
  "store_total f s = map_total (\<lambda>e. f (entry_state e)) (sensors s)"

lemma store_total_Update:
  assumes "store_ok s"
  shows "store_total f (snd (Update now m s)) = store_total f s +
    (case sensors s (SensorID m) of
       None \<Rightarrow> f (entry_state (new_entry now m))
     | Some e \<Rightarrow> f (entry_state (snd (update_known now m e))) - f (entry_state e))"
  using store_ok_finite [OF assms]
  by (simp add: store_total_def sensors_Update map_total_insert map_total_update split: option.split)

lemma store_total_RecordError:
  assumes "store_ok s"
  shows "store_total f (RecordError sid s) = store_total f s +
    (case sensors s sid of None \<Rightarrow> 0
     | Some e \<Rightarrow> f ((entry_state e)\<lparr>st_ErrorCount := st_ErrorCount (entry_state e) + 1\<rparr>) - f (entry_state e))"
  using store_ok_finite [OF assms]
  by (simp add: store_total_def RecordError_def map_total_update split: option.split)

lemma store_total_RecordAnomaly:
  assumes "store_ok s"
  shows "store_total f (RecordAnomaly sid s) = store_total f s +
    (case sensors s sid of None \<Rightarrow> 0
     | Some e \<Rightarrow> f ((entry_state e)\<lparr>st_AnomalyCount := st_AnomalyCount (entry_state e) + 1\<rparr>) - f (entry_state e))"
  using store_ok_finite [OF assms]
  by (simp add: store_total_def RecordAnomaly_def map_total_update split: option.split)

text \<open>A stale scan changes no counter.\<close>

lemma store_total_CheckStale:
  assumes "\<And>st. f (st\<lparr>st_Status := StatusStale\<rparr>) = f st"
  shows "store_total f (snd (CheckStale sids now t s)) = store_total f s"
  unfolding store_total_def map_total_def dom_CheckStale
  by (rule sum.cong) (auto simp: sensors_CheckStale mark_stale_def assms)

lemma Get_CheckStale: "(Get sid (snd (CheckStale sids now t s)) \<noteq> None) = (Get sid s \<noteq> None)"
  by (simp add: Get_def sensors_CheckStale)

lemmas store_totals = store_total_Update store_total_RecordError store_total_RecordAnomaly

lemma Get_Update:
  "(Get sid (snd (Update now m s)) \<noteq> None) = (sid = SensorID m \<or> Get sid s \<noteq> None)"
  by (simp add: Get_def sensors_Update)

lemma Get_RecordError: "(Get sid (RecordError i s) \<noteq> None) = (Get sid s \<noteq> None)"
  by (auto simp: Get_def RecordError_def split: option.split)

lemma Get_RecordAnomaly: "(Get sid (RecordAnomaly i s) \<noteq> None) = (Get sid s \<noteq> None)"
  by (auto simp: Get_def RecordAnomaly_def split: option.split)

lemma update_known_counters:
  "st_MessageCount (entry_state (snd (update_known now m e))) = st_MessageCount (entry_state e) + 1"
  "st_DroppedCount (entry_state (snd (update_known now m e)))
     = st_DroppedCount (entry_state e) + ur_DroppedCount (fst (update_known now m e))"
  "st_DuplicateCount (entry_state (snd (update_known now m e)))
     = st_DuplicateCount (entry_state e) + of_bool (IsDuplicate (fst (update_known now m e)))"
  "st_OutOfOrderCount (entry_state (snd (update_known now m e)))
     = st_OutOfOrderCount (entry_state e) + of_bool (IsOutOfOrder (fst (update_known now m e)))"
  "st_ErrorCount (entry_state (snd (update_known now m e))) = st_ErrorCount (entry_state e)"
  "st_AnomalyCount (entry_state (snd (update_known now m e))) = st_AnomalyCount (entry_state e)"
  by (cases rule: update_known_split [of m e], simp_all add: store_simps no_result_def)+

interpretation store: sensor_store Update RecordError RecordAnomaly Get store_total store_ok
proof unfold_locales
  fix s :: StateStore and now m sid f
  assume ok: "store_ok s"
  show "store_ok (snd (Update now m s))" using store_ok_op [OF ok, of "OpUpdate now m"] by simp
  show "store_ok (RecordError sid s)" using store_ok_op [OF ok, of "OpError sid"] by simp
  show "store_ok (RecordAnomaly sid s)" using store_ok_op [OF ok, of "OpAnomaly sid"] by simp
next
  fix s sid i now m
  show "(Get sid (snd (Update now m s)) \<noteq> None) = (sid = SensorID m \<or> Get sid s \<noteq> None)"
    by (rule Get_Update)
  show "(Get sid (RecordError i s) \<noteq> None) = (Get sid s \<noteq> None)" by (rule Get_RecordError)
  show "(Get sid (RecordAnomaly i s) \<noteq> None) = (Get sid s \<noteq> None)" by (rule Get_RecordAnomaly)
qed (auto simp: store_totals fst_Update update_known_counters new_entry_def no_result_def Get_def
       split: option.split)

section \<open>Properties of the store\<close>

lemma reachable_entry:
  assumes "sensors (exec_ops ops NewStateStore) sid = Some e"
  shows "tracks (history sid ops) e" and "entry_ok sid e"
  using assms store_tracks_run [of ops] store_ok_run [of ops]
  by (simp_all add: store_tracks_def store_ok_def)

lemma unknown_iff_no_history:
  "sensors (exec_ops ops NewStateStore) sid = None \<longleftrightarrow> history sid ops = []"
  using store_tracks_run [of ops] by (auto simp: store_tracks_def tracks_def)

text \<open>
  Property C1. Whatever calls came before, \<open>Update\<close> classifies every message by the sensor's full
  history. It is new exactly when the sensor sent nothing before. Ahead of the highest number so
  far it is neither duplicate nor late, and the dropped count is the size of the gap. Otherwise it is
  a duplicate exactly when its number is recalled: it was received before, and since it last was
  either the highest number has not moved or it is at most 64 above. In all other cases it is out of
  order: a repeat the window has passed over is not recognised. Within 64 of the highest number
  duplicate therefore means received before and out of order means not received.
\<close>

theorem update_matches_history:
  fixes ops :: "store_op list" and now :: time and m :: TelemetryMessage
  defines "h \<equiv> history (SensorID m) ops"
    and "r \<equiv> fst (Update now m (exec_ops ops NewStateStore))"
  shows "(IsNewSensor r \<longleftrightarrow> h = []) \<and>
    (IsDuplicate r \<longleftrightarrow> h \<noteq> [] \<and> Sequence m \<le> highest h \<and> recalls h (Sequence m)) \<and>
    (IsOutOfOrder r \<longleftrightarrow> h \<noteq> [] \<and> Sequence m \<le> highest h \<and> \<not> recalls h (Sequence m)) \<and>
    unat (ur_DroppedCount r) =
      (if h \<noteq> [] \<and> highest h < Sequence m then unat (Sequence m) - unat (highest h) - 1 else 0) \<and>
    (unat (highest h) \<le> unat (Sequence m) + 64 \<longrightarrow> (recalls h (Sequence m) \<longleftrightarrow> Sequence m \<in> set h)) \<and>
    (recalls h (Sequence m) \<longrightarrow> Sequence m \<in> set h)"
proof (cases "sensors (exec_ops ops NewStateStore) (SensorID m)")
  case None
  then show ?thesis
    using unknown_iff_no_history [of ops "SensorID m"]
    by (simp add: h_def r_def fst_Update no_result_def)
next
  case (Some e)
  have t: "tracks h e" using reachable_entry(1) [OF Some] by (simp add: h_def)
  have r: "r = fst (update_known now m e)" by (simp add: r_def fst_Update Some)
  have "(IsNewSensor r \<longleftrightarrow> h = []) \<and>
    (IsDuplicate r \<longleftrightarrow> h \<noteq> [] \<and> Sequence m \<le> highest h \<and> recalls h (Sequence m)) \<and>
    (IsOutOfOrder r \<longleftrightarrow> h \<noteq> [] \<and> Sequence m \<le> highest h \<and> \<not> recalls h (Sequence m)) \<and>
    unat (ur_DroppedCount r) =
      (if h \<noteq> [] \<and> highest h < Sequence m then unat (Sequence m) - unat (highest h) - 1 else 0)"
  proof (cases rule: update_known_split [of m e])
    case duplicate
    then show ?thesis using t tracks_last_recent [OF t]
      by (auto simp: tracks_def r update_known_duplicate no_result_def)
  next
    case ahead
    then have "highest h < Sequence m" and "\<not> Sequence m \<le> highest h" using t
      by (simp_all add: tracks_def not_le)
    then show ?thesis using ahead t u64_succ_gap [of "highest h" "Sequence m"]
      by (simp add: tracks_def r update_known_ahead no_result_def)
  next
    case late
    then show ?thesis using t
      by (auto simp: tracks_def r update_known_late no_result_def)
  qed
  then show ?thesis using recalls_received recalls_near by blast
qed

definition sample_ops :: "store_op list" where
  "sample_ops = [OpUpdate 10 (gps_msg ''gps-1'' 41), OpUpdate 20 (gps_msg ''gps-1'' 44),
                 OpUpdate 30 (gps_msg ''gps-1'' 42)]"

lemma sample_history: "history ''gps-1'' sample_ops = [42, 44, 41]"
  by (simp add: history_def sample_ops_def)

text \<open>The second 5 comes when the mark has moved 65 on, the second 40 when it is 30 on.\<close>

definition far_ops :: "store_op list" where
  "far_ops = [OpUpdate 10 (gps_msg ''gps-1'' 5), OpUpdate 20 (gps_msg ''gps-1'' 40), OpUpdate 30 (gps_msg ''gps-1'' 70)]"

lemma far_history: "history ''gps-1'' far_ops = [70, 40, 5]"
  by (simp add: history_def far_ops_def)

theorem update_matches_history_witness:
  "highest (history ''gps-1'' sample_ops) = 44 \<and>
   IsDuplicate (fst (Update 40 (gps_msg ''gps-1'' 42) (exec_ops sample_ops NewStateStore))) \<and>
   IsOutOfOrder (fst (Update 40 (gps_msg ''gps-1'' 43) (exec_ops sample_ops NewStateStore))) \<and>
   unat (ur_DroppedCount (fst (Update 40 (gps_msg ''gps-1'' 50) (exec_ops sample_ops NewStateStore)))) = 5 \<and>
   IsOutOfOrder (fst (Update 40 (gps_msg ''gps-1'' 5) (exec_ops far_ops NewStateStore))) \<and>
   IsDuplicate (fst (Update 40 (gps_msg ''gps-1'' 40) (exec_ops far_ops NewStateStore)))"
  using update_matches_history [of 40 "gps_msg ''gps-1'' 42" sample_ops]
    update_matches_history [of 40 "gps_msg ''gps-1'' 43" sample_ops]
    update_matches_history [of 40 "gps_msg ''gps-1'' 50" sample_ops]
    update_matches_history [of 40 "gps_msg ''gps-1'' 5" far_ops]
    update_matches_history [of 40 "gps_msg ''gps-1'' 40" far_ops]
  by (simp add: sample_history far_history recalls_def mark_at_def max_def)

lemma counters_of_history:
  assumes "Get sid (exec_ops os NewStateStore) = Some st"
  shows "st_MessageCount st = of_nat (length (history sid os))"
    and "st_LastSequence st = highest (history sid os)"
    and "st_DuplicateCount st + st_OutOfOrderCount st + of_nat (advances (history sid os)) = st_MessageCount st"
    and "unat (st_DroppedCount st) + advances (history sid os)
      = unat (highest (history sid os)) - unat (last (history sid os)) + 1"
  using assms reachable_entry(1) [of os] by (fastforce simp: Get_def tracks_def)+

text \<open>
  Property C2. The counters of a sensor account for every message exactly: the message count is
  the number of messages, the last sequence is the highest, the dropped count (which never
  wraps) is the number of sequence numbers from the first to the highest, less those that
  advanced the high-water mark, and duplicates, late messages and advancing messages add up
  to the message count.
\<close>

theorem counters_account_for_history:
  assumes "Get sid (exec_ops ops NewStateStore) = Some st"
  shows "st_MessageCount st = of_nat (length (history sid ops)) \<and>
    st_LastSequence st = highest (history sid ops) \<and>
    unat (st_DroppedCount st) + advances (history sid ops)
      = unat (highest (history sid ops)) - unat (last (history sid ops)) + 1 \<and>
    st_DuplicateCount st + st_OutOfOrderCount st + of_nat (advances (history sid ops))
      = st_MessageCount st"
  using assms reachable_entry(1) by (fastforce simp: Get_def tracks_def)

theorem counters_account_for_history_witness:
  "\<exists>st. Get ''gps-1'' (exec_ops sample_ops NewStateStore) = Some st \<and>
     st_LastSequence st = 44 \<and> unat (st_DroppedCount st) + 2 = 4"
proof -
  obtain st where st: "Get ''gps-1'' (exec_ops sample_ops NewStateStore) = Some st"
    using unknown_iff_no_history [of sample_ops "''gps-1''"] sample_history
    by (auto simp: Get_def)
  show ?thesis
    using counters_account_for_history [OF st] st by (simp add: sample_history max_def)
qed

text \<open>
  After a message that moves a sensor's high-water mark, the remembered sequence
  numbers all lie in the window of 64 behind the mark: there are at most 65 of them.
\<close>

theorem recent_window_bounded:
  assumes "entry_ok sid e" and "st_LastSequence (entry_state e) < Sequence m"
  shows "card (recentSeqs (snd (update_known now m e))) \<le> 65 \<and>
    (\<forall>x\<in>recentSeqs (snd (update_known now m e)).
       x \<le> Sequence m \<and> unat (Sequence m) \<le> unat x + 64)"
proof -
  let ?R = "recentSeqs (snd (update_known now m e))"
  have R: "\<forall>x\<in>?R. x \<le> Sequence m \<and> unat (Sequence m) \<le> unat x + 64"
    using assms by (auto simp: entry_ok_def update_known_ahead recentSeqs_prune
        intro: order_trans [OF _ less_imp_le])
  then have "unat ` ?R \<subseteq> {unat (Sequence m) - 64 .. unat (Sequence m)}"
    by (auto simp: word_le_nat_alt)
  then have "card (unat ` ?R) \<le> card {unat (Sequence m) - 64 .. unat (Sequence m)}"
    by (intro card_mono) simp_all
  also have "\<dots> \<le> 65" by simp
  finally have "card (unat ` ?R) \<le> 65" .
  moreover have "inj_on unat ?R" by (rule inj_onI) (simp add: word_unat_eq_iff)
  ultimately have "card ?R \<le> 65" by (simp add: card_image)
  with R show ?thesis by blast
qed

theorem recent_window_bounded_witness:
  "card (recentSeqs (snd (update_known 7 (gps_msg ''gps-1'' 200) (new_entry 5 (gps_msg ''gps-1'' 1))))) \<le> 65"
proof -
  have "entry_ok (SensorID (gps_msg ''gps-1'' 1)) (new_entry 5 (gps_msg ''gps-1'' 1))"
    by (rule entry_ok_new)
  then show ?thesis
    using recent_window_bounded [of _ "new_entry 5 (gps_msg ''gps-1'' 1)" "gps_msg ''gps-1'' 200" 7]
    by (simp add: new_entry_def)
qed

text \<open>
  Late messages are remembered without pruning: \<open>k\<close> messages with distinct
  sequence numbers below a fresh sensor's only one leave \<open>k + 1\<close> remembered numbers, however
  far behind the window they are. The bound of the window holds only right after the mark moves.
\<close>

theorem late_messages_grow_memory:
  assumes "distinct qs" and "\<forall>q\<in>set qs. q < Sequence m0"
  shows "card (recentSeqs (fold (\<lambda>q e. snd (update_known now (m0\<lparr>Sequence := q\<rparr>) e)) qs (new_entry now m0)))
    = Suc (length qs)"
proof -
  have "st_LastSequence (entry_state (fold (\<lambda>q e. snd (update_known now (m0\<lparr>Sequence := q\<rparr>) e)) qs (new_entry now m0)))
      = Sequence m0 \<and>
    recentSeqs (fold (\<lambda>q e. snd (update_known now (m0\<lparr>Sequence := q\<rparr>) e)) qs (new_entry now m0))
      = insert (Sequence m0) (set qs)"
    using assms
  proof (induction qs rule: rev_induct)
    case Nil
    then show ?case by (simp add: new_entry_def)
  next
    case (snoc q qs)
    then show ?case by (auto simp: update_known_late)
  qed
  then show ?thesis using assms by (auto simp: distinct_card card_insert_if)
qed

theorem late_messages_grow_memory_witness:
  "card (recentSeqs (fold (\<lambda>q e. snd (update_known 5 ((gps_msg ''g'' 1000)\<lparr>Sequence := q\<rparr>) e))
     [1, 2, 3] (new_entry 5 (gps_msg ''g'' 1000)))) = 4"
  using late_messages_grow_memory [of "[1, 2, 3]" "gps_msg ''g'' 1000" 5] by simp

text \<open>\<open>CheckStale\<close> reports the sensors in visiting order.\<close>

lemma fst_CheckStale:
  assumes "distinct sids" and "\<And>sid e. sensors s sid = Some e \<Longrightarrow> st_SensorID (entry_state e) = sid"
  shows "fst (CheckStale sids now t s) =
    filter (\<lambda>sid. case sensors s sid of None \<Rightarrow> False | Some e \<Rightarrow> stale_entry now t e) sids"
  using assms
proof (induction sids arbitrary: s)
  case (Cons i sids)
  have IH: "fst (CheckStale sids now t s') =
      filter (\<lambda>sid. case sensors s sid of None \<Rightarrow> False | Some e \<Rightarrow> stale_entry now t e) sids"
    if "s' = s \<or> (\<exists>e. sensors s i = Some e \<and> s' = s\<lparr>sensors := (sensors s)(i \<mapsto> mark_stale e)\<rparr>)" for s'
  proof -
    have "fst (CheckStale sids now t s') =
      filter (\<lambda>sid. case sensors s' sid of None \<Rightarrow> False | Some e \<Rightarrow> stale_entry now t e) sids"
      using Cons.prems that by (intro Cons.IH) (auto simp: mark_stale_def split: if_splits)
    also have "\<dots> = filter (\<lambda>sid. case sensors s sid of None \<Rightarrow> False | Some e \<Rightarrow> stale_entry now t e) sids"
      using Cons.prems(1) that by (intro filter_cong) (auto split: if_splits)
    finally show ?thesis .
  qed
  show ?case
    using Cons.prems IH by (auto simp: case_prod_unfold Let_def split: option.split)
qed simp

text \<open>
  Property C3. One scan reports exactly the healthy sensors whose last message is older than
  the timeout, each once, and leaves exactly them and the ones already stale marked stale; the
  counters are untouched; a second scan at the same time reports nothing, so a transition is
  reported once.
\<close>

theorem check_stale_transitions:
  assumes "store_ok s" and "map_order sids s" and "map_order sids' s"
    and "min_int64 \<le> t" and "t < max_int64"
  shows "distinct (fst (CheckStale sids now t s)) \<and>
    (\<forall>sid. sid \<in> set (fst (CheckStale sids now t s)) \<longleftrightarrow>
      (\<exists>st. Get sid s = Some st \<and> st_Status st = StatusHealthy \<and> now - st_LastSeen st > t)) \<and>
    (\<forall>sid st. Get sid s = Some st \<longrightarrow> Get sid (snd (CheckStale sids now t s)) =
      Some (if sid \<in> set (fst (CheckStale sids now t s)) then st\<lparr>st_Status := StatusStale\<rparr> else st)) \<and>
    fst (CheckStale sids' now t (snd (CheckStale sids now t s))) = []"
proof -
  have ids: "\<And>sid e. sensors s sid = Some e \<Longrightarrow> st_SensorID (entry_state e) = sid"
    and status: "\<And>sid e. sensors s sid = Some e \<Longrightarrow>
      (st_Status (entry_state e) \<noteq> StatusStale) = (st_Status (entry_state e) = StatusHealthy)"
    using assms(1) by (auto simp: store_ok_def entry_ok_def StatusHealthy_def StatusStale_def)
  have d: "distinct sids" "distinct sids'" "set sids = dom (sensors s)"
    using assms(2,3) by (auto simp: map_order_def)
  note rep = fst_CheckStale [where s = s and now = now and t = t, OF d(1) ids]
  have stale: "stale_entry now t e \<longleftrightarrow> st_Status (entry_state e) = StatusHealthy \<and>
      now - st_LastSeen (entry_state e) > t" if "sensors s sid = Some e" for sid e
    using status [OF that] Sub_le [OF assms(5,4)] by (auto simp: stale_entry_def)
  have "\<forall>sid. sid \<in> set (fst (CheckStale sids now t s)) \<longleftrightarrow>
      (\<exists>st. Get sid s = Some st \<and> st_Status st = StatusHealthy \<and> now - st_LastSeen st > t)"
    using d(3) stale by (auto simp: rep Get_def split: option.splits)
  moreover have "\<forall>sid st. Get sid s = Some st \<longrightarrow> Get sid (snd (CheckStale sids now t s)) =
      Some (if sid \<in> set (fst (CheckStale sids now t s)) then st\<lparr>st_Status := StatusStale\<rparr> else st)"
    by (auto simp: rep Get_def sensors_CheckStale mark_stale_def split: option.splits)
  moreover have "fst (CheckStale sids' now t (snd (CheckStale sids now t s))) = []"
  proof -
    let ?s = "snd (CheckStale sids now t s)"
    have "st_SensorID (entry_state e) = sid \<and> \<not> stale_entry now t e"
      if se: "sensors ?s sid = Some e" for sid e
    proof -
      obtain e0 where e0: "sensors s sid = Some e0"
        and e: "e = (if sid \<in> set sids \<and> stale_entry now t e0 then mark_stale e0 else e0)"
        using se by (auto simp: sensors_CheckStale)
      have "sid \<in> set sids" using e0 d(3) by auto
      then show ?thesis using ids [OF e0] by (simp add: e mark_stale_idle)
    qed
    then show ?thesis using fst_CheckStale [where s = ?s and now = now and t = t, OF d(2)]
      by (auto simp: filter_empty_conv split: option.split)
  qed
  ultimately show ?thesis using d(1) by (simp add: rep)
qed

definition sample_store :: StateStore where
  "sample_store = exec_ops [OpUpdate 10 (gps_msg ''a'' 1), OpUpdate 90 (gps_msg ''b'' 1)] NewStateStore"

lemma sample_store_sensors:
  "sensors sample_store = [''a'' \<mapsto> new_entry 10 (gps_msg ''a'' 1), ''b'' \<mapsto> new_entry 90 (gps_msg ''b'' 1)]"
  by (simp add: sample_store_def exec_ops_def Update_def NewStateStore_def)

theorem check_stale_transitions_witness:
  "set (fst (CheckStale [''a'', ''b''] 100 50 sample_store)) = {''a''} \<and>
   fst (CheckStale [''b'', ''a''] 100 50 (snd (CheckStale [''a'', ''b''] 100 50 sample_store))) = []"
proof -
  have "store_ok sample_store" by (simp add: sample_store_def store_ok_run)
  moreover have "map_order [''a'', ''b''] sample_store" "map_order [''b'', ''a''] sample_store"
    by (auto simp: map_order_def sample_store_sensors)
  moreover have "min_int64 \<le> 50" "(50 :: int) < max_int64" by simp_all
  ultimately have
    "(\<forall>sid. sid \<in> set (fst (CheckStale [''a'', ''b''] 100 50 sample_store)) \<longleftrightarrow>
      (\<exists>st. Get sid sample_store = Some st \<and> st_Status st = StatusHealthy \<and> 100 - st_LastSeen st > 50)) \<and>
     fst (CheckStale [''b'', ''a''] 100 50 (snd (CheckStale [''a'', ''b''] 100 50 sample_store))) = []"
    using check_stale_transitions [of sample_store "[''a'', ''b'']" "[''b'', ''a'']" 50 100] by blast
  moreover have "(\<exists>st. Get sid sample_store = Some st \<and> st_Status st = StatusHealthy \<and> 100 - st_LastSeen st > 50)
      \<longleftrightarrow> sid = ''a''" for sid
    by (simp add: Get_def sample_store_sensors new_entry_def)
  ultimately show ?thesis by auto
qed

fun op_sensor :: "store_op \<Rightarrow> bytes set" where
  "op_sensor (OpUpdate now m) = {SensorID m}"
| "op_sensor _ = {}"

lemma history_nonempty_iff: "history sid ops \<noteq> [] \<longleftrightarrow> (\<exists>p\<in>set ops. sid \<in> op_sensor p)"
proof (induction ops rule: rev_induct)
  case (snoc p ops)
  then show ?case by (cases p) (auto simp: history_snoc)
qed (simp add: history_def)

text \<open>
  The store knows exactly the sensors that ever sent a message: \<open>Count\<close> is
  their number and \<open>List\<close> returns one state for each, in any iteration order of the map.
\<close>

theorem known_sensors_counted:
  assumes "map_order sids (exec_ops ops NewStateStore)"
  shows "Count (exec_ops ops NewStateStore) = card (\<Union> (op_sensor ` set ops)) \<and>
    map st_SensorID (List sids (exec_ops ops NewStateStore)) = sids \<and>
    length (List sids (exec_ops ops NewStateStore)) = Count (exec_ops ops NewStateStore)"
proof -
  let ?s = "exec_ops ops NewStateStore"
  have "dom (sensors ?s) = \<Union> (op_sensor ` set ops)"
    using unknown_iff_no_history [of ops] history_nonempty_iff [of _ ops] by (auto simp: dom_def)
  moreover have "map st_SensorID (List sids ?s) = sids"
    unfolding List_def map_map
    using assms reachable_entry(2) [of ops]
    by (intro map_idI) (fastforce simp: map_order_def entry_ok_def)
  moreover have "length sids = card (dom (sensors ?s))"
    using assms distinct_card [of sids] by (simp add: map_order_def)
  ultimately show ?thesis
    by (simp add: Count_def List_def)
qed

theorem known_sensors_counted_witness:
  "Count sample_store = 2 \<and> map st_SensorID (List [''b'', ''a''] sample_store) = [''b'', ''a'']"
proof -
  have "map_order [''b'', ''a''] sample_store" by (auto simp: map_order_def sample_store_sensors)
  then show ?thesis
    using known_sensors_counted [of "[''b'', ''a'']"
        "[OpUpdate 10 (gps_msg ''a'' 1), OpUpdate 90 (gps_msg ''b'' 1)]"]
    by (simp add: sample_store_def)
qed

text \<open>
  Any message for a sensor, even a duplicate or a late one, revives it: its status
  is healthy again and its last-seen time is the time of the update, while every other sensor
  keeps its state.
\<close>

theorem update_revives:
  "(\<exists>st. Get (SensorID m) (snd (Update now m s)) = Some st \<and>
      st_Status st = StatusHealthy \<and> st_LastSeen st = now) \<and>
   (\<forall>sid. sid \<noteq> SensorID m \<longrightarrow> Get sid (snd (Update now m s)) = Get sid s)"
proof (cases "sensors s (SensorID m)")
  case None
  then show ?thesis by (simp add: Get_def sensors_Update new_entry_def)
next
  case (Some e)
  then show ?thesis
    by (cases rule: update_known_split [of m e]) (simp_all add: Get_def sensors_Update store_simps)
qed

theorem update_revives_witness:
  "Get ''b'' (snd (Update 200 (gps_msg ''a'' 1) sample_store)) = Get ''b'' sample_store"
  using update_revives [of "gps_msg ''a'' 1" 200 sample_store] by simp

end
