(* ===== verification/Latency.thy ===== *)
theory Latency
  imports Go_Float Go_Time "HOL-Library.Multiset"
begin

text \<open>
  internal/metrics/latency.go: the circular buffer of latency samples and its percentile
  summary. Each method holds the recorder's mutex, so each is one atomic function. Go panics on
  an index out of range, which is None here.
\<close>

section \<open>State and operations\<close>

definition defaultCapacity :: goint where "defaultCapacity = 10000"

record LatencyRecorder =
  samples :: "duration list"
  nextix :: nat
  full :: bool

definition NewLatencyRecorder :: "goint \<Rightarrow> LatencyRecorder" where
  "NewLatencyRecorder capacity =
     (let capacity = (if capacity \<le> 0 then defaultCapacity else capacity)
      in \<lparr>samples = replicate (nat capacity) 0, nextix = 0, full = False\<rparr>)"

definition Record :: "duration \<Rightarrow> LatencyRecorder \<Rightarrow> LatencyRecorder option" where
  "Record d r =
     (if nextix r < length (samples r) then
        (let r = r\<lparr>samples := (samples r)[nextix r := d]\<rparr>;
             r = r\<lparr>nextix := nextix r + 1\<rparr>
         in if nextix r = length (samples r) then Some (r\<lparr>nextix := 0, full := True\<rparr>) else Some r)
      else None)"

record Snapshot =
  sn_Count :: nat
  sn_Min :: duration
  sn_P50 :: duration
  sn_P95 :: duration
  sn_P99 :: duration
  sn_Max :: duration

definition zero_Snapshot :: Snapshot where
  "zero_Snapshot = \<lparr>sn_Count = 0, sn_Min = 0, sn_P50 = 0, sn_P95 = 0, sn_P99 = 0, sn_Max = 0\<rparr>"

text \<open>The closure \<open>percentile\<close>: \<open>int(p * float64(n-1))\<close> in float64 arithmetic.\<close>

definition percentile_ix :: "float64 \<Rightarrow> nat \<Rightarrow> goint option" where
  "percentile_ix p n = int_of_float (fmul p (float_of_int (int n - 1)))"

definition percentile :: "duration list \<Rightarrow> float64 \<Rightarrow> duration option" where
  "percentile data p = (case percentile_ix p (length data) of
       None \<Rightarrow> None
     | Some i \<Rightarrow> if 0 \<le> i \<and> i < int (length data) then Some (data ! nat i) else None)"

definition TakeSnapshot :: "LatencyRecorder \<Rightarrow> Snapshot option" where
  "TakeSnapshot r =
     (let n = (if full r then length (samples r) else nextix r);
          data = take n (samples r)
      in if n = 0 then Some zero_Snapshot
         else let data = sort data in
           (case (percentile data (round64 (50 / 100)), percentile data (round64 (95 / 100)),
                  percentile data (round64 (99 / 100))) of
              (Some p50, Some p95, Some p99) \<Rightarrow>
                Some \<lparr>sn_Count = n, sn_Min = data ! 0, sn_P50 = p50, sn_P95 = p95, sn_P99 = p99,
                      sn_Max = data ! (n - 1)\<rparr>
            | _ \<Rightarrow> None))"

section \<open>The buffer holds the newest samples\<close>

definition lastn :: "nat \<Rightarrow> 'a list \<Rightarrow> 'a list" where
  "lastn c h = drop (length h - c) h"

lemma length_lastn [simp]: "length (lastn c h) = min (length h) c"
  by (simp add: lastn_def)

lemma lastn_short: "length h \<le> c \<Longrightarrow> lastn c h = h"
  by (simp add: lastn_def)

lemma lastn_snoc:
  "0 < c \<Longrightarrow> lastn c (h @ [d]) = (if length h < c then lastn c h @ [d] else tl (lastn c h) @ [d])"
  by (auto simp: lastn_def Suc_diff_le drop_Suc tl_drop)

lemma lastn_lastn: "lastn c (lastn c h @ ds) = lastn c (h @ ds)"
  by (cases "length h \<le> c") (auto simp: lastn_def add.commute)

text \<open>A window onto a stream of samples: what a recorder promises its clients.\<close>

locale sample_window =
  fixes rcd :: "'d \<Rightarrow> 's \<Rightarrow> 's option"
    and held :: "'s \<Rightarrow> 'd list"
    and cap :: "'s \<Rightarrow> nat"
    and inv :: "'s \<Rightarrow> bool"
  assumes cap_pos: "inv s \<Longrightarrow> 0 < cap s"
    and held_le: "inv s \<Longrightarrow> length (held s) \<le> cap s"
    and rcd_ok: "inv s \<Longrightarrow> \<exists>s'. rcd d s = Some s' \<and> inv s' \<and> cap s' = cap s \<and>
      held s' = lastn (cap s) (held s @ [d])"
begin

text \<open>Recording a list of samples never fails and keeps the newest of all of them.\<close>

lemma rcds_ok:
  assumes "inv s"
  shows "\<exists>s'. fold (\<lambda>d o'. Option.bind o' (rcd d)) ds (Some s) = Some s' \<and> inv s' \<and>
    cap s' = cap s \<and> held s' = lastn (cap s) (held s @ ds)"
  using assms
proof (induction ds arbitrary: s)
  case Nil
  then show ?case using held_le [OF Nil] by (simp add: lastn_short)
next
  case (Cons d ds)
  obtain s1 where s1: "rcd d s = Some s1" "inv s1" "cap s1 = cap s" "held s1 = lastn (cap s) (held s @ [d])"
    using rcd_ok [OF Cons.prems] by blast
  then show ?case using Cons.IH [OF s1(2)] lastn_lastn [of "cap s" "held s @ [d]" ds] by simp
qed

lemma rcd_length:
  assumes "inv s" and "rcd d s = Some s'"
  shows "length (held s') = min (Suc (length (held s))) (cap s)"
  using rcd_ok [OF assms(1), of d] assms(2) by auto

end

text \<open>The samples in the order they were recorded, and the invariant of the recorder.\<close>

definition held_samples :: "LatencyRecorder \<Rightarrow> duration list" where
  "held_samples r = (if full r then drop (nextix r) (samples r) @ take (nextix r) (samples r)
                     else take (nextix r) (samples r))"

definition recorder_ok :: "LatencyRecorder \<Rightarrow> bool" where
  "recorder_ok r = (nextix r < length (samples r))"

abbreviation capacity_of :: "LatencyRecorder \<Rightarrow> nat" where
  "capacity_of r \<equiv> length (samples r)"

lemma Record_held:
  assumes "recorder_ok r"
  shows "\<exists>r'. Record d r = Some r' \<and> recorder_ok r' \<and> capacity_of r' = capacity_of r \<and>
    held_samples r' = lastn (capacity_of r) (held_samples r @ [d])"
proof -
  let ?n = "nextix r" and ?xs = "samples r"
  have n: "?n < length ?xs" using assms by (simp add: recorder_ok_def)
  have upd: "take (Suc ?n) (?xs[?n := d]) = take ?n ?xs @ [d]"
    using n by (simp add: take_Suc_conv_app_nth)
  have dr: "drop (Suc ?n) (?xs[?n := d]) = drop (Suc ?n) ?xs" by simp
  have tl: "tl (drop ?n ?xs @ take ?n ?xs) = drop (Suc ?n) ?xs @ take ?n ?xs"
    using n by (simp add: drop_Suc tl_drop)
  have last: "held_samples r' = lastn (capacity_of r) (held_samples r @ [d])"
    if "held_samples r' = (if full r then drop (Suc ?n) ?xs @ take ?n ?xs @ [d] else take ?n ?xs @ [d])" for r'
  proof -
    have "0 < capacity_of r" by (rule le_less_trans [OF le0 n])
    then show ?thesis using that n tl
      by (simp add: held_samples_def lastn_snoc lastn_short)
  qed
  show ?thesis
  proof (cases "Suc ?n = length ?xs")
    case True
    let ?r = "r\<lparr>samples := ?xs[?n := d], nextix := 0, full := True\<rparr>"
    have rec: "Record d r = Some ?r" using n True by (simp add: Record_def)
    have "held_samples ?r = take ?n ?xs @ [d]" using upd True by (simp add: held_samples_def)
    then have "held_samples ?r = lastn (capacity_of r) (held_samples r @ [d])"
      using True by (intro last) simp
    then show ?thesis using rec n by (intro exI [of _ ?r]) (auto simp: recorder_ok_def)
  next
    case False
    let ?r = "r\<lparr>samples := ?xs[?n := d], nextix := Suc ?n\<rparr>"
    have rec: "Record d r = Some ?r" using n False by (simp add: Record_def)
    have "held_samples ?r = (if full r then drop (Suc ?n) ?xs @ take ?n ?xs @ [d] else take ?n ?xs @ [d])"
      using upd dr by (simp add: held_samples_def)
    then have "held_samples ?r = lastn (capacity_of r) (held_samples r @ [d])" by (rule last)
    then show ?thesis using rec n False by (intro exI [of _ ?r]) (simp add: recorder_ok_def)
  qed
qed

interpretation latency: sample_window Record held_samples "\<lambda>r. length (samples r)" recorder_ok
proof unfold_locales
  fix r d
  assume ok: "recorder_ok r"
  show "0 < length (samples r)" using ok by (auto simp: recorder_ok_def)
  show "length (held_samples r) \<le> length (samples r)" using ok
    by (simp add: recorder_ok_def held_samples_def)
  show "\<exists>r'. Record d r = Some r' \<and> recorder_ok r' \<and> length (samples r') = length (samples r) \<and>
      held_samples r' = lastn (length (samples r)) (held_samples r @ [d])"
    by (rule Record_held [OF ok])
qed

lemma NewLatencyRecorder_ok [simp]:
  "recorder_ok (NewLatencyRecorder c)" "held_samples (NewLatencyRecorder c) = []"
  "capacity_of (NewLatencyRecorder c) = nat (if c \<le> 0 then defaultCapacity else c)"
  by (simp_all add: recorder_ok_def NewLatencyRecorder_def defaultCapacity_def held_samples_def Let_def)

section \<open>Percentile indices\<close>

lemma float_lit_lt1:
  assumes "0 \<le> q" and "q \<le> 1"
  shows "\<exists>v. round64 q = Fin v \<and> 0 \<le> v \<and> v \<le> 1"
  using round64_ge [of 0 q] round64_le [of q 1] representable_of_int [of 0] representable_of_int [of 1] assms
  by (cases "round64 q") (auto simp: fle_def)

lemma trunc_rat_mono: "0 \<le> a \<Longrightarrow> a \<le> b \<Longrightarrow> trunc_rat a \<le> trunc_rat b"
  by (simp add: trunc_rat_def floor_mono)

text \<open>
  For up to \<open>2 ^ 53\<close> samples the index of a percentile between 0 and 1 is in range, and it
  grows with the percentile.
\<close>

lemma percentile_product:
  assumes "0 < n" and "n \<le> 2 ^ 53" and "0 \<le> v" and "v \<le> 1"
  shows "\<exists>w. fmul (Fin v) (float_of_int (int n - 1)) = Fin w \<and>
    round64 (v * of_int (int n - 1)) = Fin w \<and> 0 \<le> w \<and> w \<le> of_int (int n - 1)"
proof -
  have b: "\<bar>int n - 1\<bar> \<le> 2 ^ 53" using assms(1,2) by simp
  have "v * of_int (int n - 1) \<le> 1 * of_int (int n - 1)"
    using assms(1,4) by (intro mult_right_mono) simp_all
  then have "fle (round64 (v * of_int (int n - 1))) (Fin (of_int (int n - 1)))"
    using b by (intro round64_le representable_of_int small_int_lt_top) simp_all
  moreover have "fle (Fin 0) (round64 (v * of_int (int n - 1)))"
    using round64_ge [of 0 "v * of_int (int n - 1)"] representable_of_int [of 0] assms(1,3) by simp
  ultimately show ?thesis
    by (cases "round64 (v * of_int (int n - 1))") (auto simp: fmul_def float_of_int_exact [OF b] fle_def)
qed

lemma percentile_ix_ok:
  assumes "0 < n" and "n \<le> 2 ^ 53" and "0 \<le> q" and "q \<le> 1"
  shows "\<exists>i. percentile_ix (round64 q) n = Some i \<and> 0 \<le> i \<and> i < int n"
proof -
  obtain v where v: "round64 q = Fin v" "0 \<le> v" "v \<le> 1" using float_lit_lt1 [OF assms(3,4)] by blast
  obtain w where w: "fmul (Fin v) (float_of_int (int n - 1)) = Fin w" "0 \<le> w" "w \<le> of_int (int n - 1)"
    using percentile_product [OF assms(1,2) v(2,3)] by blast
  define k where "k = \<lfloor>w\<rfloor>"
  have "0 \<le> k" "k \<le> int n - 1" unfolding k_def using w(2,3) by (simp_all add: floor_le_iff) linarith
  moreover have "int n \<le> 9007199254740992" using assms(2) by simp
  ultimately have "0 \<le> k" "k < int n" "min_int64 \<le> k \<and> k \<le> max_int64" by auto
  then show ?thesis using w
    by (simp add: percentile_ix_def v(1) int_of_float_def trunc_rat_def flip: k_def)
qed

lemma percentile_ix_mono:
  assumes "0 < n" and "n \<le> 2 ^ 53" and "0 \<le> p" and "p \<le> q" and "q \<le> 1"
    and "percentile_ix (round64 p) n = Some i" and "percentile_ix (round64 q) n = Some j"
  shows "i \<le> j"
proof -
  obtain v where v: "round64 p = Fin v" "0 \<le> v" "v \<le> 1" using float_lit_lt1 [of p] assms(3-5) by auto
  obtain u where u: "round64 q = Fin u" "0 \<le> u" "u \<le> 1" using float_lit_lt1 [of q] assms(3-5) by auto
  have "v \<le> u" using round64_mono [OF assms(4)] v(1) u(1) by (auto simp: fle_def)
  then have "v * of_int (int n - 1) \<le> u * of_int (int n - 1)"
    using assms(1) by (intro mult_right_mono) simp_all
  note mono = round64_mono [OF this]
  obtain w where w: "fmul (Fin v) (float_of_int (int n - 1)) = Fin w"
      "round64 (v * of_int (int n - 1)) = Fin w" "0 \<le> w"
    using percentile_product [OF assms(1,2) v(2,3)] by blast
  obtain x where x: "fmul (Fin u) (float_of_int (int n - 1)) = Fin x"
      "round64 (u * of_int (int n - 1)) = Fin x"
    using percentile_product [OF assms(1,2) u(2,3)] by blast
  have "w \<le> x" using mono w(2) x(2) by (auto simp: fle_def)
  then have "trunc_rat w \<le> trunc_rat x" using w(3) by (rule trunc_rat_mono [rotated])
  then show ?thesis using assms(6,7) w(1) x(1)
    by (auto simp: percentile_ix_def v(1) u(1) int_of_float_def Let_def split: if_splits)
qed

lemma median_ix:
  assumes "0 < n" and "n \<le> 2 ^ 53"
  shows "percentile_ix (round64 (50 / 100)) n = Some ((int n - 1) div 2)"
proof -
  define k where "k = int n - 1"
  have k: "0 \<le> k" "k \<le> 2 ^ 53" using assms by (simp_all add: k_def)
  have half: "round64 (1 / 2) = Fin (1 / 2)" by code_simp
  have "representable (of_int k / 2)"
    unfolding representable_def using k
    by (intro exI [of _ k] exI [of _ "- 1"]) (simp add: power_int_minus)
  moreover have "\<bar>of_int k / 2 :: rat\<bar> < 2 ^ 1024"
  proof -
    have "(of_int k :: rat) \<le> of_int (2 ^ 53)" using k(2) by (simp only: of_int_le_iff)
    then show ?thesis using k(1) by simp
  qed
  ultimately have "round64 (1 / 2 * of_int k) = Fin (of_int k / 2)"
    using round64_exact [of "of_int k / 2"] by simp
  moreover have "float_of_int k = Fin (of_int k)" using k by (intro float_of_int_exact) simp
  ultimately have m: "fmul (Fin (1 / 2)) (float_of_int k) = Fin (of_int k / 2)"
    by (simp add: fmul_def)
  have fl: "\<lfloor>of_int k / 2 :: rat\<rfloor> = k div 2"
    using floor_divide_of_int_eq [of k 2, where 'a = rat] by simp
  have "min_int64 \<le> k div 2 \<and> k div 2 \<le> max_int64" using k by auto
  then show ?thesis using k fl
    by (simp add: percentile_ix_def half m int_of_float_def trunc_rat_def flip: k_def)
qed

lemma percentile_at:
  assumes "data \<noteq> []" and "length data \<le> 2 ^ 53" and "0 \<le> q" and "q \<le> 1"
  obtains i where "percentile_ix (round64 q) (length data) = Some (int i)" "i < length data"
    "percentile data (round64 q) = Some (data ! i)"
proof -
  obtain j where j: "percentile_ix (round64 q) (length data) = Some j" "0 \<le> j" "j < int (length data)"
    using percentile_ix_ok [of "length data" q] assms by auto
  then show thesis using that [of "nat j"] by (simp add: percentile_def)
qed

section \<open>Properties of the recorder\<close>

definition record_all :: "duration list \<Rightarrow> LatencyRecorder \<Rightarrow> LatencyRecorder option" where
  "record_all ds r = fold (\<lambda>d o'. Option.bind o' (Record d)) ds (Some r)"

lemma TakeSnapshot_empty: "TakeSnapshot (NewLatencyRecorder c) = Some zero_Snapshot"
  by (simp add: TakeSnapshot_def NewLatencyRecorder_def Let_def)

text \<open>
  Property C4. Recording never indexes out of range: any list of samples, recorded into a new
  recorder of any requested capacity, is accepted, and the buffer then holds exactly the newest
  of them, as many as its capacity, in the order they came.
\<close>

theorem record_keeps_newest:
  "\<exists>r. record_all ds (NewLatencyRecorder c) = Some r \<and> recorder_ok r \<and>
     capacity_of r = nat (if c \<le> 0 then defaultCapacity else c) \<and>
     held_samples r = lastn (capacity_of r) ds"
  using latency.rcds_ok [of "NewLatencyRecorder c" ds] by (auto simp: record_all_def)

text \<open>The sorted samples of a recorder do not depend on where its write position is.\<close>

lemma sort_buffer:
  assumes "recorder_ok r"
  shows "sort (take (if full r then capacity_of r else nextix r) (samples r)) = sort (held_samples r)"
proof (cases "full r")
  case True
  have "mset (samples r) = mset (drop (nextix r) (samples r) @ take (nextix r) (samples r))"
    by (metis append_take_drop_id mset_append add.commute)
  then have "sort (samples r) = sort (drop (nextix r) (samples r) @ take (nextix r) (samples r))"
    by (intro properties_for_sort) simp_all
  then show ?thesis using True by (simp add: held_samples_def)
qed (simp add: held_samples_def)

text \<open>The summary of a non-empty list of samples, as the specification of \<open>Snapshot\<close>.\<close>

definition summarises :: "Snapshot \<Rightarrow> duration list \<Rightarrow> bool" where
  "summarises s xs = (sn_Count s = length xs \<and> sn_Min s = Min (set xs) \<and> sn_Max s = Max (set xs) \<and>
     sn_P50 s = sort xs ! ((length xs - 1) div 2) \<and>
     sn_P50 s \<le> sn_P95 s \<and> sn_P95 s \<le> sn_P99 s \<and>
     {sn_P50 s, sn_P95 s, sn_P99 s} \<subseteq> set xs)"

lemma TakeSnapshot_summarises:
  assumes ok: "recorder_ok r" and ne: "held_samples r \<noteq> []" and cap: "capacity_of r \<le> 2 ^ 53"
  shows "\<exists>s. TakeSnapshot r = Some s \<and> summarises s (held_samples r)"
proof -
  let ?n = "if full r then capacity_of r else nextix r"
  define data where "data = sort (held_samples r)"
  have len: "length data = length (held_samples r)" "length data = ?n"
    using ok by (simp_all add: data_def held_samples_def recorder_ok_def)
  have "length data \<noteq> 0" using ne by (simp add: data_def)
  then have nd: "data \<noteq> []" by auto
  have data: "data \<noteq> []" "length data \<le> 2 ^ 53" "set data = set (held_samples r)" "sorted data"
    using nd cap latency.held_le [OF ok] by (simp_all add: data_def)
  obtain i where i: "percentile_ix (round64 (50 / 100)) (length data) = Some (int i)" "i < length data"
    "percentile data (round64 (50 / 100)) = Some (data ! i)"
    using percentile_at [OF data(1,2), of "50 / 100"] by auto
  obtain j where j: "percentile_ix (round64 (95 / 100)) (length data) = Some (int j)" "j < length data"
    "percentile data (round64 (95 / 100)) = Some (data ! j)"
    using percentile_at [OF data(1,2), of "95 / 100"] by auto
  obtain k where k: "percentile_ix (round64 (99 / 100)) (length data) = Some (int k)" "k < length data"
    "percentile data (round64 (99 / 100)) = Some (data ! k)"
    using percentile_at [OF data(1,2), of "99 / 100"] by auto
  have ij: "i \<le> j" using percentile_ix_mono [OF _ data(2) _ _ _ i(1) j(1)] data(1) by simp
  have jk: "j \<le> k" using percentile_ix_mono [OF _ data(2) _ _ _ j(1) k(1)] data(1) by simp
  have "int i = (int (length data) - 1) div 2" using median_ix [OF _ data(2)] i(1) data(1) by simp
  then have med: "i = (length data - 1) div 2" by (cases "length data") simp_all
  have len0: "0 < length data" using nd by simp
  have "data ! 0 = Min (set data)"
    using len0 data(4) by (intro Min_eqI [symmetric]) (auto simp: in_set_conv_nth intro: sorted_nth_mono)
  moreover have "data ! (length data - 1) = Max (set data)"
  proof (rule Max_eqI [symmetric])
    show "data ! (length data - 1) \<in> set data" using len0 by (intro nth_mem) simp
  qed (auto simp: in_set_conv_nth intro!: sorted_nth_mono [OF data(4)])
  ultimately have minmax: "data ! 0 = Min (set data)" "data ! (length data - 1) = Max (set data)" .
  let ?s = "\<lparr>sn_Count = ?n, sn_Min = data ! 0, sn_P50 = data ! i, sn_P95 = data ! j,
     sn_P99 = data ! k, sn_Max = data ! (?n - 1)\<rparr>"
  have "TakeSnapshot r = Some ?s"
    unfolding TakeSnapshot_def Let_def sort_buffer [OF ok] data_def [symmetric]
    using data(1) len(2) i(3) j(3) k(3) by auto
  moreover have "{data ! i, data ! j, data ! k} \<subseteq> set (held_samples r)"
    using i(2) j(2) k(2) by (simp flip: data(3))
  moreover have "data ! i \<le> data ! j" "data ! j \<le> data ! k"
    using sorted_nth_mono [OF data(4)] ij jk j(2) k(2) by simp_all
  moreover have "sort (held_samples r) ! ((length (held_samples r) - 1) div 2) = data ! i"
    using len(1) by (simp only: med data_def)
  ultimately show ?thesis
    using len minmax data(3) by (intro exI [of _ ?s]) (simp add: summarises_def)
qed

text \<open>
  Property C5. \<open>Snapshot\<close> never indexes out of range, and it summarises exactly the newest
  samples: their number, smallest and largest, the lower median as P50, and P50, P95 and P99
  in increasing order, each one of the samples. (The indices are computed in float64; the
  statement covers every capacity up to \<open>2 ^ 53\<close>.)
\<close>

theorem snapshot_summarises_newest:
  assumes "record_all ds (NewLatencyRecorder c) = Some r" and "c \<le> 2 ^ 53"
  shows "\<exists>s. TakeSnapshot r = Some s \<and>
    (if ds = [] then s = zero_Snapshot else summarises s (lastn (capacity_of r) ds))"
proof -
  obtain r' where "record_all ds (NewLatencyRecorder c) = Some r'" "recorder_ok r'"
     "capacity_of r' = nat (if c \<le> 0 then defaultCapacity else c)"
     "held_samples r' = lastn (capacity_of r') ds"
    using latency.rcds_ok [of "NewLatencyRecorder c" ds] by (auto simp: record_all_def)
  then have r: "recorder_ok r" "held_samples r = lastn (capacity_of r) ds" "capacity_of r \<le> 2 ^ 53"
    using assms by (auto simp: defaultCapacity_def nat_le_iff)
  show ?thesis
  proof (cases "ds = []")
    case True
    then have "(if full r then capacity_of r else nextix r) = 0"
      using r(1,2) by (auto simp: lastn_def held_samples_def recorder_ok_def split: if_splits)
    then show ?thesis using True by (simp add: TakeSnapshot_def Let_def)
  next
    case False
    have "0 < capacity_of r" using r(1) by (rule latency.cap_pos)
    then have "length (lastn (capacity_of r) ds) \<noteq> 0" using False by (simp only: length_lastn) auto
    then have "held_samples r \<noteq> []" using r(2) by (metis list.size(3))
    then show ?thesis using TakeSnapshot_summarises [OF r(1) _ r(3)] False r(2) by simp
  qed
qed

theorem snapshot_summarises_newest_witness:
  "\<exists>r s. record_all [1, 2, 3, 4] (NewLatencyRecorder 3) = Some r \<and> TakeSnapshot r = Some s \<and>
     sn_Count s = 3 \<and> sn_Min s = 2 \<and> sn_Max s = 4 \<and> sn_P50 s = 3"
proof -
  obtain r where r: "record_all [1, 2, 3, 4] (NewLatencyRecorder 3) = Some r"
      "capacity_of r = 3"
    by (simp add: record_all_def NewLatencyRecorder_def Record_def numeral_3_eq_3 eval_nat_numeral)
  then obtain s where "TakeSnapshot r = Some s" "summarises s (lastn 3 [1, 2, 3, 4])"
    using snapshot_summarises_newest [OF r(1)] by auto
  then show ?thesis using r by (auto simp: summarises_def lastn_def)
qed

end
