(* ===== verification/Worker.thy ===== *)
theory Worker
  imports State_Store Latency
begin

text \<open>
  internal/processor/worker.go: one worker's counters and the processing of one message. The
  function below runs the whole of \<open>processMessage\<close> without interference from other
  goroutines; theory Processor takes it apart into its atomic steps. \<open>slog\<close> output is not
  modelled. The \<open>recover\<close> handler is never entered: nothing it guards can panic.
\<close>

section \<open>State\<close>

record Worker =
  w_id :: nat
  w_messagesProcessed :: u64
  w_errors :: u64
  w_anomalies :: u64
  w_dropped :: u64
  w_duplicates :: u64
  w_outOfOrder :: u64

definition NewWorker :: "nat \<Rightarrow> Worker" where
  "NewWorker i = \<lparr>w_id = i, w_messagesProcessed = 0, w_errors = 0, w_anomalies = 0,
     w_dropped = 0, w_duplicates = 0, w_outOfOrder = 0\<rparr>"

record WorkerStats =
  ws_ID :: nat
  ws_MessagesProcessed :: u64
  ws_Errors :: u64
  ws_Anomalies :: u64
  ws_Dropped :: u64
  ws_Duplicates :: u64
  ws_OutOfOrder :: u64

definition Worker_Stats :: "Worker \<Rightarrow> WorkerStats" where
  "Worker_Stats w = \<lparr>ws_ID = w_id w, ws_MessagesProcessed = w_messagesProcessed w,
     ws_Errors = w_errors w, ws_Anomalies = w_anomalies w, ws_Dropped = w_dropped w,
     ws_Duplicates = w_duplicates w, ws_OutOfOrder = w_outOfOrder w\<rparr>"

section \<open>Processing one message\<close>

text \<open>Counting what \<open>Update\<close> detected.\<close>

definition count_dropped :: "UpdateResult \<Rightarrow> Worker \<Rightarrow> Worker" where
  "count_dropped result w =
     (if ur_DroppedCount result > 0 then w\<lparr>w_dropped := w_dropped w + ur_DroppedCount result\<rparr> else w)"

definition count_duplicate :: "UpdateResult \<Rightarrow> Worker \<Rightarrow> Worker" where
  "count_duplicate result w = (if IsDuplicate result then w\<lparr>w_duplicates := w_duplicates w + 1\<rparr> else w)"

definition count_late :: "UpdateResult \<Rightarrow> Worker \<Rightarrow> Worker" where
  "count_late result w = (if IsOutOfOrder result then w\<lparr>w_outOfOrder := w_outOfOrder w + 1\<rparr> else w)"

definition err_of :: "parse_error + 'a \<Rightarrow> parse_error option" where
  "err_of r = (case r of Inl e \<Rightarrow> Some e | Inr _ \<Rightarrow> None)"

text \<open>The switch on the sensor type; an unknown type is not checked.\<close>

definition check_payload :: "TelemetryMessage \<Rightarrow> parse_error option" where
  "check_payload msg =
     (if SensorType msg = ''gps'' then err_of (ParseGPSData msg)
      else if SensorType msg = ''drone'' then err_of (ParseDroneData msg)
      else if SensorType msg = ''vehicle'' then err_of (ParseVehicleData msg)
      else if SensorType msg = ''temperature'' then err_of (ParseTemperatureSensorData msg)
      else if SensorType msg = ''radar'' then err_of (ParseRadarData msg)
      else if SensorType msg = ''patient_vitals'' then err_of (ParsePatientVitals msg)
      else None)"

text \<open>\<open>errors.As\<close> finds a \<open>ValidationError\<close> exactly in \<open>Invalid\<close>.\<close>

definition is_validation :: "parse_error \<Rightarrow> bool" where
  "is_validation e = (case e of Invalid _ \<Rightarrow> True | ParseFailed _ \<Rightarrow> False)"

definition count_outcome :: "parse_error option \<Rightarrow> Worker \<Rightarrow> Worker" where
  "count_outcome err w = (case err of
       Some e \<Rightarrow> if is_validation e then w\<lparr>w_anomalies := w_anomalies w + 1\<rparr>
                 else w\<lparr>w_errors := w_errors w + 1\<rparr>
     | None \<Rightarrow> w\<lparr>w_messagesProcessed := w_messagesProcessed w + 1\<rparr>)"

definition record_outcome :: "parse_error option \<Rightarrow> bytes \<Rightarrow> StateStore \<Rightarrow> StateStore" where
  "record_outcome err sid s = (case err of
       Some e \<Rightarrow> if is_validation e then RecordAnomaly sid s else RecordError sid s
     | None \<Rightarrow> s)"

text \<open>The clock readings of one call, in program order.\<close>

record clock_readings =
  ck_start :: time
  ck_update :: time
  ck_done :: time
  ck_since :: time

definition processMessage :: "clock_readings \<Rightarrow> TelemetryMessage \<Rightarrow>
    Worker \<times> StateStore \<times> LatencyRecorder \<times> LatencyRecorder \<Rightarrow>
    (Worker \<times> StateStore \<times> LatencyRecorder \<times> LatencyRecorder) option" where
  "processMessage ck msg = (\<lambda>(w, store, processingLatency, endToEndLatency).
     let (result, store) = Update (ck_update ck) msg store;
         w = count_late result (count_duplicate result (count_dropped result w));
         err = check_payload msg;
         w = count_outcome err w;
         store = record_outcome err (SensorID msg) store
     in Option.bind (Record (Sub (ck_done ck) (ck_start ck)) processingLatency) (\<lambda>pl.
        Option.bind (Record (Sub (ck_since ck) (Timestamp msg)) endToEndLatency) (\<lambda>el.
          Some (w, store, pl, el))))"

section \<open>Counters\<close>

lemma count_simps [simp]:
  "w_id (count_dropped r w) = w_id w"
  "w_id (count_duplicate r w) = w_id w"
  "w_id (count_late r w) = w_id w"
  "w_messagesProcessed (count_dropped r w) = w_messagesProcessed w"
  "w_messagesProcessed (count_duplicate r w) = w_messagesProcessed w"
  "w_messagesProcessed (count_late r w) = w_messagesProcessed w"
  "w_errors (count_dropped r w) = w_errors w"
  "w_errors (count_duplicate r w) = w_errors w"
  "w_errors (count_late r w) = w_errors w"
  "w_anomalies (count_dropped r w) = w_anomalies w"
  "w_anomalies (count_duplicate r w) = w_anomalies w"
  "w_anomalies (count_late r w) = w_anomalies w"
  "w_dropped (count_dropped r w) = w_dropped w + ur_DroppedCount r"
  "w_dropped (count_duplicate r w) = w_dropped w"
  "w_dropped (count_late r w) = w_dropped w"
  "w_duplicates (count_dropped r w) = w_duplicates w"
  "w_duplicates (count_duplicate r w) = w_duplicates w + of_bool (IsDuplicate r)"
  "w_duplicates (count_late r w) = w_duplicates w"
  "w_outOfOrder (count_dropped r w) = w_outOfOrder w"
  "w_outOfOrder (count_duplicate r w) = w_outOfOrder w"
  "w_outOfOrder (count_late r w) = w_outOfOrder w + of_bool (IsOutOfOrder r)"
  by (auto simp: count_dropped_def count_duplicate_def count_late_def word_gt_0)

definition w_outcomes :: "Worker \<Rightarrow> u64" where
  "w_outcomes w = w_messagesProcessed w + w_errors w + w_anomalies w"

lemma w_outcomes_count [simp]:
  "w_outcomes (count_dropped r w) = w_outcomes w"
  "w_outcomes (count_duplicate r w) = w_outcomes w"
  "w_outcomes (count_late r w) = w_outcomes w"
  by (simp_all add: w_outcomes_def)

lemma count_outcome_simps [simp]:
  "w_id (count_outcome e w) = w_id w"
  "w_dropped (count_outcome e w) = w_dropped w"
  "w_duplicates (count_outcome e w) = w_duplicates w"
  "w_outOfOrder (count_outcome e w) = w_outOfOrder w"
  "w_outcomes (count_outcome e w) = w_outcomes w + 1"
  "w_messagesProcessed (count_outcome e w) = w_messagesProcessed w + of_bool (e = None)"
  "w_anomalies (count_outcome e w) = w_anomalies w + of_bool (\<exists>x. e = Some x \<and> is_validation x)"
  "w_errors (count_outcome e w) = w_errors w + of_bool (\<exists>x. e = Some x \<and> \<not> is_validation x)"
  by (auto simp: count_outcome_def w_outcomes_def split: option.split)

lemma err_of_Inl [simp]: "err_of (Inl e) = Some e"
  by (simp add: err_of_def)

lemma err_of_Inr [simp]: "err_of (Inr d) = None"
  by (simp add: err_of_def)

lemma err_of_None: "err_of r = None \<longleftrightarrow> (\<exists>d. r = Inr d)"
  by (cases r) simp_all

lemma err_of_Some: "err_of r = Some e \<longleftrightarrow> r = Inl e"
  by (cases r) simp_all

section \<open>Properties\<close>

text \<open>Whether the payload decodes into the struct of the message's sensor type.\<close>

definition payload_decodes :: "TelemetryMessage \<Rightarrow> bool" where
  "payload_decodes m =
     (if SensorType m = ''gps'' then unmarshal GPSData_fields zero_GPSData (Data m) \<noteq> None
      else if SensorType m = ''drone'' then unmarshal DroneData_fields zero_DroneData (Data m) \<noteq> None
      else if SensorType m = ''vehicle'' then unmarshal VehicleData_fields zero_VehicleData (Data m) \<noteq> None
      else if SensorType m = ''temperature''
      then unmarshal TemperatureSensorData_fields zero_TemperatureSensorData (Data m) \<noteq> None
      else if SensorType m = ''radar'' then unmarshal RadarData_fields zero_RadarData (Data m) \<noteq> None
      else if SensorType m = ''patient_vitals''
      then unmarshal PatientVitalsData_fields zero_PatientVitalsData (Data m) \<noteq> None
      else True)"

text \<open>One conjunct for every parser, from the contract the parsers share.\<close>

lemma err_of_parsers:
  "(\<exists>e. err_of (ParseGPSData m) = Some e \<and> \<not> is_validation e) \<longleftrightarrow> unmarshal GPSData_fields zero_GPSData (Data m) = None"
  "(\<exists>e. err_of (ParseDroneData m) = Some e \<and> \<not> is_validation e) \<longleftrightarrow> unmarshal DroneData_fields zero_DroneData (Data m) = None"
  "(\<exists>e. err_of (ParseVehicleData m) = Some e \<and> \<not> is_validation e) \<longleftrightarrow> unmarshal VehicleData_fields zero_VehicleData (Data m) = None"
  "(\<exists>e. err_of (ParseTemperatureSensorData m) = Some e \<and> \<not> is_validation e) \<longleftrightarrow>
     unmarshal TemperatureSensorData_fields zero_TemperatureSensorData (Data m) = None"
  "(\<exists>e. err_of (ParseRadarData m) = Some e \<and> \<not> is_validation e) \<longleftrightarrow> unmarshal RadarData_fields zero_RadarData (Data m) = None"
  "(\<exists>e. err_of (ParsePatientVitals m) = Some e \<and> \<not> is_validation e) \<longleftrightarrow>
     unmarshal PatientVitalsData_fields zero_PatientVitalsData (Data m) = None"
  by (rule gps_parser.cases_of_parse [of m], simp_all add: is_validation_def)
    (rule drone_parser.cases_of_parse [of m], simp_all add: is_validation_def,
     rule veh_parser.cases_of_parse [of m], simp_all add: is_validation_def,
     rule temp_parser.cases_of_parse [of m], simp_all add: is_validation_def,
     rule radar_parser.cases_of_parse [of m], simp_all add: is_validation_def,
     rule pv_parser.cases_of_parse [of m], simp_all add: is_validation_def)

lemma error_iff_undecodable:
  "(\<exists>e. check_payload m = Some e \<and> \<not> is_validation e) \<longleftrightarrow> \<not> payload_decodes m"
  unfolding check_payload_def payload_decodes_def by (simp add: err_of_parsers)

text \<open>
  Property C8. \<open>processMessage\<close> never panics and gives every message exactly one outcome: it is
  an error exactly when the payload of a checked sensor type does not decode, an anomaly exactly
  when it decodes but is out of range, and processed otherwise (unknown types included). The
  outcome is entered in the worker's counter and in the sensor's counter alike, and both latency
  recorders get one sample, whatever the outcome.
\<close>

theorem processMessage_one_outcome:
  assumes "recorder_ok pl" and "recorder_ok el" and "store_ok s"
  shows "\<exists>w' s' pl' el'. processMessage ck m (w, s, pl, el) = Some (w', s', pl', el') \<and>
    w_errors w' = w_errors w + of_bool (\<not> payload_decodes m) \<and>
    w_anomalies w' = w_anomalies w + of_bool (payload_decodes m \<and> check_payload m \<noteq> None) \<and>
    w_messagesProcessed w' = w_messagesProcessed w + of_bool (check_payload m = None) \<and>
    store_total st_ErrorCount s' = store_total st_ErrorCount s + of_bool (\<not> payload_decodes m) \<and>
    store_total st_AnomalyCount s' = store_total st_AnomalyCount s
      + of_bool (payload_decodes m \<and> check_payload m \<noteq> None) \<and>
    store_total st_MessageCount s' = store_total st_MessageCount s + 1 \<and>
    length (held_samples pl') = min (Suc (length (held_samples pl))) (capacity_of pl) \<and>
    length (held_samples el') = min (Suc (length (held_samples el))) (capacity_of el)"
proof -
  let ?e = "check_payload m" and ?u = "Update (ck_update ck) m s"
  have outcome: "(\<exists>x. ?e = Some x \<and> \<not> is_validation x) \<longleftrightarrow> \<not> payload_decodes m"
    "(\<exists>x. ?e = Some x \<and> is_validation x) \<longleftrightarrow> payload_decodes m \<and> ?e \<noteq> None"
    using error_iff_undecodable [of m] by (cases ?e; auto)+
  define s' where "s' = record_outcome ?e (SensorID m) (snd ?u)"
  have st: "store_total st_ErrorCount s' = store_total st_ErrorCount s + of_bool (\<not> payload_decodes m)"
    "store_total st_AnomalyCount s' = store_total st_AnomalyCount s + of_bool (payload_decodes m \<and> ?e \<noteq> None)"
    "store_total st_MessageCount s' = store_total st_MessageCount s + 1"
    using outcome assms(3) store.known_upd [of "SensorID m" "ck_update ck" m s]
    by (auto simp: s'_def record_outcome_def store.inv_upd store.err_errors store.err_frame store.anom_anomalies
        store.anom_frame store.upd_errors store.upd_anomalies store.upd_messages split: option.split)
  obtain pl' where pl: "Record (Sub (ck_done ck) (ck_start ck)) pl = Some pl'"
    using latency.rcd_ok [OF assms(1)] by blast
  obtain el' where el: "Record (Sub (ck_since ck) (Timestamp m)) el = Some el'"
    using latency.rcd_ok [OF assms(2)] by blast
  define w' where "w' = count_outcome ?e (count_late (fst ?u) (count_duplicate (fst ?u) (count_dropped (fst ?u) w)))"
  have "processMessage ck m (w, s, pl, el) = Some (w', s', pl', el')"
    by (simp add: processMessage_def Let_def case_prod_unfold pl el s'_def w'_def)
  moreover have "w_errors w' = w_errors w + of_bool (\<not> payload_decodes m)"
    "w_anomalies w' = w_anomalies w + of_bool (payload_decodes m \<and> ?e \<noteq> None)"
    "w_messagesProcessed w' = w_messagesProcessed w + of_bool (?e = None)"
    by (simp_all add: w'_def outcome)
  ultimately show ?thesis
    using st latency.rcd_length [OF assms(1) pl] latency.rcd_length [OF assms(2) el] by blast
qed

definition sample_clock :: clock_readings where
  "sample_clock = \<lparr>ck_start = 1, ck_update = 2, ck_done = 3, ck_since = 4\<rparr>"

theorem processMessage_one_outcome_witness:
  "\<exists>w' s' pl' el'. processMessage sample_clock (sample_msg ''d'' ''gps'' 1 ''x'')
      (NewWorker 0, NewStateStore, NewLatencyRecorder 5, NewLatencyRecorder 5) = Some (w', s', pl', el') \<and>
    w_errors w' = 1 \<and> w_messagesProcessed w' = 0"
proof -
  have "\<not> payload_decodes (sample_msg ''d'' ''gps'' 1 ''x'')"
    unfolding payload_decodes_def by code_simp
  moreover from this have "check_payload (sample_msg ''d'' ''gps'' 1 ''x'') \<noteq> None"
    using error_iff_undecodable by fastforce
  ultimately show ?thesis
    using processMessage_one_outcome [of "NewLatencyRecorder 5" "NewLatencyRecorder 5" NewStateStore
        sample_clock "sample_msg ''d'' ''gps'' 1 ''x''" "NewWorker 0"]
    by (auto simp: NewWorker_def)
qed

end
