(* ===== verification/Go_Chan.thy ===== *)
theory Go_Chan
  imports Prelude
begin

text \<open>
  Buffered Go channels: a bounded queue with a closed flag. A send on a closed channel panics,
  a send on a full one blocks, a receive drains a closed channel before it reports the close,
  and closing twice panics. Channels that carry no values and are only closed (the stop
  channels) are a single flag in the components. A channel of capacity 0 hands values over
  directly, which this model does not cover: its sends only block.
\<close>

section \<open>Operations\<close>

record 'a chan =
  buf :: "'a list"
  chan_cap :: nat
  closed :: bool

definition make_chan :: "nat \<Rightarrow> 'a chan" where
  "make_chan n = \<lparr>buf = [], chan_cap = n, closed = False\<rparr>"

datatype 'a send_result = Sent "'a chan" | SendBlocks | SendPanics

definition chan_send :: "'a \<Rightarrow> 'a chan \<Rightarrow> 'a send_result" where
  "chan_send x c =
     (if closed c then SendPanics
      else if length (buf c) < chan_cap c then Sent (c\<lparr>buf := buf c @ [x]\<rparr>)
      else SendBlocks)"

datatype 'a recv_result = Received 'a "'a chan" | RecvClosed | RecvBlocks

definition chan_recv :: "'a chan \<Rightarrow> 'a recv_result" where
  "chan_recv c = (case buf c of
       x # xs \<Rightarrow> Received x (c\<lparr>buf := xs\<rparr>)
     | [] \<Rightarrow> if closed c then RecvClosed else RecvBlocks)"

definition chan_close :: "'a chan \<Rightarrow> 'a chan option" where
  "chan_close c = (if closed c then None else Some (c\<lparr>closed := True\<rparr>))"

definition chan_ok :: "'a chan \<Rightarrow> bool" where
  "chan_ok c = (length (buf c) \<le> chan_cap c)"

lemma chan_send_Sent [chan_simps]:
  "chan_send x c = Sent c' \<longleftrightarrow>
     \<not> closed c \<and> length (buf c) < chan_cap c \<and> c' = c\<lparr>buf := buf c @ [x]\<rparr>"
  by (auto simp: chan_send_def)

lemma chan_send_SendPanics [chan_simps]: "chan_send x c = SendPanics \<longleftrightarrow> closed c"
  by (simp add: chan_send_def)

lemma chan_send_SendBlocks [chan_simps]:
  "chan_send x c = SendBlocks \<longleftrightarrow> \<not> closed c \<and> chan_cap c \<le> length (buf c)"
  by (auto simp: chan_send_def)

lemma chan_recv_Received [chan_simps]:
  "chan_recv c = Received x c' \<longleftrightarrow> (\<exists>xs. buf c = x # xs \<and> c' = c\<lparr>buf := xs\<rparr>)"
  by (auto simp: chan_recv_def split: list.splits)

lemma chan_recv_RecvClosed [chan_simps]: "chan_recv c = RecvClosed \<longleftrightarrow> buf c = [] \<and> closed c"
  by (auto simp: chan_recv_def split: list.splits)

lemma chan_recv_RecvBlocks [chan_simps]: "chan_recv c = RecvBlocks \<longleftrightarrow> buf c = [] \<and> \<not> closed c"
  by (auto simp: chan_recv_def split: list.splits)

lemma make_chan_simps [simp]:
  "buf (make_chan n) = []" "chan_cap (make_chan n) = n" "\<not> closed (make_chan n)"
  by (simp_all add: make_chan_def)

lemma make_chan_ok [simp]: "chan_ok (make_chan n)"
  by (simp add: chan_ok_def)

section \<open>The bounded FIFO a channel implements\<close>

text \<open>A schedule of sends and receives; a send that is refused and a receive that finds
  nothing leave the queue as it is. The result is what was accepted, what was received, and the
  queue.\<close>

datatype 'a queue_op = Put 'a | Take

fun run_queue :: "('a \<Rightarrow> 'q \<Rightarrow> 'q option) \<Rightarrow> ('q \<Rightarrow> ('a \<times> 'q) option) \<Rightarrow>
    'a queue_op list \<Rightarrow> 'q \<Rightarrow> 'a list \<times> 'a list \<times> 'q" where
  "run_queue put get [] q = ([], [], q)"
| "run_queue put get (Put x # ops) q =
     (case put x q of
        None \<Rightarrow> run_queue put get ops q
      | Some q' \<Rightarrow> (let (acc, got, q'') = run_queue put get ops q' in (x # acc, got, q'')))"
| "run_queue put get (Take # ops) q =
     (case get q of
        None \<Rightarrow> run_queue put get ops q
      | Some (x, q') \<Rightarrow> (let (acc, got, q'') = run_queue put get ops q' in (acc, x # got, q'')))"

locale bounded_fifo =
  fixes put :: "'a \<Rightarrow> 'q \<Rightarrow> 'q option"
    and get :: "'q \<Rightarrow> ('a \<times> 'q) option"
    and contents :: "'q \<Rightarrow> 'a list"
    and room :: "'q \<Rightarrow> nat"
    and inv :: "'q \<Rightarrow> bool"
  assumes bounded: "inv q \<Longrightarrow> length (contents q) \<le> room q"
    and put_some: "inv q \<Longrightarrow> put x q = Some q' \<Longrightarrow>
      inv q' \<and> contents q' = contents q @ [x] \<and> room q' = room q"
    and take_some: "inv q \<Longrightarrow> get q = Some (x, q') \<Longrightarrow>
      inv q' \<and> contents q = x # contents q' \<and> room q' = room q"
    and take_none: "inv q \<Longrightarrow> get q = None \<Longrightarrow> contents q = []"
begin

text \<open>No loss, no duplication, no reordering, and never more than the capacity.\<close>

lemma fifo:
  assumes "inv q" and "run_queue put get ops q = (acc, got, q')"
  shows "got @ contents q' = contents q @ acc \<and> inv q' \<and> room q' = room q"
  using assms
proof (induction ops arbitrary: q acc got)
  case (Cons p ops)
  show ?case
  proof (cases p)
    case (Put x)
    show ?thesis
    proof (cases "put x q")
      case None
      then show ?thesis using Cons Put by simp
    next
      case (Some q1)
      obtain acc' where r: "run_queue put get ops q1 = (acc', got, q')" and a: "acc = x # acc'"
        using Cons.prems(2) Put Some by (auto split: prod.splits)
      then show ?thesis using a Cons.IH [OF _ r] put_some [OF Cons.prems(1) Some] by simp
    qed
  next
    case Take
    show ?thesis
    proof (cases "get q")
      case None
      then show ?thesis using Cons Take by simp
    next
      case (Some xq)
      obtain x q1 where xq: "xq = (x, q1)" by fastforce
      obtain got' where r: "run_queue put get ops q1 = (acc, got', q')" and g: "got = x # got'"
        using Cons.prems(2) Take Some xq by (auto split: prod.splits)
      then show ?thesis using g Cons.IH [OF _ r] take_some [OF Cons.prems(1), of x q1] Some xq by simp
    qed
  qed
qed simp

lemma fifo_bounded:
  assumes "inv q" and "run_queue put get ops q = (acc, got, q')"
  shows "length (contents q') \<le> room q"
  using fifo [OF assms] bounded [of q'] by simp

end

definition put_chan :: "'a \<Rightarrow> 'a chan \<Rightarrow> 'a chan option" where
  "put_chan x c = (case chan_send x c of Sent c' \<Rightarrow> Some c' | _ \<Rightarrow> None)"

definition take_chan :: "'a chan \<Rightarrow> ('a \<times> 'a chan) option" where
  "take_chan c = (case chan_recv c of Received x c' \<Rightarrow> Some (x, c') | _ \<Rightarrow> None)"

interpretation chan: bounded_fifo put_chan take_chan buf chan_cap chan_ok
  by unfold_locales
    (auto simp: put_chan_def take_chan_def chan_ok_def chan_send_def chan_recv_def
      split: if_splits list.splits)

end
