(* ===== verification/Processor.thy ===== *)
theory Processor
  imports Worker Go_Chan "HOL-Library.Multiset"
begin

text \<open>
  internal/processor: the bounded job queue and the worker pool. Goroutines interleave at the
  granularity of the operations that are atomic in Go: one channel operation, one atomic counter,
  one method under a mutex. A worker's place in \<open>Run\<close> and \<open>processMessage\<close> is its
  phase; calls of \<open>Enqueue\<close>, \<open>TryEnqueue\<close> and \<open>Stop\<close> in progress are part of
  the system state. \<open>exec\<close> performs one atomic action; \<open>reachable\<close> closes it under every
  schedule. A panic stops the whole process.
\<close>

section \<open>State\<close>

record ProcessorConfig =
  NumWorkers :: goint
  QueueSize :: goint

text \<open>Where a worker goroutine is; \<open>start\<close> is the time at which the message was taken.\<close>

datatype phase =
    Idle
  | Got TelemetryMessage time
  | CountDropped TelemetryMessage time UpdateResult
  | CountDuplicate TelemetryMessage time UpdateResult
  | CountLate TelemetryMessage time UpdateResult
  | Judging TelemetryMessage time
  | Blaming TelemetryMessage time parse_error
  | TimingWork TelemetryMessage time
  | TimingTotal TelemetryMessage
  | Exited

text \<open>
  The slice \<open>workers\<close> holds nil pointers until \<open>Start\<close> fills it; here it is empty until
  then. A job is a pointer, None is nil.
\<close>

record Processor =
  p_config :: ProcessorConfig
  p_store :: StateStore
  p_workers :: "(Worker \<times> phase) list"
  p_jobs :: "TelemetryMessage option chan"
  p_stopClosed :: bool
  p_isRunning :: bool
  p_procLatency :: LatencyRecorder
  p_e2eLatency :: LatencyRecorder
  p_enqueued :: u64
  p_queueFull :: u64

definition NewProcessor :: "ProcessorConfig \<Rightarrow> StateStore \<Rightarrow> Processor" where
  "NewProcessor config store =
     (let config = (if NumWorkers config \<le> 0 then config\<lparr>NumWorkers := 4\<rparr> else config);
          config = (if QueueSize config \<le> 0 then config\<lparr>QueueSize := 1000\<rparr> else config)
      in \<lparr>p_config = config, p_store = store, p_workers = [],
          p_jobs = make_chan (nat (QueueSize config)), p_stopClosed = False, p_isRunning = False,
          p_procLatency = NewLatencyRecorder 0, p_e2eLatency = NewLatencyRecorder 0,
          p_enqueued = 0, p_queueFull = 0\<rparr>)"

definition Start :: "Processor \<Rightarrow> bytes + Processor" where
  "Start p =
     (if p_isRunning p then Inl ''processor already running''
      else Inr (p\<lparr>p_isRunning := True,
        p_workers := map (\<lambda>i. (NewWorker i, Idle)) [0..<nat (NumWorkers (p_config p))]\<rparr>))"

section \<open>Statistics\<close>

record ProcessorStats =
  ps_NumWorkers :: goint
  ps_QueueSize :: goint
  ps_QueueDepth :: nat
  ps_TotalMessagesEnqueued :: u64
  ps_TotalMessagesProcessed :: u64
  ps_TotalErrors :: u64
  ps_TotalAnomalies :: u64
  ps_TotalDropped :: u64
  ps_TotalDuplicates :: u64
  ps_TotalOutOfOrder :: u64
  ps_KnownSensors :: nat
  ps_QueueFullEvents :: u64
  ps_IsRunning :: bool
  ps_WorkerStats :: "WorkerStats list"
  ps_ProcessingLatency :: Snapshot
  ps_EndToEndLatency :: Snapshot

text \<open>\<open>Stats\<close> dereferences every worker pointer, so it panics before \<open>Start\<close>.\<close>

definition Stats :: "'a Processor_scheme \<Rightarrow> ProcessorStats option" where
  "Stats p =
     (if int (length (p_workers p)) < NumWorkers (p_config p) then None
      else let workerStats = map (Worker_Stats \<circ> fst) (p_workers p)
        in Option.bind (TakeSnapshot (p_procLatency p)) (\<lambda>processing.
           Option.bind (TakeSnapshot (p_e2eLatency p)) (\<lambda>endToEnd.
             Some \<lparr>ps_NumWorkers = NumWorkers (p_config p), ps_QueueSize = QueueSize (p_config p),
               ps_QueueDepth = length (buf (p_jobs p)),
               ps_TotalMessagesEnqueued = p_enqueued p,
               ps_TotalMessagesProcessed = sum_list (map ws_MessagesProcessed workerStats),
               ps_TotalErrors = sum_list (map ws_Errors workerStats),
               ps_TotalAnomalies = sum_list (map ws_Anomalies workerStats),
               ps_TotalDropped = sum_list (map ws_Dropped workerStats),
               ps_TotalDuplicates = sum_list (map ws_Duplicates workerStats),
               ps_TotalOutOfOrder = sum_list (map ws_OutOfOrder workerStats),
               ps_KnownSensors = Count (p_store p),
               ps_QueueFullEvents = p_queueFull p,
               ps_IsRunning = p_isRunning p,
               ps_WorkerStats = workerStats,
               ps_ProcessingLatency = processing,
               ps_EndToEndLatency = endToEnd\<rparr>)))"

section \<open>Atomic steps of a worker\<close>

text \<open>What the goroutines share: the store and the two recorders.\<close>

type_synonym shared = "StateStore \<times> LatencyRecorder \<times> LatencyRecorder"

text \<open>
  One step of \<open>processMessage\<close> at clock time \<open>now\<close>; None is a panic outside the reach of
  \<open>recover\<close>. The two recordings at the end are the deferred calls.
\<close>

fun work :: "time \<Rightarrow> phase \<Rightarrow> Worker \<Rightarrow> shared \<Rightarrow> (phase \<times> Worker \<times> shared) option" where
  "work now Idle w sh = Some (Idle, w, sh)"
| "work now (Got m start) w (s, pl, el) =
     (let (r, s') = Update now m s in Some (CountDropped m start r, w, s', pl, el))"
| "work now (CountDropped m start r) w sh = Some (CountDuplicate m start r, count_dropped r w, sh)"
| "work now (CountDuplicate m start r) w sh = Some (CountLate m start r, count_duplicate r w, sh)"
| "work now (CountLate m start r) w sh = Some (Judging m start, count_late r w, sh)"
| "work now (Judging m start) w sh =
     Some (case check_payload m of Some e \<Rightarrow> Blaming m start e | None \<Rightarrow> TimingWork m start,
           count_outcome (check_payload m) w, sh)"
| "work now (Blaming m start e) w (s, pl, el) =
     Some (TimingWork m start, w, record_outcome (Some e) (SensorID m) s, pl, el)"
| "work now (TimingWork m start) w (s, pl, el) =
     map_option (\<lambda>pl'. (TimingTotal m, w, s, pl', el)) (Record (Sub now start) pl)"
| "work now (TimingTotal m) w (s, pl, el) =
     map_option (\<lambda>el'. (Idle, w, s, pl, el')) (Record (Sub now (Timestamp m)) el)"
| "work now Exited w sh = Some (Exited, w, sh)"

section \<open>Waiting for an empty queue\<close>

text \<open>
  The polling loop of \<open>WaitForQuiescence\<close>. Each round reads the running flag, the queue
  length and the clock, and sleeps 10 ms; the list holds what the rounds read, and None means that
  the loop is still polling after them. The clock is read only when the queue is not empty.
\<close>

datatype wait_result = WaitOk | WaitNotRunning | WaitTimeout

fun wait_polls :: "time \<Rightarrow> (bool \<times> nat \<times> time) list \<Rightarrow> wait_result option" where
  "wait_polls deadline [] = None"
| "wait_polls deadline ((running, depth, now) # polls) =
     (if \<not> running then Some WaitNotRunning
      else if depth = 0 then Some WaitOk
      else if After now deadline then Some WaitTimeout
      else wait_polls deadline polls)"

definition WaitForQuiescence :: "time \<Rightarrow> duration \<Rightarrow> (bool \<times> nat \<times> time) list \<Rightarrow> wait_result option" where
  "WaitForQuiescence now timeout polls = wait_polls (Add now timeout) polls"

section \<open>The system\<close>

datatype enqueue_error = NotRunning | Stopping | QueueFull

text \<open>
  A call of \<open>Enqueue\<close> (\<open>Blocking\<close>) or \<open>TryEnqueue\<close> (\<open>Trying\<close>) that has passed its
  \<open>isRunning\<close> check; one that has sent but not yet counted; one that has returned.
\<close>

datatype call =
    Blocking "TelemetryMessage option"
  | Trying "TelemetryMessage option"
  | Counting
  | Returned "enqueue_error option"

text \<open>Progress of the one call of \<open>Stop\<close>.\<close>

datatype stop_phase = NotStopping | StopChecked | StopCleared | StopSignalled | JobsClosed | Stopped

text \<open>
  \<open>accepted\<close> and \<open>ops\<close> are ghost history: the messages sent into the queue, and the calls made
  on the store, each in order.
\<close>

record system = Processor +
  calls :: "call list"
  stopping :: stop_phase
  crashed :: bool
  accepted :: "TelemetryMessage option list"
  ops :: "store_op list"

datatype call_kind = Enqueue | TryEnqueue

datatype act =
    Call call_kind "TelemetryMessage option"
  | Proceed nat
  | GiveUp nat
  | Work nat time
  | Quit nat
  | StopStep
  | Scan "bytes list" time duration

text \<open>The call the worker makes on the store in a phase.\<close>

fun phase_ops :: "time \<Rightarrow> phase \<Rightarrow> store_op list" where
  "phase_ops now (Got m start) = [OpUpdate now m]"
| "phase_ops now (Blaming m start e) =
     [if is_validation e then OpAnomaly (SensorID m) else OpError (SensorID m)]"
| "phase_ops now _ = []"

text \<open>The send of \<open>Enqueue\<close> and of \<open>TryEnqueue\<close>, then the count.\<close>

definition proceed :: "nat \<Rightarrow> system \<Rightarrow> system option" where
  "proceed i s =
     (if length (calls s) \<le> i then None
      else case calls s ! i of
          Blocking m \<Rightarrow> (case chan_send m (p_jobs s) of
              Sent c \<Rightarrow> Some (s\<lparr>p_jobs := c, calls := (calls s)[i := Counting], accepted := accepted s @ [m]\<rparr>)
            | SendBlocks \<Rightarrow> None
            | SendPanics \<Rightarrow> Some (s\<lparr>crashed := True\<rparr>))
        | Trying m \<Rightarrow> (case chan_send m (p_jobs s) of
              Sent c \<Rightarrow> Some (s\<lparr>p_jobs := c, calls := (calls s)[i := Counting], accepted := accepted s @ [m]\<rparr>)
            | SendBlocks \<Rightarrow> (case m of
                  Some _ \<Rightarrow> Some (s\<lparr>p_queueFull := p_queueFull s + 1, calls := (calls s)[i := Returned (Some QueueFull)]\<rparr>)
                | None \<Rightarrow> Some (s\<lparr>crashed := True\<rparr>))
            | SendPanics \<Rightarrow> Some (s\<lparr>crashed := True\<rparr>))
        | Counting \<Rightarrow> Some (s\<lparr>p_enqueued := p_enqueued s + 1, calls := (calls s)[i := Returned None]\<rparr>)
        | Returned _ \<Rightarrow> None)"

text \<open>The \<open>stopChan\<close> branch of \<open>Enqueue\<close>.\<close>

definition give_up :: "nat \<Rightarrow> system \<Rightarrow> system option" where
  "give_up i s =
     (if i < length (calls s) \<and> p_stopClosed s then
        (case calls s ! i of
           Blocking m \<Rightarrow> Some (s\<lparr>calls := (calls s)[i := Returned (Some Stopping)]\<rparr>)
         | _ \<Rightarrow> None)
      else None)"

definition continue_work :: "nat \<Rightarrow> time \<Rightarrow> Worker \<Rightarrow> phase \<Rightarrow> system \<Rightarrow> system" where
  "continue_work i now w ph s =
     (case work now ph w (p_store s, p_procLatency s, p_e2eLatency s) of
        None \<Rightarrow> s\<lparr>crashed := True\<rparr>
      | Some (ph', w', st, pl, el) \<Rightarrow>
          s\<lparr>p_workers := (p_workers s)[i := (w', ph')], p_store := st,
            p_procLatency := pl, p_e2eLatency := el, ops := ops s @ phase_ops now ph\<rparr>)"

text \<open>A worker takes a job, or goes on with the one it has.\<close>

definition worker_step :: "nat \<Rightarrow> time \<Rightarrow> system \<Rightarrow> system option" where
  "worker_step i now s =
     (if length (p_workers s) \<le> i then None
      else case p_workers s ! i of
          (w, Exited) \<Rightarrow> None
        | (w, Idle) \<Rightarrow> (case chan_recv (p_jobs s) of
              Received (Some m) c \<Rightarrow> Some (s\<lparr>p_jobs := c, p_workers := (p_workers s)[i := (w, Got m now)]\<rparr>)
            | Received None c \<Rightarrow> Some (s\<lparr>p_jobs := c\<rparr>)
            | RecvClosed \<Rightarrow> Some (s\<lparr>p_workers := (p_workers s)[i := (w, Exited)]\<rparr>)
            | RecvBlocks \<Rightarrow> None)
        | (w, ph) \<Rightarrow> Some (continue_work i now w ph s))"

text \<open>The \<open>stopChan\<close> branch of \<open>Run\<close>.\<close>

definition worker_quit :: "nat \<Rightarrow> system \<Rightarrow> system option" where
  "worker_quit i s =
     (if i < length (p_workers s) \<and> p_stopClosed s then
        (case p_workers s ! i of
           (w, Idle) \<Rightarrow> Some (s\<lparr>p_workers := (p_workers s)[i := (w, Exited)]\<rparr>)
         | _ \<Rightarrow> None)
      else None)"

text \<open>\<open>Stop\<close>, one statement at a time; the last one waits for every worker.\<close>

definition stop_step :: "system \<Rightarrow> system option" where
  "stop_step s =
     (case stopping s of
        NotStopping \<Rightarrow> Some (s\<lparr>stopping := (if p_isRunning s then StopChecked else Stopped)\<rparr>)
      | StopChecked \<Rightarrow> Some (s\<lparr>stopping := StopCleared, p_isRunning := False\<rparr>)
      | StopCleared \<Rightarrow> Some (if p_stopClosed s then s\<lparr>crashed := True\<rparr>
                            else s\<lparr>stopping := StopSignalled, p_stopClosed := True\<rparr>)
      | StopSignalled \<Rightarrow> Some (case chan_close (p_jobs s) of
            None \<Rightarrow> s\<lparr>crashed := True\<rparr>
          | Some c \<Rightarrow> s\<lparr>stopping := JobsClosed, p_jobs := c\<rparr>)
      | JobsClosed \<Rightarrow> if list_all (\<lambda>(w, ph). ph = Exited) (p_workers s)
                     then Some (s\<lparr>stopping := Stopped\<rparr>) else None
      | Stopped \<Rightarrow> None)"

fun exec :: "act \<Rightarrow> system \<Rightarrow> system option" where
  "exec a s =
     (if crashed s then None
      else case a of
          Call k m \<Rightarrow> Some (s\<lparr>calls := calls s @
            [if \<not> p_isRunning s then Returned (Some NotRunning)
             else case k of Enqueue \<Rightarrow> Blocking m | TryEnqueue \<Rightarrow> Trying m]\<rparr>)
        | Proceed i \<Rightarrow> proceed i s
        | GiveUp i \<Rightarrow> give_up i s
        | Work i now \<Rightarrow> worker_step i now s
        | Quit i \<Rightarrow> worker_quit i s
        | StopStep \<Rightarrow> stop_step s
        | Scan ids now timeout \<Rightarrow>
            Some (s\<lparr>p_store := snd (CheckStale ids now timeout (p_store s)),
                    ops := ops s @ [OpStale ids now timeout]\<rparr>))"

declare exec.simps [simp del]

fun exec_all :: "act list \<Rightarrow> system \<Rightarrow> system option" where
  "exec_all [] s = Some s"
| "exec_all (a # as) s = Option.bind (exec a s) (exec_all as)"

definition idle_system :: "Processor \<Rightarrow> system" where
  "idle_system p = Processor.Processor.extend p (system.fields [] NotStopping False [] [])"

text \<open>A processor over a new store that has just been started.\<close>

definition started :: "ProcessorConfig \<Rightarrow> system" where
  "started config =
     (let p = NewProcessor config NewStateStore
      in idle_system (case Start p of Inr p' \<Rightarrow> p' | Inl _ \<Rightarrow> p))"

text \<open>No caller in the repository enqueues a nil message.\<close>

definition no_nil :: "act \<Rightarrow> bool" where
  "no_nil a = (case a of Call k m \<Rightarrow> m \<noteq> None | _ \<Rightarrow> True)"

inductive reachable :: "ProcessorConfig \<Rightarrow> system \<Rightarrow> bool" for config where
  start: "reachable config (started config)"
| step [step_intros]: "reachable config s \<Longrightarrow> exec a s = Some s' \<Longrightarrow> no_nil a \<Longrightarrow> reachable config s'"

lemma reachable_exec_all:
  "reachable config s \<Longrightarrow> list_all no_nil as \<Longrightarrow> exec_all as s = Some s' \<Longrightarrow> reachable config s'"
  by (induction as arbitrary: s) (auto split: bind_splits intro: step_intros)

section \<open>Case analysis\<close>

lemma proceed_cases:
  assumes "proceed i s = Some s'"
  obtains (send) m where "i < length (calls s)" "calls s ! i \<in> {Blocking m, Trying m}"
      "\<not> closed (p_jobs s)" "length (buf (p_jobs s)) < chan_cap (p_jobs s)"
      "s' = s\<lparr>p_jobs := (p_jobs s)\<lparr>buf := buf (p_jobs s) @ [m]\<rparr>,
              calls := (calls s)[i := Counting], accepted := accepted s @ [m]\<rparr>"
  | (reject) m where "i < length (calls s)" "calls s ! i = Trying (Some m)"
      "\<not> closed (p_jobs s)" "chan_cap (p_jobs s) \<le> length (buf (p_jobs s))"
      "s' = s\<lparr>p_queueFull := p_queueFull s + 1, calls := (calls s)[i := Returned (Some QueueFull)]\<rparr>"
  | (count) "i < length (calls s)" "calls s ! i = Counting"
      "s' = s\<lparr>p_enqueued := p_enqueued s + 1, calls := (calls s)[i := Returned None]\<rparr>"
  | (panic) "s' = s\<lparr>crashed := True\<rparr>" "i < length (calls s)"
      "closed (p_jobs s) \<or> calls s ! i = Trying None"
proof -
  have i: "i < length (calls s)" using assms by (simp add: proceed_def split: if_splits)
  have p: "\<not> length (calls s) \<le> i" using i by simp
  note d = proceed_def chan_send_def
  consider (c) "closed (p_jobs s)"
    | (r) "\<not> closed (p_jobs s)" "length (buf (p_jobs s)) < chan_cap (p_jobs s)"
    | (f) "\<not> closed (p_jobs s)" "chan_cap (p_jobs s) \<le> length (buf (p_jobs s))" by linarith
  note send_or_not = this
  show thesis
  proof (cases "calls s ! i")
    case (Blocking m)
    from send_or_not show thesis
    proof cases
      case c
      show thesis by (rule panic) (use assms i p Blocking c in \<open>simp_all add: d\<close>)
    next
      case r
      show thesis by (rule send [of m]) (use assms i p Blocking r in \<open>simp_all add: d\<close>)
    next
      case f
      then show thesis using assms p Blocking by (simp add: d)
    qed
  next
    case (Trying m)
    from send_or_not show thesis
    proof cases
      case c
      show thesis by (rule panic) (use assms i p Trying c in \<open>simp_all add: d\<close>)
    next
      case r
      show thesis by (rule send [of m]) (use assms i p Trying r in \<open>simp_all add: d\<close>)
    next
      case f
      show thesis
      proof (cases m)
        case None
        show thesis by (rule panic) (use assms i p Trying f None in \<open>simp_all add: d\<close>)
      next
        case (Some x)
        show thesis by (rule reject [of x]) (use assms i p Trying f Some in \<open>simp_all add: d\<close>)
      qed
    qed
  next
    case Counting
    show thesis by (rule count) (use assms i p Counting in \<open>simp_all add: d\<close>)
  next
    case (Returned r)
    then show thesis using assms p by (simp add: d)
  qed
qed

lemma worker_step_cases:
  assumes "worker_step i now s = Some s'"
  obtains (take) w m c where "i < length (p_workers s)" "p_workers s ! i = (w, Idle)"
      "buf (p_jobs s) = Some m # c"
      "s' = s\<lparr>p_jobs := (p_jobs s)\<lparr>buf := c\<rparr>, p_workers := (p_workers s)[i := (w, Got m now)]\<rparr>"
  | (take_nil) w c where "i < length (p_workers s)" "p_workers s ! i = (w, Idle)"
      "buf (p_jobs s) = None # c" "s' = s\<lparr>p_jobs := (p_jobs s)\<lparr>buf := c\<rparr>\<rparr>"
  | (leave) w where "i < length (p_workers s)" "p_workers s ! i = (w, Idle)"
      "buf (p_jobs s) = []" "closed (p_jobs s)"
      "s' = s\<lparr>p_workers := (p_workers s)[i := (w, Exited)]\<rparr>"
  | (work) w ph ph' w' st pl el where "i < length (p_workers s)" "p_workers s ! i = (w, ph)"
      "ph \<noteq> Idle" "ph \<noteq> Exited"
      "work now ph w (p_store s, p_procLatency s, p_e2eLatency s) = Some (ph', w', st, pl, el)"
      "s' = s\<lparr>p_workers := (p_workers s)[i := (w', ph')], p_store := st, p_procLatency := pl,
              p_e2eLatency := el, ops := ops s @ phase_ops now ph\<rparr>"
  | (panic) w ph where "s' = s\<lparr>crashed := True\<rparr>" "i < length (p_workers s)" "p_workers s ! i = (w, ph)"
      "work now ph w (p_store s, p_procLatency s, p_e2eLatency s) = None"
proof -
  have i: "i < length (p_workers s)" using assms by (simp add: worker_step_def split: if_splits)
  obtain w ph where w: "p_workers s ! i = (w, ph)" by fastforce
  consider "ph = Idle" | "ph = Exited" | "ph \<noteq> Idle" "ph \<noteq> Exited" by blast
  then show thesis
  proof cases
    case 1
    show thesis
    proof (cases "chan_recv (p_jobs s)")
      case (Received om c)
      then show thesis using assms 1 i w
        by (cases om) (simp_all add: worker_step_def, auto simp: chan_simps intro: take take_nil)
    qed (use assms 1 i w in \<open>simp_all add: worker_step_def\<close>, simp_all add: chan_simps leave)
  next
    case 2
    then show thesis using assms i w by (simp add: worker_step_def)
  next
    case 3
    then have "s' = continue_work i now w ph s"
      using i w assms by (cases ph) (simp_all add: worker_step_def)
    then show thesis using panic [OF _ i w] work [OF i w 3]
      by (cases "work now ph w (p_store s, p_procLatency s, p_e2eLatency s)") (auto simp: continue_work_def)
  qed
qed

text \<open>The queue and the calls hold no nil message.\<close>

definition nonnil :: "system \<Rightarrow> bool" where
  "nonnil s = (None \<notin> set (buf (p_jobs s)) \<and> (\<forall>c\<in>set (calls s). c \<noteq> Blocking None \<and> c \<noteq> Trying None))"

text \<open>The effects of all actions on a state without nil messages.\<close>

lemma exec_cases:
  assumes "exec a s = Some s'" and nil: "nonnil s"
  obtains (call) k m where "a = Call k m" "s' = s\<lparr>calls := calls s @
        [if \<not> p_isRunning s then Returned (Some NotRunning)
         else case k of Enqueue \<Rightarrow> Blocking m | TryEnqueue \<Rightarrow> Trying m]\<rparr>"
  | (send) i m where "i < length (calls s)" "calls s ! i \<in> {Blocking m, Trying m}"
      "\<not> closed (p_jobs s)" "length (buf (p_jobs s)) < chan_cap (p_jobs s)"
      "s' = s\<lparr>p_jobs := (p_jobs s)\<lparr>buf := buf (p_jobs s) @ [m]\<rparr>,
              calls := (calls s)[i := Counting], accepted := accepted s @ [m]\<rparr>"
  | (reject) i m where "i < length (calls s)" "calls s ! i = Trying (Some m)"
      "\<not> closed (p_jobs s)" "chan_cap (p_jobs s) \<le> length (buf (p_jobs s))"
      "s' = s\<lparr>p_queueFull := p_queueFull s + 1, calls := (calls s)[i := Returned (Some QueueFull)]\<rparr>"
  | (count) i where "i < length (calls s)" "calls s ! i = Counting"
      "s' = s\<lparr>p_enqueued := p_enqueued s + 1, calls := (calls s)[i := Returned None]\<rparr>"
  | (giveup) i m where "i < length (calls s)" "calls s ! i = Blocking m"
      "s' = s\<lparr>calls := (calls s)[i := Returned (Some Stopping)]\<rparr>"
  | (take) i w m now c where "i < length (p_workers s)" "p_workers s ! i = (w, Idle)"
      "buf (p_jobs s) = Some m # c"
      "s' = s\<lparr>p_jobs := (p_jobs s)\<lparr>buf := c\<rparr>, p_workers := (p_workers s)[i := (w, Got m now)]\<rparr>"
  | (leave) i w where "i < length (p_workers s)" "p_workers s ! i = (w, Idle)"
      "p_stopClosed s \<or> closed (p_jobs s)" "s' = s\<lparr>p_workers := (p_workers s)[i := (w, Exited)]\<rparr>"
  | (work) i w ph now ph' w' st pl el where "i < length (p_workers s)" "p_workers s ! i = (w, ph)"
      "ph \<noteq> Idle" "ph \<noteq> Exited"
      "work now ph w (p_store s, p_procLatency s, p_e2eLatency s) = Some (ph', w', st, pl, el)"
      "s' = s\<lparr>p_workers := (p_workers s)[i := (w', ph')], p_store := st, p_procLatency := pl,
              p_e2eLatency := el, ops := ops s @ phase_ops now ph\<rparr>"
  | (scan) ids now t where
      "s' = s\<lparr>p_store := snd (CheckStale ids now t (p_store s)), ops := ops s @ [OpStale ids now t]\<rparr>"
  | (stop) "stop_step s = Some s'"
  | (panic) "s' = s\<lparr>crashed := True\<rparr>" "closed (p_jobs s)"
  | (work_panic) i w ph now where "s' = s\<lparr>crashed := True\<rparr>" "i < length (p_workers s)"
      "p_workers s ! i = (w, ph)" "work now ph w (p_store s, p_procLatency s, p_e2eLatency s) = None"
proof -
  have live: "\<not> crashed s" using assms by (simp add: exec.simps split: if_splits)
  show thesis
  proof (cases a)
    case (Call k m)
    then show thesis using assms live call by (simp add: exec.simps)
  next
    case (Proceed i)
    then have "proceed i s = Some s'" using assms live by (simp add: exec.simps)
    then show thesis
    proof (cases rule: proceed_cases)
      case panic
      then show thesis using that(11) nil nth_mem [of i "calls s"] by (fastforce simp: nonnil_def)
    qed (fact send reject count)+
  next
    case (GiveUp i)
    then have "give_up i s = Some s'" using assms live by (simp add: exec.simps)
    then show thesis using giveup by (auto simp: give_up_def split: if_splits call.splits)
  next
    case (Work i now)
    then have "worker_step i now s = Some s'" using assms live by (simp add: exec.simps)
    then show thesis
    proof (cases rule: worker_step_cases)
      case (take_nil w c)
      then show thesis using nil by (simp add: nonnil_def)
    next
      case (leave w)
      then show thesis using that(7) by blast
    qed (fact take work work_panic)+
  next
    case (Quit i)
    then have "worker_quit i s = Some s'" using assms live by (simp add: exec.simps)
    then show thesis using leave
      by (auto simp: worker_quit_def split: if_splits prod.splits phase.splits)
  next
    case StopStep
    then show thesis using assms live stop by (simp add: exec.simps)
  next
    case (Scan ids now t)
    show thesis by (rule scan [of ids now t]) (use Scan assms live in \<open>simp add: exec.simps\<close>)
  qed
qed

lemma stop_step_cases:
  assumes "stop_step s = Some s'"
  obtains (begin_running) "stopping s = NotStopping" "p_isRunning s" "s' = s\<lparr>stopping := StopChecked\<rparr>"
  | (begin_idle) "stopping s = NotStopping" "\<not> p_isRunning s" "s' = s\<lparr>stopping := Stopped\<rparr>"
  | (clear) "stopping s = StopChecked" "s' = s\<lparr>stopping := StopCleared, p_isRunning := False\<rparr>"
  | (signal) "stopping s = StopCleared" "\<not> p_stopClosed s" "s' = s\<lparr>stopping := StopSignalled, p_stopClosed := True\<rparr>"
  | (signal_panic) "stopping s = StopCleared" "p_stopClosed s" "s' = s\<lparr>crashed := True\<rparr>"
  | (close_jobs) "stopping s = StopSignalled" "\<not> closed (p_jobs s)"
      "s' = s\<lparr>stopping := JobsClosed, p_jobs := (p_jobs s)\<lparr>closed := True\<rparr>\<rparr>"
  | (close_panic) "stopping s = StopSignalled" "closed (p_jobs s)" "s' = s\<lparr>crashed := True\<rparr>"
  | (finish) "stopping s = JobsClosed" "list_all (\<lambda>(w, ph). ph = Exited) (p_workers s)" "s' = s\<lparr>stopping := Stopped\<rparr>"
proof (cases "stopping s")
  case NotStopping
  then show thesis using assms begin_running begin_idle
    by (cases "p_isRunning s") (simp_all add: stop_step_def)
next
  case StopChecked
  then show thesis using assms clear by (simp add: stop_step_def)
next
  case StopCleared
  then show thesis using assms signal signal_panic
    by (cases "p_stopClosed s") (simp_all add: stop_step_def)
next
  case StopSignalled
  then show thesis using assms close_jobs close_panic
    by (cases "closed (p_jobs s)") (simp_all add: stop_step_def chan_close_def)
next
  case JobsClosed
  then show thesis using assms finish
    by (cases "list_all (\<lambda>(w, ph). ph = Exited) (p_workers s)") (simp_all add: stop_step_def)
next
  case Stopped
  then show thesis using assms by (simp add: stop_step_def)
qed

end
