(* ===== verification/Pool_Invariants.thy ===== *)
theory Pool_Invariants
  imports Processor
begin

text \<open>
  Invariants of the worker pool under every interleaving: no accepted message is lost or handled
  twice, the workers' counters and the store's counters agree up to what the workers have in
  hand, the queue stays within its capacity and nothing panics before shutdown.
\<close>

section \<open>The books\<close>

text \<open>What a worker in a given phase has still to enter in a counter, or has entered early.\<close>

fun in_hand :: "phase \<Rightarrow> TelemetryMessage list" where
  "in_hand (Got m start) = [m]"
| "in_hand _ = []"

definition applied :: "phase \<Rightarrow> u64" where
  "applied ph = of_bool (case ph of CountDropped m t r \<Rightarrow> True | CountDuplicate m t r \<Rightarrow> True
     | CountLate m t r \<Rightarrow> True | Judging m t \<Rightarrow> True | _ \<Rightarrow> False)"

definition due_dropped :: "phase \<Rightarrow> u64" where
  "due_dropped ph = (case ph of CountDropped m t r \<Rightarrow> ur_DroppedCount r | _ \<Rightarrow> 0)"

definition due_duplicate :: "phase \<Rightarrow> u64" where
  "due_duplicate ph = of_bool (case ph of CountDropped m t r \<Rightarrow> IsDuplicate r
     | CountDuplicate m t r \<Rightarrow> IsDuplicate r | _ \<Rightarrow> False)"

definition due_late :: "phase \<Rightarrow> u64" where
  "due_late ph = of_bool (case ph of CountDropped m t r \<Rightarrow> IsOutOfOrder r
     | CountDuplicate m t r \<Rightarrow> IsOutOfOrder r | CountLate m t r \<Rightarrow> IsOutOfOrder r | _ \<Rightarrow> False)"

definition ahead_anomaly :: "phase \<Rightarrow> u64" where
  "ahead_anomaly ph = of_bool (case ph of Blaming m t e \<Rightarrow> is_validation e | _ \<Rightarrow> False)"

definition ahead_error :: "phase \<Rightarrow> u64" where
  "ahead_error ph = of_bool (case ph of Blaming m t e \<Rightarrow> \<not> is_validation e | _ \<Rightarrow> False)"

lemmas due_defs = applied_def due_dropped_def due_duplicate_def due_late_def
  ahead_anomaly_def ahead_error_def

text \<open>Each counter of the store with the workers' side of the account.\<close>

definition books :: "((Worker \<times> phase \<Rightarrow> u64) \<times> (SensorState \<Rightarrow> u64)) set" where
  "books =
     {(\<lambda>(w, ph). w_outcomes w + applied ph, st_MessageCount),
      (\<lambda>(w, ph). w_dropped w + due_dropped ph, st_DroppedCount),
      (\<lambda>(w, ph). w_duplicates w + due_duplicate ph, st_DuplicateCount),
      (\<lambda>(w, ph). w_outOfOrder w + due_late ph, st_OutOfOrderCount),
      (\<lambda>(w, ph). w_errors w - ahead_error ph, st_ErrorCount),
      (\<lambda>(w, ph). w_anomalies w - ahead_anomaly ph, st_AnomalyCount)}"

text \<open>The message whose sensor a worker will report on: the store knows it already.\<close>

fun reported :: "phase \<Rightarrow> TelemetryMessage option" where
  "reported (CountDropped m t r) = Some m"
| "reported (CountDuplicate m t r) = Some m"
| "reported (CountLate m t r) = Some m"
| "reported (Judging m t) = Some m"
| "reported (Blaming m t e) = Some m"
| "reported _ = None"

definition known :: "StateStore \<Rightarrow> phase \<Rightarrow> bool" where
  "known st ph = (case reported ph of None \<Rightarrow> True | Some m \<Rightarrow> Get (SensorID m) st \<noteq> None)"

text \<open>The entry and exit phases carry nothing.\<close>

lemma books_idle:
  "(g, f) \<in> books \<Longrightarrow> g (w, Got m t) = g (w, Idle)"
  "(g, f) \<in> books \<Longrightarrow> g (w, Exited) = g (w, Idle)"
  by (auto simp: books_def due_defs)

lemma books_new: "(g, f) \<in> books \<Longrightarrow> g (NewWorker i, Idle) = 0"
  by (auto simp: books_def due_defs NewWorker_def w_outcomes_def)

text \<open>One step of a worker changes both sides alike.\<close>

lemma work_Got:
  assumes "store_ok s" and "(g, f) \<in> books"
  shows "store_total f (snd (Update now m s)) + g (w, Got m t) =
    store_total f s + g (w, CountDropped m t (fst (Update now m s)))"
  using assms(2)
  by (auto simp: books_def due_defs store.upd_messages store.upd_dropped store.upd_duplicates
      store.upd_late store.upd_errors store.upd_anomalies assms(1) algebra_simps)

lemma work_Blaming:
  assumes "store_ok s" and "(g, f) \<in> books" and "Get (SensorID m) s \<noteq> None"
  shows "store_total f (record_outcome (Some e) (SensorID m) s) + g (w, Blaming m t e) =
    store_total f s + g (w, TimingWork m t)"
  using assms
  by (auto simp: books_def due_defs record_outcome_def store.err_errors store.err_frame
      store.anom_anomalies store.anom_frame algebra_simps)

lemma work_books:
  assumes "work now ph w (s, pl, el) = Some (ph', w', s', pl', el')"
    and "store_ok s" and "known s ph" and "(g, f) \<in> books"
  shows "store_total f s' + g (w, ph) = store_total f s + g (w', ph')"
proof (cases ph)
  case (Got m t)
  then show ?thesis using assms(1) work_Got [OF assms(2,4), of now m w t]
    by (auto split: prod.splits)
next
  case (Blaming m t e)
  then show ?thesis using assms(1,3) work_Blaming [OF assms(2,4), of m e w t]
    by (auto simp: known_def)
next
  case (Judging m t)
  then show ?thesis using assms(1,4)
    by (auto simp: books_def due_defs algebra_simps split: option.splits)
qed (use assms(1,4) in \<open>auto simp: books_def due_defs split: option.splits\<close>)

section \<open>Invariants\<close>

definition updates :: "store_op list \<Rightarrow> TelemetryMessage list" where
  "updates os = concat (map (\<lambda>p. case p of OpUpdate now m \<Rightarrow> [m] | _ \<Rightarrow> []) os)"

lemma updates_append [simp]: "updates (os @ os') = updates os @ updates os'"
  by (simp add: updates_def)

lemma updates_simps [simp]:
  "updates [] = []" "updates [OpUpdate now m] = [m]" "updates [OpError sid] = []"
  "updates [OpAnomaly sid] = []" "updates [OpStale ids now t] = []"
  by (simp_all add: updates_def)

text \<open>The components' own invariants, and the store as the result of the calls made on it.\<close>

definition pool_ok :: "system \<Rightarrow> bool" where
  "pool_ok s = (nonnil s \<and> store_ok (p_store s) \<and> exec_ops (ops s) NewStateStore = p_store s \<and>
     recorder_ok (p_procLatency s) \<and> recorder_ok (p_e2eLatency s) \<and> chan_ok (p_jobs s) \<and>
     (\<forall>(w, ph)\<in>set (p_workers s). known (p_store s) ph))"

lemma nonnil_update:
  "nonnil s \<Longrightarrow> c \<noteq> Blocking None \<Longrightarrow> c \<noteq> Trying None \<Longrightarrow> nonnil (s\<lparr>calls := (calls s)[i := c]\<rparr>)"
  by (auto simp: nonnil_def dest!: subsetD [OF set_update_subset_insert])

lemma known_idle [simp]: "known st Idle" "known st Exited" "known st (Got m t)"
  "known st (TimingWork m t)" "known st (TimingTotal m)"
  by (simp_all add: known_def)

lemma work_pool:
  assumes "work now ph w (s, pl, el) = Some (ph', w', s', pl', el')"
    and "known s ph" and "recorder_ok pl" and "recorder_ok el" and "store_ok s"
  shows "s' = exec_ops (phase_ops now ph) s" and "recorder_ok pl'" and "recorder_ok el'"
    and "known s' ph'" and "known s ph0 \<Longrightarrow> known s' ph0" and "store_ok s'"
proof -
  have r: "recorder_ok r'" if "Record d r = Some r'" "recorder_ok r" for d r r'
    using latency.rcd_ok [OF that(2), of d] that(1) by auto
  show "recorder_ok pl'" "recorder_ok el'" using assms r by (cases ph; auto split: prod.splits)+
  have s': "s' = exec_ops (phase_ops now ph) s"
    using assms(1) by (cases ph) (auto simp: exec_ops_def record_outcome_def split: prod.splits)
  then show "s' = exec_ops (phase_ops now ph) s" .
  have mono: "Get sid s \<noteq> None \<Longrightarrow> Get sid s' \<noteq> None" for sid
    unfolding s' by (cases ph)
      (auto simp: exec_ops_def store.known_upd store.known_err store.known_anom simp del: not_None_eq)
  then show "known s ph0 \<Longrightarrow> known s' ph0" by (auto simp: known_def split: option.splits)
  have "Update now m s = (r, s') \<Longrightarrow> \<exists>st. Get (SensorID m) s' = Some st" for m r
    using store.known_upd [of "SensorID m" now m s] by simp
  then show "known s' ph'" using assms(1,2) mono
    by (cases ph) (auto simp: known_def split: prod.splits option.splits)
  show "store_ok s'" unfolding s' using assms(5)
    by (cases ph) (auto simp: exec_ops_def store.inv_upd store.inv_err store.inv_anom)
qed

lemma known_update:
  "\<forall>(w, ph)\<in>set ws. known st ph \<Longrightarrow> known st ph' \<Longrightarrow> \<forall>(w, ph)\<in>set (ws[i := (w', ph')]). known st ph"
  by (auto dest!: subsetD [OF set_update_subset_insert])

lemma pool_ok_step:
  assumes "exec a s = Some s'" and ok: "pool_ok s" and "no_nil a"
  shows "pool_ok s'"
proof -
  have nil: "nonnil s" and st: "exec_ops (ops s) NewStateStore = p_store s"
    and kn: "\<forall>(w, ph)\<in>set (p_workers s). known (p_store s) ph"
    using ok by (auto simp: pool_ok_def)
  from assms(1) nil show ?thesis
  proof (cases rule: exec_cases)
    case (call k m)
    then show ?thesis using ok assms(3) by (auto simp: pool_ok_def nonnil_def no_nil_def split: call_kind.splits)
  next
    case (send i m)
    then have "Blocking m \<in> set (calls s) \<or> Trying m \<in> set (calls s)" using nth_mem [of i "calls s"] by fastforce
    then have "m \<noteq> None" using nil by (auto simp: nonnil_def)
    then show ?thesis using send ok nonnil_update [OF nil, of Counting i]
      by (auto simp: pool_ok_def nonnil_def chan_ok_def)
  next
    case (reject i m)
    then show ?thesis using ok nonnil_update [OF nil, of "Returned (Some QueueFull)" i]
      by (auto simp: pool_ok_def nonnil_def)
  next
    case (count i)
    then show ?thesis using ok nonnil_update [OF nil, of "Returned None" i]
      by (auto simp: pool_ok_def nonnil_def)
  next
    case (giveup i m)
    then show ?thesis using ok nonnil_update [OF nil, of "Returned (Some Stopping)" i]
      by (auto simp: pool_ok_def nonnil_def)
  next
    case (take i w m now c)
    then show ?thesis using ok known_update [OF kn, of "Got m now" i w]
      by (auto simp: pool_ok_def nonnil_def chan_ok_def)
  next
    case (leave i w)
    then show ?thesis using ok known_update [OF kn, of Exited i w]
      by (auto simp: pool_ok_def nonnil_def)
  next
    case (work i w ph now ph' w' st pl el)
    have "known (p_store s) ph" using kn nth_mem [OF work(1)] work(2) by auto
    note w = work_pool [OF work(5) this]
    have "\<forall>(w, ph)\<in>set (p_workers s). known st ph" using kn w(5) ok by (fastforce simp: pool_ok_def)
    then have "\<forall>(w, ph)\<in>set ((p_workers s)[i := (w', ph')]). known st ph"
      using known_update w(4) ok by (simp add: pool_ok_def)
    moreover have "exec_ops (ops s @ phase_ops now ph) NewStateStore = st"
      using w(1) ok st by (simp add: pool_ok_def exec_ops_def)
    moreover have "store_ok st" "recorder_ok pl" "recorder_ok el" using w(2,3,6) ok by (simp_all add: pool_ok_def)
    ultimately show ?thesis using work(6) ok by (simp add: pool_ok_def nonnil_def)
  next
    case (scan ids now t)
    have "store_ok (snd (CheckStale ids now t (p_store s)))"
      using store_ok_op [of "p_store s" "OpStale ids now t"] ok by (simp add: pool_ok_def)
    moreover have "known (p_store s) ph \<Longrightarrow> known (snd (CheckStale ids now t (p_store s))) ph" for ph
      using Get_CheckStale by (auto simp: known_def split: option.splits)
    ultimately show ?thesis using scan ok st by (auto simp: pool_ok_def nonnil_def exec_ops_def)
  next
    case stop
    then show ?thesis using ok by (cases rule: stop_step_cases) (auto simp: pool_ok_def nonnil_def chan_ok_def)
  qed (use ok in \<open>auto simp: pool_ok_def nonnil_def\<close>)
qed

text \<open>The accounts of the store and of the workers agree, entry by entry.\<close>

definition books_ok :: "system \<Rightarrow> bool" where
  "books_ok s = (\<forall>(g, f)\<in>books. store_total f (p_store s) = sum_list (map g (p_workers s)))"

lemma books_ok_step:
  assumes "exec a s = Some s'" and ok: "pool_ok s" and books: "books_ok s"
  shows "books_ok s'"
  unfolding books_ok_def
proof (clarify)
  fix g f
  assume gf: "(g, f) \<in> books"
  have eq: "store_total f (p_store s) = sum_list (map g (p_workers s))"
    using books gf by (auto simp: books_ok_def)
  have nil: "nonnil s" using ok by (simp add: pool_ok_def)
  have same: "sum_list (map g ((p_workers s)[i := x])) = sum_list (map g (p_workers s))"
    if "i < length (p_workers s)" "g x = g (p_workers s ! i)" for i x
    using that by (simp add: sum_list_update_add)
  from assms(1) nil show "store_total f (p_store s') = sum_list (map g (p_workers s'))"
  proof (cases rule: exec_cases)
    case (take i w m now c)
    then show ?thesis using same [OF take(1)] books_idle(1) [OF gf] eq by simp
  next
    case (leave i w)
    then show ?thesis using same [OF leave(1)] books_idle(2) [OF gf] eq by simp
  next
    case (work i w ph now ph' w' st pl el)
    have "known (p_store s) ph" using ok nth_mem [OF work(1)] work(2) by (auto simp: pool_ok_def)
    then have "store_total f st + g (w, ph) = store_total f (p_store s) + g (w', ph')"
      using work_books [OF work(5) _ _ gf] ok by (simp add: pool_ok_def)
    then show ?thesis using work eq by (simp add: sum_list_update_add algebra_simps)
  next
    case (scan ids now t)
    have "f (st\<lparr>st_Status := StatusStale\<rparr>) = f st" for st using gf by (auto simp: books_def)
    then show ?thesis using scan eq by (simp add: store_total_CheckStale)
  next
    case stop
    then show ?thesis using eq by (cases rule: stop_step_cases) simp_all
  qed (use eq in simp_all)
qed

text \<open>Where every accepted message is: in the queue, in a worker's hand, or in the store.\<close>

definition hands :: "system \<Rightarrow> TelemetryMessage list" where
  "hands s = concat (map (in_hand \<circ> snd) (p_workers s))"

definition flow_ok :: "system \<Rightarrow> bool" where
  "flow_ok s = (mset (accepted s) =
     mset (buf (p_jobs s)) + image_mset Some (mset (hands s) + mset (updates (ops s))))"

lemma hands_update:
  "i < length ws \<Longrightarrow> mset (concat (map (in_hand \<circ> snd) (ws[i := (w, ph)]))) + mset (in_hand (snd (ws ! i)))
     = mset (concat (map (in_hand \<circ> snd) ws)) + mset (in_hand ph)"
  using mset_concat_update [of i ws "in_hand \<circ> snd" "(w, ph)"] by simp

lemma work_hand:
  assumes "work now ph w (s, pl, el) = Some (ph', w', s', pl', el')"
  shows "in_hand ph = updates (phase_ops now ph)" and "in_hand ph' = []"
  using assms by (cases ph; auto split: prod.splits option.splits)+

lemma flow_ok_step:
  assumes "exec a s = Some s'" and "nonnil s" and flow: "flow_ok s"
  shows "flow_ok s'"
  using assms(1,2)
proof (cases rule: exec_cases)
  case (take i w m now c)
  then show ?thesis using flow hands_update [OF take(1), of w "Got m now"]
    by (simp add: flow_ok_def hands_def)
next
  case (leave i w)
  then show ?thesis using flow hands_update [OF leave(1), of w Exited]
    by (simp add: flow_ok_def hands_def)
next
  case (work i w ph now ph' w' st pl el)
  have "mset (hands s) = mset (hands s') + mset (updates (phase_ops now ph))"
    using hands_update [OF work(1), of w' ph'] work_hand [OF work(5)] work(2,6)
    by (simp add: hands_def)
  then show ?thesis using flow work(6) by (simp add: flow_ok_def)
next
  case stop
  then show ?thesis using flow by (cases rule: stop_step_cases) (simp_all add: flow_ok_def hands_def)
qed (use flow in \<open>simp_all add: flow_ok_def hands_def\<close>)

text \<open>The counter of enqueued messages lags behind by the calls that have yet to count.\<close>

definition count_ok :: "system \<Rightarrow> bool" where
  "count_ok s = (p_enqueued s + sum_list (map (\<lambda>c. of_bool (c = Counting)) (calls s))
     = of_nat (length (accepted s)))"

lemma count_ok_step:
  assumes "exec a s = Some s'" and "nonnil s" and "count_ok s"
  shows "count_ok s'"
  using assms(1,2)
proof (cases rule: exec_cases)
  case (call k m)
  then show ?thesis using assms(3) by (cases k) (simp_all add: count_ok_def)
next
  case stop
  then show ?thesis using assms(3) by (cases rule: stop_step_cases) (simp_all add: count_ok_def)
qed (use assms(3) in \<open>auto simp: count_ok_def sum_list_update_add algebra_simps\<close>)

text \<open>The flags against the progress of \<open>Stop\<close>, and the sizes fixed by the configuration.\<close>

definition sizes_ok :: "ProcessorConfig \<Rightarrow> system \<Rightarrow> bool" where
  "sizes_ok config s =
     (p_config s = p_config (NewProcessor config NewStateStore) \<and>
      length (p_workers s) = nat (NumWorkers (p_config s)) \<and>
      chan_cap (p_jobs s) = nat (QueueSize (p_config s)))"

definition flags_ok :: "system \<Rightarrow> bool" where
  "flags_ok s =
     ((p_isRunning s \<longleftrightarrow> stopping s = NotStopping \<or> stopping s = StopChecked) \<and>
      (p_stopClosed s \<longleftrightarrow> stopping s = StopSignalled \<or> stopping s = JobsClosed \<or> stopping s = Stopped) \<and>
      (closed (p_jobs s) \<longleftrightarrow> stopping s = JobsClosed \<or> stopping s = Stopped) \<and>
      (crashed s \<longrightarrow> closed (p_jobs s)) \<and>
      (\<forall>(w, ph)\<in>set (p_workers s). ph = Exited \<longrightarrow> p_stopClosed s) \<and>
      (stopping s = Stopped \<longrightarrow> (\<forall>(w, ph)\<in>set (p_workers s). ph = Exited)))"

lemma sizes_ok_step:
  assumes "exec a s = Some s'" and "nonnil s" and "sizes_ok config s"
  shows "sizes_ok config s'"
  using assms(1,2)
proof (cases rule: exec_cases)
  case stop
  then show ?thesis using assms(3) by (cases rule: stop_step_cases) (simp_all add: sizes_ok_def)
qed (use assms(3) in \<open>simp_all add: sizes_ok_def\<close>)

lemma work_total:
  assumes "recorder_ok pl" and "recorder_ok el"
  shows "work now ph w (s, pl, el) \<noteq> None"
proof -
  have "\<exists>r'. Record d r = Some r'" if "recorder_ok r" for d r
    using latency.rcd_ok [OF that, of d] by blast
  then show ?thesis using assms by (cases ph) (auto split: prod.splits)
qed

lemma work_not_exited: "work now ph w sh = Some (ph', w', sh') \<Longrightarrow> ph \<noteq> Exited \<Longrightarrow> ph' \<noteq> Exited"
  by (cases ph; cases sh) (auto split: prod.splits option.splits)

lemma exited_update:
  "\<forall>(w, ph)\<in>set ws. ph = Exited \<longrightarrow> b \<Longrightarrow> ph' \<noteq> Exited \<or> b \<Longrightarrow>
   \<forall>(w, ph)\<in>set (ws[i := (w', ph')]). ph = Exited \<longrightarrow> b"
  by (auto dest!: subsetD [OF set_update_subset_insert])

lemma flags_ok_step:
  assumes "exec a s = Some s'" and ok: "pool_ok s" and "flags_ok s"
  shows "flags_ok s'"
proof -
  have ex: "\<forall>(w, ph)\<in>set (p_workers s). ph = Exited \<longrightarrow> p_stopClosed s"
    and dead: "stopping s = Stopped \<Longrightarrow> p_workers s ! i = (w, ph) \<Longrightarrow> i < length (p_workers s) \<Longrightarrow> ph = Exited" for i w ph
    using assms(3) nth_mem [of i "p_workers s"] by (fastforce simp: flags_ok_def)+
  have "nonnil s" using ok by (simp add: pool_ok_def)
  with assms(1) show ?thesis
  proof (cases rule: exec_cases)
    case (take i w m now c)
    then show ?thesis using assms(3) exited_update [OF ex, of "Got m now" i w] dead [OF _ take(2,1)]
      by (cases "stopping s") (auto simp: flags_ok_def)
  next
    case (leave i w)
    then have "p_stopClosed s" using assms(3) by (auto simp: flags_ok_def)
    then show ?thesis using leave assms(3) exited_update [OF ex, of Exited i w] dead [OF _ leave(2,1)]
      by (cases "stopping s") (auto simp: flags_ok_def)
  next
    case (work i w ph now ph' w' st pl el)
    then show ?thesis
      using assms(3) exited_update [OF ex, of ph' i w'] work_not_exited [OF work(5,4)] dead [OF _ work(2,1)] work(4)
      by (cases "stopping s") (auto simp: flags_ok_def)
  next
    case stop
    then show ?thesis using assms(3)
      by (cases rule: stop_step_cases) (auto simp: flags_ok_def list_all_iff)
  next
    case (work_panic i w ph now)
    moreover have "recorder_ok (p_procLatency s)" "recorder_ok (p_e2eLatency s)"
      using ok by (simp_all add: pool_ok_def)
    ultimately show ?thesis using work_total by blast
  qed (use assms(3) in \<open>auto simp: flags_ok_def\<close>)
qed

section \<open>Reachable states\<close>

lemma started_simps [simp]:
  "p_config (started config) = p_config (NewProcessor config NewStateStore)"
  "p_store (started config) = NewStateStore"
  "p_workers (started config) = map (\<lambda>i. (NewWorker i, Idle))
     [0..<nat (NumWorkers (p_config (NewProcessor config NewStateStore)))]"
  "p_jobs (started config) = make_chan (nat (QueueSize (p_config (NewProcessor config NewStateStore))))"
  "\<not> p_stopClosed (started config)" "p_isRunning (started config)"
  "p_procLatency (started config) = NewLatencyRecorder 0" "p_e2eLatency (started config) = NewLatencyRecorder 0"
  "p_enqueued (started config) = 0" "p_queueFull (started config) = 0"
  "calls (started config) = []" "stopping (started config) = NotStopping" "\<not> crashed (started config)"
  "accepted (started config) = []" "ops (started config) = []"
  by (simp_all add: started_def idle_system_def Start_def NewProcessor_def Let_def
      Processor.Processor.extend_def system.fields_def)

definition inv :: "ProcessorConfig \<Rightarrow> system \<Rightarrow> bool" where
  "inv config s = (pool_ok s \<and> books_ok s \<and> flow_ok s \<and> count_ok s \<and> sizes_ok config s \<and> flags_ok s)"

lemma inv_started: "inv config (started config)"
proof -
  have "sum_list (map g (map (\<lambda>i. (NewWorker i, Idle)) xs)) = 0" if "(g, f) \<in> books" for g f xs
    using books_new [OF that] by (induction xs) simp_all
  moreover have "concat (map (in_hand \<circ> snd \<circ> (\<lambda>i. (NewWorker i, Idle))) xs) = []" for xs
    by (induction xs) simp_all
  moreover have "store_total f NewStateStore = 0" for f
    by (simp add: store_total_def NewStateStore_def)
  ultimately show ?thesis
    by (auto simp: inv_def pool_ok_def nonnil_def books_ok_def flow_ok_def count_ok_def sizes_ok_def
        flags_ok_def hands_def exec_ops_def comp_def)
qed

lemma inv_step: "inv config s \<Longrightarrow> exec a s = Some s' \<Longrightarrow> no_nil a \<Longrightarrow> inv config s'"
  using pool_ok_step books_ok_step flow_ok_step count_ok_step sizes_ok_step flags_ok_step
  by (simp add: inv_def pool_ok_def [of s])

lemma reachable_inv: "reachable config s \<Longrightarrow> inv config s"
  by (induction rule: reachable.induct) (auto intro: inv_started inv_step)

section \<open>Consequences\<close>

lemma total_messages: "store_total st_MessageCount (exec_ops os NewStateStore) = of_nat (length (updates os))"
proof (induction os rule: rev_induct)
  case Nil
  then show ?case by (simp add: exec_ops_def store_total_def NewStateStore_def)
next
  case (snoc p os)
  have "store_ok (exec_ops os NewStateStore)" by (rule store_ok_run)
  then show ?case using snoc
    by (cases p) (simp_all add: exec_ops_def store.upd_messages store.err_frame store.anom_frame
        store_total_CheckStale)
qed

lemma flow_length:
  assumes "inv config s"
  shows "length (accepted s) = length (buf (p_jobs s)) + length (hands s) + length (updates (ops s))"
proof -
  have "size (mset (accepted s))
      = size (mset (buf (p_jobs s)) + image_mset Some (mset (hands s) + mset (updates (ops s))))"
    using assms by (simp only: inv_def flow_ok_def)
  then show ?thesis by (simp only: size_union size_image_mset size_mset)
qed

lemma no_counting: "Counting \<notin> set cs \<Longrightarrow> sum_list (map (\<lambda>c. of_bool (c = Counting)) cs) = (0 :: u64)"
  by (induction cs) auto

lemma Stats_totals:
  assumes "Stats s = Some st"
  shows "ps_TotalMessagesProcessed st = sum_list (map (\<lambda>w. w_messagesProcessed (fst w)) (p_workers s))"
    and "ps_TotalErrors st = sum_list (map (\<lambda>w. w_errors (fst w)) (p_workers s))"
    and "ps_TotalAnomalies st = sum_list (map (\<lambda>w. w_anomalies (fst w)) (p_workers s))"
    and "ps_TotalDropped st = sum_list (map (\<lambda>w. w_dropped (fst w)) (p_workers s))"
    and "ps_TotalDuplicates st = sum_list (map (\<lambda>w. w_duplicates (fst w)) (p_workers s))"
    and "ps_TotalOutOfOrder st = sum_list (map (\<lambda>w. w_outOfOrder (fst w)) (p_workers s))"
    and "ps_TotalMessagesEnqueued st = p_enqueued s"
    and "ps_QueueDepth st = length (buf (p_jobs s))"
  using assms
  by (auto simp: Stats_def Let_def Worker_Stats_def comp_def split: if_splits bind_splits)

end
