(* ===== verification/Pool_Properties.thy ===== *)
theory Pool_Properties
  imports Pool_Invariants
begin

text \<open>
  What the invariants of the worker pool give its callers: accepted messages are accounted for,
  \<open>Stats\<close> is consistent, the queue is bounded, backpressure is what \<open>Enqueue\<close> and
  \<open>TryEnqueue\<close> promise, and what the order of processing is with one and with several workers.
\<close>

section \<open>Sample runs\<close>

text \<open>The samples of a simulated run: one configuration, one caller's two messages.\<close>

definition two_workers :: ProcessorConfig where
  "two_workers = \<lparr>NumWorkers = 2, QueueSize = 10\<rparr>"

lemma two_workers_simps [simp]: "NumWorkers two_workers = 2" "QueueSize two_workers = 10"
  by (simp_all add: two_workers_def)

lemma started_two_workers:
  "started two_workers =
     \<lparr>p_config = two_workers, p_store = NewStateStore,
      p_workers = [(NewWorker 0, Idle), (NewWorker 1, Idle)],
      p_jobs = \<lparr>buf = [], chan_cap = 10, closed = False\<rparr>, p_stopClosed = False, p_isRunning = True,
      p_procLatency = NewLatencyRecorder 0, p_e2eLatency = NewLatencyRecorder 0,
      p_enqueued = 0, p_queueFull = 0, calls = [], stopping = NotStopping, crashed = False,
      accepted = [], ops = []\<rparr>"
  by (simp add: two_workers_def started_def idle_system_def Start_def NewProcessor_def Let_def
      Processor.Processor.extend_def system.fields_def make_chan_def upt_conv_Cons)

lemmas run_simps = exec.simps proceed_def give_up_def worker_step_def worker_quit_def stop_step_def
  continue_work_def chan_send_def chan_recv_def chan_close_def

definition sample_run :: "act list" where
  "sample_run = [Call Enqueue (Some (gps_msg ''g'' 1)), Proceed 0, Proceed 0,
     Call Enqueue (Some (gps_msg ''g'' 2)), Proceed 1, Proceed 1, Work 0 5, Work 0 6]"

definition final :: "act list \<Rightarrow> ProcessorConfig \<Rightarrow> system" where
  "final as config = the (exec_all as (started config))"

lemma reachable_final:
  "list_all no_nil as \<Longrightarrow> exec_all as (started config) \<noteq> None \<Longrightarrow> reachable config (final as config)"
  by (auto simp: final_def intro: reachable_exec_all [OF reachable.start])

lemmas final_simps = final_def started_two_workers run_simps Update_def NewStateStore_def

abbreviation sample_final :: system where
  "sample_final \<equiv> final sample_run two_workers"

lemma sample_final_reachable: "reachable two_workers sample_final"
proof -
  have "exec_all sample_run (started two_workers) \<noteq> None"
    by (simp add: sample_run_def started_two_workers run_simps Update_def NewStateStore_def)
  then show ?thesis by (intro reachable_final) (simp_all add: sample_run_def no_nil_def)
qed

lemma sample_final_simps:
  "accepted sample_final = [Some (gps_msg ''g'' 1), Some (gps_msg ''g'' 2)]"
  "updates (ops sample_final) = [gps_msg ''g'' 1]"
  "hands sample_final = []"
  "buf (p_jobs sample_final) = [Some (gps_msg ''g'' 2)]"
  "p_enqueued sample_final = 2"
  "\<not> crashed sample_final"
  "calls sample_final = [Returned None, Returned None]"
  "length (p_workers sample_final) = 2"
  by (simp_all add: final_simps sample_run_def hands_def)

section \<open>Statistics\<close>

text \<open>The recorders keep their capacity, so \<open>Stats\<close> of a started processor never panics.\<close>

lemma Record_capacity: "Record d r = Some r' \<Longrightarrow> capacity_of r' = capacity_of r"
  by (auto simp: Record_def Let_def split: if_splits)

lemma work_capacity:
  "work now ph w (s, pl, el) = Some (ph', w', s', pl', el') \<Longrightarrow>
     capacity_of pl' = capacity_of pl \<and> capacity_of el' = capacity_of el"
  by (cases ph) (auto dest: Record_capacity split: prod.splits option.splits)

lemma reachable_capacity:
  "reachable config p \<Longrightarrow> capacity_of (p_procLatency p) = 10000 \<and> capacity_of (p_e2eLatency p) = 10000"
proof (induction rule: reachable.induct)
  case start
  then show ?case by (simp add: NewLatencyRecorder_def defaultCapacity_def)
next
  case (step p a p')
  have "nonnil p" using reachable_inv [OF step.hyps(1)] by (simp add: inv_def pool_ok_def)
  with step.hyps(2) show ?case
  proof (cases rule: exec_cases)
    case (work i w ph now ph' w' st pl el)
    then show ?thesis using step.IH work_capacity [OF work(5)] by simp
  next
    case stop
    then show ?thesis using step.IH by (cases rule: stop_step_cases) simp_all
  qed (use step.IH in simp_all)
qed

lemma snapshot_total:
  assumes "recorder_ok r" and "capacity_of r = 10000"
  shows "TakeSnapshot r \<noteq> None"
proof (cases "held_samples r = []")
  case True
  then have "take (if full r then capacity_of r else nextix r) (samples r) = []"
    using sort_buffer [OF assms(1)] by (metis length_sort list.size(3) length_0_conv)
  then have "(if full r then length (samples r) else nextix r) = 0"
    using assms by (auto simp: recorder_ok_def split: if_splits)
  then show ?thesis by (simp add: TakeSnapshot_def)
next
  case False
  then show ?thesis using TakeSnapshot_summarises [OF assms(1)] assms(2) by fastforce
qed

lemma Stats_running:
  assumes "reachable config p"
  shows "Stats p \<noteq> None"
proof -
  note v = reachable_inv [OF assms] and c = reachable_capacity [OF assms]
  have "length (p_workers p) = nat (NumWorkers (p_config p))" using v by (simp add: inv_def sizes_ok_def)
  moreover have "TakeSnapshot (p_procLatency p) \<noteq> None" "TakeSnapshot (p_e2eLatency p) \<noteq> None"
    using v c snapshot_total by (auto simp: inv_def pool_ok_def)
  ultimately show ?thesis by (auto simp: Stats_def Let_def)
qed

text \<open>Between messages the totals of the workers are those of the store.\<close>

lemma stats_between_messages:
  assumes "reachable config s" and "Stats s = Some st"
    and "\<forall>(w, ph)\<in>set (p_workers s). ph = Idle \<or> ph = Exited" and "Counting \<notin> set (calls s)"
  shows "ps_TotalMessagesProcessed st + ps_TotalErrors st + ps_TotalAnomalies st + of_nat (ps_QueueDepth st)
      = ps_TotalMessagesEnqueued st \<and>
    ps_TotalDropped st = store_total st_DroppedCount (p_store s) \<and>
    ps_TotalDuplicates st = store_total st_DuplicateCount (p_store s) \<and>
    ps_TotalOutOfOrder st = store_total st_OutOfOrderCount (p_store s) \<and>
    ps_TotalErrors st = store_total st_ErrorCount (p_store s) \<and>
    ps_TotalAnomalies st = store_total st_AnomalyCount (p_store s)"
proof -
  note i = reachable_inv [OF assms(1)]
  have books: "\<And>g f. (g, f) \<in> books \<Longrightarrow> store_total f (p_store s) = sum_list (map g (p_workers s))"
    using i by (auto simp: inv_def books_ok_def)
  have quiet: "sum_list (map g (p_workers s)) = sum_list (map (\<lambda>w. g (fst w, Idle)) (p_workers s))"
    if "(g, f) \<in> books" for g f
    using assms(3) books_idle(2) [OF that] by (intro arg_cong [of _ _ sum_list] map_cong) auto
  have acct: "store_total f (p_store s) = sum_list (map (\<lambda>w. g (fst w, Idle)) (p_workers s))"
    if "(g, f) \<in> books" for g f
    using books [OF that] quiet [OF that] by simp
  have "hands s = []" using assms(3) by (auto simp: hands_def)
  then have "length (accepted s) = length (buf (p_jobs s)) + length (updates (ops s))"
    using flow_length [OF i] by simp
  moreover have "p_enqueued s = of_nat (length (accepted s))"
    using i no_counting [OF assms(4)] by (simp add: inv_def count_ok_def)
  moreover have "store_total st_MessageCount (p_store s) = of_nat (length (updates (ops s)))"
    using i total_messages [of "ops s"] by (simp add: inv_def pool_ok_def)
  ultimately have "p_enqueued s = sum_list (map (\<lambda>w. w_outcomes (fst w)) (p_workers s))
      + of_nat (length (buf (p_jobs s)))"
    using acct [of "\<lambda>(w, ph). w_outcomes w + applied ph" st_MessageCount]
    by (simp add: books_def applied_def)
  then have "p_enqueued s = ps_TotalMessagesProcessed st + ps_TotalErrors st + ps_TotalAnomalies st
      + of_nat (ps_QueueDepth st)"
    by (simp add: Stats_totals [OF assms(2)] w_outcomes_def sum_list_addf)
  moreover have "ps_TotalDropped st = store_total st_DroppedCount (p_store s)"
    using acct [of "\<lambda>(w, ph). w_dropped w + due_dropped ph" st_DroppedCount]
    by (simp add: Stats_totals [OF assms(2)] books_def due_dropped_def)
  moreover have "ps_TotalDuplicates st = store_total st_DuplicateCount (p_store s)"
    using acct [of "\<lambda>(w, ph). w_duplicates w + due_duplicate ph" st_DuplicateCount]
    by (simp add: Stats_totals [OF assms(2)] books_def due_duplicate_def)
  moreover have "ps_TotalOutOfOrder st = store_total st_OutOfOrderCount (p_store s)"
    using acct [of "\<lambda>(w, ph). w_outOfOrder w + due_late ph" st_OutOfOrderCount]
    by (simp add: Stats_totals [OF assms(2)] books_def due_late_def)
  moreover have "ps_TotalErrors st = store_total st_ErrorCount (p_store s)"
    using acct [of "\<lambda>(w, ph). w_errors w - ahead_error ph" st_ErrorCount]
    by (simp add: Stats_totals [OF assms(2)] books_def ahead_error_def)
  moreover have "ps_TotalAnomalies st = store_total st_AnomalyCount (p_store s)"
    using acct [of "\<lambda>(w, ph). w_anomalies w - ahead_anomaly ph" st_AnomalyCount]
    by (simp add: Stats_totals [OF assms(2)] books_def ahead_anomaly_def)
  ultimately show ?thesis by (simp add: Stats_totals(7) [OF assms(2)])
qed

section \<open>Properties\<close>

text \<open>
  Property C9. Under every schedule, every message whose \<open>Enqueue\<close> or \<open>TryEnqueue\<close> went
  through is in exactly one place: in the queue, in the hand of a worker, or applied to the
  store, once. The store is the result of the recorded calls in their order, so the per-sensor
  properties of the store hold of the concurrent pipeline, and the enqueued counter is the number
  of accepted messages, up to the calls that have sent but not counted yet.
\<close>

theorem no_message_lost:
  assumes "reachable config s"
  shows "mset (accepted s) = mset (buf (p_jobs s)) + image_mset Some (mset (hands s) + mset (updates (ops s))) \<and>
    p_store s = exec_ops (ops s) NewStateStore \<and>
    p_enqueued s + sum_list (map (\<lambda>c. of_bool (c = Counting)) (calls s)) = of_nat (length (accepted s))"
  using reachable_inv [OF assms] by (simp add: inv_def flow_ok_def count_ok_def pool_ok_def)

theorem no_message_lost_witness:
  "mset (accepted sample_final) = {#Some (gps_msg ''g'' 2)#} + image_mset Some {#gps_msg ''g'' 1#} \<and>
   p_enqueued sample_final = 2"
  using no_message_lost [OF sample_final_reachable] by (simp add: sample_final_simps)

text \<open>
  Property C10. Whenever no worker is in the middle of a message and no call has yet to count,
  \<open>Stats\<close> is consistent with the store and with itself: processed, failed, anomalous and still
  queued messages add up to the enqueued ones, and the dropped, duplicate, out-of-order, error and
  anomaly totals are the sums of the per-sensor counters.
\<close>

theorem stats_agree_with_store:
  assumes "reachable config s" and "Stats s = Some st"
    and "\<forall>(w, ph)\<in>set (p_workers s). ph = Idle \<or> ph = Exited" and "Counting \<notin> set (calls s)"
  shows "ps_TotalMessagesProcessed st + ps_TotalErrors st + ps_TotalAnomalies st + of_nat (ps_QueueDepth st)
      = ps_TotalMessagesEnqueued st \<and>
    ps_TotalDropped st = store_total st_DroppedCount (p_store s) \<and>
    ps_TotalDuplicates st = store_total st_DuplicateCount (p_store s) \<and>
    ps_TotalOutOfOrder st = store_total st_OutOfOrderCount (p_store s) \<and>
    ps_TotalErrors st = store_total st_ErrorCount (p_store s) \<and>
    ps_TotalAnomalies st = store_total st_AnomalyCount (p_store s)"
  by (rule stats_between_messages [OF assms])

definition queued_run :: "act list" where
  "queued_run = [Call Enqueue (Some (gps_msg ''g'' 1)), Proceed 0, Proceed 0]"

abbreviation queued_final :: system where
  "queued_final \<equiv> final queued_run two_workers"

lemma queued_final_reachable: "reachable two_workers queued_final"
proof -
  have "exec_all queued_run (started two_workers) \<noteq> None"
    by (simp add: queued_run_def started_two_workers run_simps)
  then show ?thesis by (intro reachable_final) (simp_all add: queued_run_def no_nil_def)
qed

lemma queued_final_simps:
  "p_workers queued_final = [(NewWorker 0, Idle), (NewWorker 1, Idle)]"
  "calls queued_final = [Returned None]"
  "p_enqueued queued_final = 1"
  "p_config queued_final = two_workers"
  "p_procLatency queued_final = NewLatencyRecorder 0"
  "p_e2eLatency queued_final = NewLatencyRecorder 0"
  "buf (p_jobs queued_final) = [Some (gps_msg ''g'' 1)]"
  "accepted queued_final = [Some (gps_msg ''g'' 1)]"
  by (simp_all add: final_simps queued_run_def)

theorem stats_agree_with_store_witness:
  "\<exists>st. Stats queued_final = Some st \<and> ps_TotalMessagesEnqueued st = 1 \<and> ps_QueueDepth st = 1 \<and>
     ps_TotalMessagesProcessed st + ps_TotalErrors st + ps_TotalAnomalies st + of_nat (ps_QueueDepth st) = 1"
proof -
  obtain st where st: "Stats queued_final = Some st"
    by (simp add: Stats_def Let_def queued_final_simps TakeSnapshot_empty)
  then show ?thesis
    using stats_agree_with_store [OF queued_final_reachable st]
    by (simp add: Stats_totals [OF st] queued_final_simps NewWorker_def)
qed

text \<open>
  Property C11. The queue never holds more than the configured number of messages, and until
  \<open>Stop\<close> has closed the queue nothing in the pool panics: no send on a closed channel, no
  double close, no index out of range in the latency recorders.
\<close>

theorem queue_bounded_no_panic:
  assumes "reachable config s"
  shows "int (length (buf (p_jobs s))) \<le> (if QueueSize config \<le> 0 then 1000 else QueueSize config) \<and>
    (stopping s \<in> {NotStopping, StopChecked, StopCleared, StopSignalled} \<longrightarrow> \<not> crashed s)"
proof -
  note i = reachable_inv [OF assms]
  have "length (buf (p_jobs s)) \<le> chan_cap (p_jobs s)"
    using i by (simp add: inv_def pool_ok_def chan_ok_def)
  moreover have "chan_cap (p_jobs s) = nat (if QueueSize config \<le> 0 then 1000 else QueueSize config)"
    using i by (simp add: inv_def sizes_ok_def NewProcessor_def Let_def)
  moreover have "crashed s \<longrightarrow> stopping s = JobsClosed \<or> stopping s = Stopped"
    using i by (auto simp: inv_def flags_ok_def)
  ultimately show ?thesis by (auto split: if_splits)
qed

theorem queue_bounded_no_panic_witness:
  "length (buf (p_jobs sample_final)) \<le> 10 \<and> \<not> crashed sample_final"
proof -
  have "stopping sample_final = NotStopping" by (simp add: final_simps sample_run_def)
  then show ?thesis
    using queue_bounded_no_panic [OF sample_final_reachable] by (simp add: two_workers_def)
qed

text \<open>
  Backpressure. While the processor is not stopping, a blocking call waits exactly
  when the queue is full, and otherwise appends its message; a trying call never waits: it appends
  its message when there is room, and otherwise reports \<open>queue full\<close>, counts the event and
  leaves the queue and the enqueued counter alone.
\<close>

theorem backpressure:
  assumes "reachable config s" and "stopping s = NotStopping" and "i < length (calls s)"
  shows "(calls s ! i = Blocking (Some m) \<longrightarrow>
      (exec (Proceed i) s = None \<longleftrightarrow> length (buf (p_jobs s)) = chan_cap (p_jobs s)) \<and>
      (\<forall>s'. exec (Proceed i) s = Some s' \<longrightarrow> buf (p_jobs s') = buf (p_jobs s) @ [Some m] \<and>
         calls s' ! i = Counting)) \<and>
    (calls s ! i = Trying (Some m) \<longrightarrow> (\<exists>s'. exec (Proceed i) s = Some s' \<and>
      (if length (buf (p_jobs s)) = chan_cap (p_jobs s)
       then calls s' ! i = Returned (Some QueueFull) \<and> p_queueFull s' = p_queueFull s + 1 \<and>
            p_jobs s' = p_jobs s \<and> p_enqueued s' = p_enqueued s
       else buf (p_jobs s') = buf (p_jobs s) @ [Some m] \<and> calls s' ! i = Counting)))"
proof -
  note v = reachable_inv [OF assms(1)]
  have "length (buf (p_jobs s)) \<le> chan_cap (p_jobs s)"
    using v by (simp add: inv_def pool_ok_def chan_ok_def)
  moreover have "\<not> crashed s" "\<not> closed (p_jobs s)"
    using v assms(2) by (auto simp: inv_def flags_ok_def)
  ultimately show ?thesis using assms(3)
    by (auto simp: exec.simps proceed_def chan_send_def)
qed

definition tiny_queue :: ProcessorConfig where
  "tiny_queue = \<lparr>NumWorkers = 1, QueueSize = 1\<rparr>"

lemma started_tiny_queue:
  "started tiny_queue =
     \<lparr>p_config = tiny_queue, p_store = NewStateStore, p_workers = [(NewWorker 0, Idle)],
      p_jobs = \<lparr>buf = [], chan_cap = 1, closed = False\<rparr>, p_stopClosed = False, p_isRunning = True,
      p_procLatency = NewLatencyRecorder 0, p_e2eLatency = NewLatencyRecorder 0,
      p_enqueued = 0, p_queueFull = 0, calls = [], stopping = NotStopping, crashed = False,
      accepted = [], ops = []\<rparr>"
  by (simp add: tiny_queue_def started_def idle_system_def Start_def NewProcessor_def Let_def
      Processor.Processor.extend_def system.fields_def make_chan_def upt_conv_Cons)

definition full_run :: "act list" where
  "full_run = [Call Enqueue (Some (gps_msg ''g'' 1)), Proceed 0, Proceed 0,
     Call Enqueue (Some (gps_msg ''g'' 2)), Call TryEnqueue (Some (gps_msg ''g'' 3))]"

abbreviation full_final :: system where
  "full_final \<equiv> final full_run tiny_queue"

theorem backpressure_witness:
  "exec (Proceed 1) full_final = None \<and>
   (\<exists>s'. exec (Proceed 2) full_final = Some s' \<and> calls s' ! 2 = Returned (Some QueueFull))"
proof -
  have "exec_all full_run (started tiny_queue) \<noteq> None"
    by (simp add: full_run_def started_tiny_queue run_simps)
  then have r: "reachable tiny_queue full_final"
    by (intro reachable_final) (simp_all add: full_run_def no_nil_def)
  have st: "stopping full_final = NotStopping" and l: "1 < length (calls full_final)" "2 < length (calls full_final)"
    and c: "calls full_final ! 1 = Blocking (Some (gps_msg ''g'' 2))"
      "calls full_final ! 2 = Trying (Some (gps_msg ''g'' 3))"
    and q: "length (buf (p_jobs full_final)) = chan_cap (p_jobs full_final)"
    by (simp_all add: final_def started_tiny_queue run_simps full_run_def)
  have "exec (Proceed 1) full_final = None"
    using conjunct1 [OF backpressure [OF r st l(1)]] c(1) q by blast
  moreover have "\<exists>s'. exec (Proceed 2) full_final = Some s' \<and> calls s' ! 2 = Returned (Some QueueFull)"
    using mp [OF conjunct2 [OF backpressure [OF r st l(2)]] c(2)] unfolding if_P [OF q] by blast
  ultimately show ?thesis by blast
qed

section \<open>Order of processing\<close>

text \<open>With one worker the pool is a pipeline: store, hand and queue in the order of arrival.\<close>

definition in_order :: "system \<Rightarrow> bool" where
  "in_order s = (accepted s = map Some (updates (ops s) @ hands s) @ buf (p_jobs s))"

lemma in_order_step:
  assumes "exec a s = Some s'" and "nonnil s" and "length (p_workers s) = 1" and order: "in_order s"
  shows "in_order s'"
proof -
  obtain w0 ph0 where ws: "p_workers s = [(w0, ph0)]"
    using assms(3) by (cases "p_workers s") auto
  from assms(1,2) show ?thesis
  proof (cases rule: exec_cases)
    case (work i w ph now ph' w' st pl el)
    then show ?thesis using order work_hand [OF work(5)] ws
      by (simp add: in_order_def hands_def)
  next
    case stop
    then show ?thesis using order by (cases rule: stop_step_cases) (simp_all add: in_order_def hands_def)
  qed (use order ws in \<open>auto simp: in_order_def hands_def\<close>)
qed

text \<open>
  Property C17. With a single worker the store sees the messages exactly in the order in which
  they were accepted: those applied so far are a prefix of the accepted ones, followed by the one
  in the worker's hand and the queue.
\<close>

theorem single_worker_fifo:
  assumes "reachable config s" and "NumWorkers config = 1"
  shows "accepted s = map Some (updates (ops s) @ hands s) @ buf (p_jobs s)"
proof -
  have "in_order s" using assms(1)
  proof (induction rule: reachable.induct)
    case start
    then show ?case using assms(2)
      by (simp add: in_order_def hands_def NewProcessor_def Let_def upt_conv_Cons)
  next
    case (step s a s')
    have "inv config s" using step by (simp add: reachable_inv)
    then have "length (p_workers s) = 1" "nonnil s"
      using assms(2) by (simp_all add: inv_def pool_ok_def sizes_ok_def NewProcessor_def Let_def)
    then show ?case using in_order_step step by blast
  qed
  then show ?thesis by (simp add: in_order_def)
qed

theorem single_worker_fifo_witness:
  "map Some (updates (ops full_final) @ hands full_final) @ buf (p_jobs full_final) = [Some (gps_msg ''g'' 1)]"
proof -
  have "exec_all full_run (started tiny_queue) \<noteq> None"
    by (simp add: full_run_def started_tiny_queue run_simps)
  then have "reachable tiny_queue full_final"
    by (intro reachable_final) (simp_all add: full_run_def no_nil_def)
  moreover have "NumWorkers tiny_queue = 1" by (simp add: tiny_queue_def)
  moreover have "accepted full_final = [Some (gps_msg ''g'' 1)]"
    by (simp add: final_def started_tiny_queue run_simps full_run_def)
  ultimately show ?thesis using single_worker_fifo [of tiny_queue full_final] by simp
qed

text \<open>With two workers the order is not kept: the second message may overtake the first.\<close>

definition race_run :: "act list" where
  "race_run = [Call Enqueue (Some (gps_msg ''g'' 1)), Proceed 0, Proceed 0,
     Call Enqueue (Some (gps_msg ''g'' 2)), Proceed 1, Proceed 1,
     Work 0 1, Work 1 2, Work 0 3, Work 1 4]"

definition overtaking_run :: "act list" where
  "overtaking_run = [Call Enqueue (Some (gps_msg ''g'' 1)), Proceed 0, Proceed 0,
     Call Enqueue (Some (gps_msg ''g'' 2)), Proceed 1, Proceed 1,
     Work 0 1, Work 1 2, Work 1 3, Work 0 4]"

text \<open>
  The same two messages of one sensor, enqueued in the order 1, 2 by one caller, are
  counted as in order under one schedule of two workers and as one out of order under another:
  the pool itself can make a message late, so an out-of-order count is not evidence that the
  sensor or the network reordered anything.
\<close>

theorem workers_reorder_sensor:
  "\<exists>s s'. reachable two_workers s \<and> reachable two_workers s' \<and>
     accepted s = [Some (gps_msg ''g'' 1), Some (gps_msg ''g'' 2)] \<and> accepted s' = accepted s \<and>
     updates (ops s) = [gps_msg ''g'' 1, gps_msg ''g'' 2] \<and>
     updates (ops s') = [gps_msg ''g'' 2, gps_msg ''g'' 1] \<and>
     map_option st_OutOfOrderCount (Get ''g'' (p_store s)) = Some 0 \<and>
     map_option st_OutOfOrderCount (Get ''g'' (p_store s')) = Some 1"
proof -
  have "exec_all race_run (started two_workers) \<noteq> None" "exec_all overtaking_run (started two_workers) \<noteq> None"
    by (simp_all add: race_run_def overtaking_run_def started_two_workers run_simps Update_def NewStateStore_def split: prod.split)
  then have r: "reachable two_workers (final race_run two_workers)" "reachable two_workers (final overtaking_run two_workers)"
    by (auto intro!: reachable_final simp: race_run_def overtaking_run_def no_nil_def)
  have a: "accepted (final race_run two_workers) = [Some (gps_msg ''g'' 1), Some (gps_msg ''g'' 2)]"
    "accepted (final overtaking_run two_workers) = [Some (gps_msg ''g'' 1), Some (gps_msg ''g'' 2)]"
    by (simp_all add: final_simps race_run_def overtaking_run_def split: prod.split)
  have u: "ops (final race_run two_workers) = [OpUpdate 3 (gps_msg ''g'' 1), OpUpdate 4 (gps_msg ''g'' 2)]"
    "ops (final overtaking_run two_workers) = [OpUpdate 3 (gps_msg ''g'' 2), OpUpdate 4 (gps_msg ''g'' 1)]"
    by (simp_all add: final_simps race_run_def overtaking_run_def split: prod.split)
  have p: "p_store (final race_run two_workers) = exec_ops [OpUpdate 3 (gps_msg ''g'' 1), OpUpdate 4 (gps_msg ''g'' 2)] NewStateStore"
    "p_store (final overtaking_run two_workers) = exec_ops [OpUpdate 3 (gps_msg ''g'' 2), OpUpdate 4 (gps_msg ''g'' 1)] NewStateStore"
    using r [THEN reachable_inv] u by (simp_all add: inv_def pool_ok_def)
  have "map_option st_OutOfOrderCount (Get ''g'' (p_store (final race_run two_workers))) = Some 0"
    "map_option st_OutOfOrderCount (Get ''g'' (p_store (final overtaking_run two_workers))) = Some 1"
    unfolding p by (simp_all add: exec_ops_def Get_def sensors_Update NewStateStore_def new_entry_def
        update_known_ahead update_known_late)
  with r a u show ?thesis by (intro exI [of _ "final race_run two_workers"] exI [of _ "final overtaking_run two_workers"]) (simp add: updates_def)
qed

end
