(* ===== verification/Pool_Shutdown.thy ===== *)
theory Pool_Shutdown
  imports Pool_Properties
begin

text \<open>
  Progress of the worker pool: the backlog drains under every schedule, and \<open>Stop\<close> returns.
  The last section shows what \<open>Stop\<close> and \<open>WaitForQuiescence\<close> do not wait for.
\<close>

section \<open>The two models of a worker\<close>

text \<open>\<open>clk ph\<close> is the clock reading of the step taken in phase \<open>ph\<close>; a message takes at most
  eight steps, so eight units of fuel are enough.\<close>

fun work_alone :: "(phase \<Rightarrow> time) \<Rightarrow> nat \<Rightarrow> phase \<Rightarrow> Worker \<Rightarrow> shared \<Rightarrow> (phase \<times> Worker \<times> shared) option" where
  "work_alone clk 0 ph w sh = Some (ph, w, sh)"
| "work_alone clk (Suc n) ph w sh =
     Option.bind (work (clk ph) ph w sh) (\<lambda>(ph', w', sh'). work_alone clk n ph' w' sh')"

text \<open>
  A consistency check of the model: \<open>processMessage\<close> of \<open>Worker\<close> and the atomic steps \<open>work\<close> translate
  the same function, and run without interruption the steps compute what \<open>processMessage\<close> does.
\<close>

lemma work_alone_processMessage:
  "work_alone clk 8 (Got m t) w (s, pl, el) =
     map_option (\<lambda>(w', sh'). (Idle, w', sh'))
       (processMessage \<lparr>ck_start = t, ck_update = clk (Got m t), ck_done = clk (TimingWork m t),
          ck_since = clk (TimingTotal m)\<rparr> m (w, s, pl, el))"
proof -
  have idle: "work_alone clk n Idle w sh = Some (Idle, w, sh)" for n w sh
    by (induction n) simp_all
  have timing: "work_alone clk (Suc (Suc n)) (TimingWork m t) w (s, pl, el) =
      Option.bind (Record (Sub (clk (TimingWork m t)) t) pl) (\<lambda>pl'.
      Option.bind (Record (Sub (clk (TimingTotal m)) (Timestamp m)) el) (\<lambda>el'.
        Some (Idle, w, s, pl', el')))" for n w s
    by (cases "Record (Sub (clk (TimingWork m t)) t) pl";
        cases "Record (Sub (clk (TimingTotal m)) (Timestamp m)) el") (simp_all add: idle)
  obtain r s1 where u: "Update (clk (Got m t)) m s = (r, s1)" by fastforce
  let ?w = "count_outcome (check_payload m) (count_late r (count_duplicate r (count_dropped r w)))"
  have "work_alone clk 8 (Got m t) w (s, pl, el) =
      work_alone clk 3 (case check_payload m of Some e \<Rightarrow> Blaming m t e | None \<Rightarrow> TimingWork m t) ?w (s1, pl, el)"
    by (simp add: eval_nat_numeral u)
  also have "\<dots> = work_alone clk 2 (TimingWork m t) ?w (record_outcome (check_payload m) (SensorID m) s1, pl, el)"
  proof (cases "check_payload m")
    case None
    then show ?thesis using timing [of 0] timing [of 1] by (simp add: numeral_2_eq_2 numeral_3_eq_3 record_outcome_def)
  next
    case (Some e)
    have "work_alone clk 3 (Blaming m t e) ?w (s1, pl, el) =
        work_alone clk 2 (TimingWork m t) ?w (record_outcome (Some e) (SensorID m) s1, pl, el)"
      by (simp only: numeral_3_eq_3 numeral_2_eq_2 work_alone.simps(2) work.simps bind.bind_lunit prod.case)
    then show ?thesis using Some by simp
  qed
  also have "\<dots> = map_option (\<lambda>(w', sh'). (Idle, w', sh'))
       (processMessage \<lparr>ck_start = t, ck_update = clk (Got m t), ck_done = clk (TimingWork m t),
          ck_since = clk (TimingTotal m)\<rparr> m (w, s, pl, el))"
    using timing [of 0]
    by (cases "Record (Sub (clk (TimingWork m t)) t) pl";
        cases "Record (Sub (clk (TimingTotal m)) (Timestamp m)) el")
      (simp_all add: numeral_2_eq_2 processMessage_def u Let_def)
  finally show ?thesis .
qed

section \<open>Termination\<close>

text \<open>The number of steps a worker is from the end of its message, and the work left in a state.\<close>

fun steps_left :: "phase \<Rightarrow> nat" where
  "steps_left Exited = 0"
| "steps_left Idle = 1"
| "steps_left (TimingTotal m) = 2"
| "steps_left (TimingWork m t) = 3"
| "steps_left (Blaming m t e) = 4"
| "steps_left (Judging m t) = 5"
| "steps_left (CountLate m t r) = 6"
| "steps_left (CountDuplicate m t r) = 7"
| "steps_left (CountDropped m t r) = 8"
| "steps_left (Got m t) = 9"

definition work_left :: "system \<Rightarrow> nat" where
  "work_left s = 9 * length (buf (p_jobs s)) + sum_list (map (steps_left \<circ> snd) (p_workers s))"

lemma sum_list_update_nat:
  "i < length xs \<Longrightarrow> sum_list (map f (xs[i := y])) + f (xs ! i) = sum_list (map f xs) + (f y :: nat)"
  by (induction xs arbitrary: i) (auto split: nat.split)

lemma work_steps_left:
  "work now ph w sh = Some (ph', w', sh') \<Longrightarrow> ph \<noteq> Idle \<Longrightarrow> ph \<noteq> Exited \<Longrightarrow> steps_left ph' < steps_left ph"
  by (cases ph; cases sh) (auto split: prod.splits option.splits)

definition worker_act :: "act \<Rightarrow> bool" where
  "worker_act a = (case a of Work i now \<Rightarrow> True | Quit i \<Rightarrow> True | _ \<Rightarrow> False)"

text \<open>Every action of a worker makes progress, and touches only the workers' side of the state.\<close>

lemma worker_act_progress:
  assumes "exec a s = Some s'" and "worker_act a" and v: "inv config s"
  shows "work_left s' < work_left s" and "stopping s' = stopping s" and "accepted s' = accepted s"
    and "\<not> crashed s'"
proof -
  have nil: "nonnil s" and live: "\<not> crashed s" and rec: "recorder_ok (p_procLatency s)" "recorder_ok (p_e2eLatency s)"
    using v assms(1) by (auto simp: inv_def pool_ok_def exec.simps split: if_splits)
  have left: "sum_list (map (steps_left \<circ> snd) ((p_workers s)[i := (w', ph')])) + steps_left ph
      = sum_list (map (steps_left \<circ> snd) (p_workers s)) + steps_left ph'"
    if "i < length (p_workers s)" "p_workers s ! i = (w, ph)" for i w ph w' ph'
    using sum_list_update_nat [OF that(1), of "steps_left \<circ> snd" "(w', ph')"] that(2) by simp
  have "work_left s' < work_left s \<and> stopping s' = stopping s \<and> accepted s' = accepted s \<and> \<not> crashed s'"
  proof (cases a)
    case (Work i now)
    then have "worker_step i now s = Some s'" using assms(1) live by (simp add: exec.simps)
    then show ?thesis
    proof (cases rule: worker_step_cases)
      case (take w m c)
      then show ?thesis using left [OF take(1,2), of w "Got m now"] live by (simp add: work_left_def)
    next
      case (leave w)
      then show ?thesis using left [OF leave(1,2), of w Exited] live by (simp add: work_left_def)
    next
      case (work w ph ph' w' st pl el)
      then show ?thesis using left [OF work(1,2), of w' ph'] work_steps_left [OF work(5,3,4)] live
        by (simp add: work_left_def)
    next
      case (panic w ph)
      then show ?thesis using work_total rec by blast
    qed (use nil in \<open>simp add: nonnil_def\<close>)
  next
    case (Quit i)
    then have "worker_quit i s = Some s'" using assms(1) live by (simp add: exec.simps)
    then obtain w where q: "i < length (p_workers s)" "p_workers s ! i = (w, Idle)"
      "s' = s\<lparr>p_workers := (p_workers s)[i := (w, Exited)]\<rparr>"
      by (auto simp: worker_quit_def split: if_splits prod.splits phase.splits)
    then show ?thesis using left [OF q(1,2), of w Exited] live by (simp add: work_left_def)
  qed (use assms(2) in \<open>simp_all add: worker_act_def\<close>)
  then show "work_left s' < work_left s" "stopping s' = stopping s" "accepted s' = accepted s"
    "\<not> crashed s'" by simp_all
qed

lemma worker_acts_progress:
  assumes "exec_all as s = Some s'" and "\<forall>a\<in>set as. worker_act a" and "reachable config s"
  shows "length as + work_left s' \<le> work_left s \<and> stopping s' = stopping s \<and>
    accepted s' = accepted s \<and> (crashed s' \<longrightarrow> crashed s) \<and> reachable config s'"
  using assms
proof (induction as arbitrary: s)
  case (Cons a as)
  obtain s1 where s1: "exec a s = Some s1" "exec_all as s1 = Some s'"
    using Cons.prems(1) by (auto split: bind_splits)
  have "no_nil a" using Cons.prems(2) by (auto simp: worker_act_def no_nil_def split: act.splits)
  then have r: "reachable config s1" using Cons.prems(3) s1(1) by (rule step_intros [rotated 2])
  show ?case
    using Cons.IH [OF s1(2) _ r] Cons.prems(2)
      worker_act_progress [OF s1(1) _ reachable_inv [OF Cons.prems(3)]] by simp
qed simp

text \<open>A worker is stuck only when it is idle with nothing to take, or gone.\<close>

lemma worker_stuck:
  assumes "\<forall>now. exec (Work i now) s = None" and "\<not> crashed s" and "nonnil s" and "i < length (p_workers s)"
  shows "snd (p_workers s ! i) = Exited \<or>
    snd (p_workers s ! i) = Idle \<and> buf (p_jobs s) = [] \<and> \<not> closed (p_jobs s)"
proof -
  obtain w ph where w: "p_workers s ! i = (w, ph)" by fastforce
  have none: "worker_step i 0 s = None" using assms(1,2) by (simp add: exec.simps)
  show ?thesis
  proof (cases ph)
    case Idle
    show ?thesis
    proof (cases "buf (p_jobs s)")
      case Nil
      then show ?thesis using none w Idle assms(4) by (auto simp: worker_step_def chan_recv_def split: if_splits)
    next
      case (Cons x xs)
      then show ?thesis using none w Idle assms(3,4)
        by (cases x) (simp_all add: worker_step_def chan_recv_def nonnil_def)
    qed
  qed (use none w assms(4) in \<open>simp_all add: worker_step_def\<close>)
qed

lemma worker_count:
  assumes "reachable config s"
  shows "0 < length (p_workers s)" and "length (p_workers s) = nat (NumWorkers (p_config s))"
  using reachable_inv [OF assms]
  by (simp_all add: inv_def sizes_ok_def NewProcessor_def Let_def split: if_splits)

text \<open>
  Property C19. The backlog drains under every schedule. While nothing new is sent, the workers
  can take at most \<open>work_left s\<close> steps, whatever the interleaving; and when none of them can
  take another, the queue is empty and every message ever accepted has been applied to the
  store.
\<close>

theorem backlog_drains:
  assumes "reachable config s" and "stopping s = NotStopping" and "\<forall>a\<in>set as. worker_act a"
    and "exec_all as s = Some s'"
  shows "length as \<le> work_left s \<and>
    ((\<forall>i now. exec (Work i now) s' = None) \<longrightarrow>
       buf (p_jobs s') = [] \<and> (\<forall>(w, ph)\<in>set (p_workers s'). ph = Idle) \<and>
       image_mset Some (mset (updates (ops s'))) = mset (accepted s))"
proof -
  note w = worker_acts_progress [OF assms(4,3,1)]
  then have r: "reachable config s'" and st: "stopping s' = NotStopping" using assms(2) by simp_all
  note v = reachable_inv [OF r]
  have fl: "\<not> crashed s'" "\<not> closed (p_jobs s')" "nonnil s'"
    "\<forall>(w, ph)\<in>set (p_workers s'). ph \<noteq> Exited"
    using v st by (auto simp: inv_def flags_ok_def pool_ok_def)
  show ?thesis
  proof (intro conjI impI)
    show "length as \<le> work_left s" using w by simp
    assume stuck: "\<forall>i now. exec (Work i now) s' = None"
    have idle: "snd (p_workers s' ! i) = Idle \<and> buf (p_jobs s') = []" if "i < length (p_workers s')" for i
      using worker_stuck [OF _ fl(1,3) that] stuck fl(4) nth_mem [OF that] by fastforce
    show b: "buf (p_jobs s') = []" using idle [of 0] worker_count(1) [OF r] by simp
    show ph: "\<forall>(w, ph)\<in>set (p_workers s'). ph = Idle" using idle by (fastforce simp: in_set_conv_nth)
    have "hands s' = []" using ph by (auto simp: hands_def)
    then show "image_mset Some (mset (updates (ops s'))) = mset (accepted s)"
      using v b w by (simp add: inv_def flow_ok_def)
  qed
qed

theorem backlog_drains_witness:
  "\<exists>s'. exec_all [Work 1 7, Work 1 8] sample_final = Some s' \<and> 2 \<le> work_left sample_final"
proof -
  have "exec_all [Work 1 7, Work 1 8] sample_final \<noteq> None"
    by (simp add: final_simps sample_run_def split: prod.split)
  then obtain s' where s': "exec_all [Work 1 7, Work 1 8] sample_final = Some s'" by blast
  moreover have "stopping sample_final = NotStopping" by (simp add: final_simps sample_run_def)
  ultimately show ?thesis
    using backlog_drains [OF sample_final_reachable, of "[Work 1 7, Work 1 8]" s']
    by (simp add: worker_act_def)
qed

text \<open>
  Property C20. \<open>Stop\<close> cannot hang: once it has closed the queue, at most \<open>work_left s\<close>
  worker steps are left, and when the workers can do nothing more they have all returned and
  \<open>Stop\<close> returns.
\<close>

theorem stop_completes:
  assumes "reachable config s" and "stopping s = JobsClosed" and "\<not> crashed s"
    and "\<forall>a\<in>set as. worker_act a" and "exec_all as s = Some s'"
  shows "length as \<le> work_left s \<and>
    ((\<forall>a. worker_act a \<longrightarrow> exec a s' = None) \<longrightarrow>
       (\<exists>s''. exec StopStep s' = Some s'' \<and> stopping s'' = Stopped))"
proof -
  note w = worker_acts_progress [OF assms(5,4,1)]
  then have r: "reachable config s'" and st: "stopping s' = JobsClosed" and live: "\<not> crashed s'"
    using assms(2,3) by simp_all
  have fl: "closed (p_jobs s')" "nonnil s'"
    using reachable_inv [OF r] st by (auto simp: inv_def flags_ok_def pool_ok_def)
  have "list_all (\<lambda>(w, ph). ph = Exited) (p_workers s')" if "\<forall>a. worker_act a \<longrightarrow> exec a s' = None"
    using worker_stuck [OF _ live fl(2)] that fl(1)
    by (fastforce simp: list_all_length worker_act_def)
  then show ?thesis using w st live by (simp add: exec.simps stop_step_def)
qed

text \<open>A message is accepted, then \<open>Stop\<close> runs up to its wait.\<close>

definition stop_run :: "act list" where
  "stop_run = [Call Enqueue (Some (gps_msg ''g'' 1)), Proceed 0, Proceed 0,
     StopStep, StopStep, StopStep, StopStep]"

definition stopped_run :: "act list" where
  "stopped_run = stop_run @ [Quit 0, StopStep]"

lemma stop_runs_reachable:
  "reachable tiny_queue (final stop_run tiny_queue)" "reachable tiny_queue (final stopped_run tiny_queue)"
proof -
  have "exec_all stop_run (started tiny_queue) \<noteq> None" "exec_all stopped_run (started tiny_queue) \<noteq> None"
    by (simp_all add: stop_run_def stopped_run_def started_tiny_queue run_simps)
  then show "reachable tiny_queue (final stop_run tiny_queue)" "reachable tiny_queue (final stopped_run tiny_queue)"
    by (auto intro!: reachable_final simp: stop_run_def stopped_run_def no_nil_def)
qed

lemma tiny_worker_gone:
  assumes "p_workers s = [(w, Exited)]" and "worker_act a"
  shows "exec a s = None"
proof -
  have "worker_step i now s = None" "worker_quit i s = None" for i now
    using assms(1) by (cases i; simp add: worker_step_def worker_quit_def)+
  then show ?thesis using assms(2) by (auto simp: exec.simps worker_act_def split: act.splits)
qed

theorem stop_completes_witness:
  "\<exists>s' s''. exec_all [Quit 0] (final stop_run tiny_queue) = Some s' \<and>
     exec StopStep s' = Some s'' \<and> stopping s'' = Stopped"
proof -
  have st: "stopping (final stop_run tiny_queue) = JobsClosed" "\<not> crashed (final stop_run tiny_queue)"
    by (simp_all add: final_def stop_run_def started_tiny_queue run_simps)
  have "\<exists>s'. exec_all [Quit 0] (final stop_run tiny_queue) = Some s' \<and> p_workers s' = [(NewWorker 0, Exited)]"
    by (simp add: final_def stop_run_def started_tiny_queue run_simps)
  then obtain s' where s': "exec_all [Quit 0] (final stop_run tiny_queue) = Some s'"
    "p_workers s' = [(NewWorker 0, Exited)]" by blast
  have "\<exists>s''. exec StopStep s' = Some s'' \<and> stopping s'' = Stopped"
    using stop_completes [OF stop_runs_reachable(1) st _ s'(1)] tiny_worker_gone [OF s'(2)]
    by (simp add: worker_act_def)
  with s'(1) show ?thesis by blast
qed

section \<open>What is not waited for\<close>

text \<open>
  \<open>Stop\<close> does not process the backlog: it can return with a message still in the
  queue that \<open>Enqueue\<close> had accepted with a nil error. The worker took the \<open>stopChan\<close> branch of
  its select, no worker is left, and the message never reaches the store.
\<close>

theorem stop_discards_accepted:
  "\<exists>s. reachable tiny_queue s \<and> stopping s = Stopped \<and> \<not> crashed s \<and>
     calls s = [Returned None] \<and> p_enqueued s = 1 \<and>
     buf (p_jobs s) = [Some (gps_msg ''g'' 1)] \<and> updates (ops s) = [] \<and>
     (\<forall>i now. exec (Work i now) s = None \<and> exec (Quit i) s = None)"
proof -
  let ?s = "final stopped_run tiny_queue"
  have w: "p_workers ?s = [(NewWorker 0, Exited)]"
    by (simp add: final_def stopped_run_def stop_run_def started_tiny_queue run_simps)
  have "stopping ?s = Stopped" "\<not> crashed ?s" "calls ?s = [Returned None]" "p_enqueued ?s = 1"
    "buf (p_jobs ?s) = [Some (gps_msg ''g'' 1)]" "updates (ops ?s) = []"
    by (simp_all add: final_def stopped_run_def stop_run_def started_tiny_queue run_simps)
  moreover have "exec (Work i now) ?s = None" "exec (Quit i) ?s = None" for i now
    by (simp_all add: tiny_worker_gone [OF w] worker_act_def)
  ultimately show ?thesis using stop_runs_reachable(2) by blast
qed

definition racing_run :: "act list" where
  "racing_run = [Call Enqueue (Some (gps_msg ''g'' 1)), StopStep, StopStep, StopStep, StopStep, Proceed 0]"

text \<open>
  \<open>Enqueue\<close> racing with \<open>Stop\<close> can panic: a caller that passed the \<open>isRunning\<close>
  check before \<open>Stop\<close> began may send on the closed queue. The \<open>stopChan\<close> branch of its select
  does not protect it, because both branches are then ready.
\<close>

theorem enqueue_racing_stop_panics:
  "\<exists>s. reachable tiny_queue s \<and> crashed s \<and> calls s = [Blocking (Some (gps_msg ''g'' 1))]"
proof -
  let ?s = "final racing_run tiny_queue"
  have "exec_all racing_run (started tiny_queue) \<noteq> None"
    by (simp add: racing_run_def started_tiny_queue run_simps)
  then have "reachable tiny_queue ?s"
    by (intro reachable_final) (simp_all add: racing_run_def no_nil_def)
  moreover have "crashed ?s" "calls ?s = [Blocking (Some (gps_msg ''g'' 1))]"
    by (simp_all add: final_def racing_run_def started_tiny_queue run_simps)
  ultimately show ?thesis by blast
qed

definition in_flight_run :: "act list" where
  "in_flight_run = [Call Enqueue (Some (gps_msg ''g'' 1)), Proceed 0, Proceed 0, Work 0 5]"

text \<open>
  \<open>WaitForQuiescence\<close> reports an empty queue, not a finished pipeline: it can
  return nil while the only message is still in a worker's hand and the store knows no sensor.
\<close>

theorem quiescence_before_processing:
  "\<exists>s. reachable tiny_queue s \<and> accepted s = [Some (gps_msg ''g'' 1)] \<and>
     WaitForQuiescence now timeout [(p_isRunning s, length (buf (p_jobs s)), now)] = Some WaitOk \<and>
     hands s = [gps_msg ''g'' 1] \<and> updates (ops s) = [] \<and> Count (p_store s) = 0"
proof -
  let ?s = "final in_flight_run tiny_queue"
  have "exec_all in_flight_run (started tiny_queue) \<noteq> None"
    by (simp add: in_flight_run_def started_tiny_queue run_simps)
  then have "reachable tiny_queue ?s"
    by (intro reachable_final) (simp_all add: in_flight_run_def no_nil_def)
  moreover have "accepted ?s = [Some (gps_msg ''g'' 1)]" "buf (p_jobs ?s) = []" "p_isRunning ?s"
    "hands ?s = [gps_msg ''g'' 1]" "updates (ops ?s) = []" "p_store ?s = NewStateStore"
    by (simp_all add: final_def in_flight_run_def started_tiny_queue run_simps hands_def)
  ultimately show ?thesis
    by (intro exI [of _ ?s]) (simp add: WaitForQuiescence_def Count_def NewStateStore_def)
qed

text \<open>A round after the deadline ends the loop.\<close>

lemma wait_polls_ends:
  "p \<in> set polls \<Longrightarrow> deadline < snd (snd p) \<Longrightarrow> wait_polls deadline polls \<noteq> None"
  by (induction polls) (auto simp: After_def)

lemma wait_polls_ok:
  "wait_polls deadline polls = Some WaitOk \<Longrightarrow> \<exists>p\<in>set polls. fst p \<and> fst (snd p) = 0"
  by (induction polls) (auto split: if_splits)

text \<open>
  \<open>WaitForQuiescence\<close> always returns: rounds are at least 10 ms apart, so once they
  cover more than the timeout one of them has ended the loop; and it returns nil only if a round
  saw the processor running with an empty queue.
\<close>

theorem wait_returns:
  assumes "\<forall>i<length polls. now + int i * (10 * millisecond) \<le> snd (snd (polls ! i))"
    and "timeout < int k * (10 * millisecond)" and "k < length polls"
  shows "\<exists>r. WaitForQuiescence now timeout polls = Some r \<and>
    (r = WaitOk \<longrightarrow> (\<exists>p\<in>set polls. fst p \<and> fst (snd p) = 0))"
proof -
  have "now + timeout < snd (snd (polls ! k))" using assms by fastforce
  then have "wait_polls (now + timeout) polls \<noteq> None"
    using wait_polls_ends [of "polls ! k" polls] assms(3) by simp
  then show ?thesis using wait_polls_ok [of "now + timeout" polls]
    by (auto simp: WaitForQuiescence_def Add_def)
qed

theorem wait_returns_witness:
  "\<exists>r. WaitForQuiescence 0 (5 * millisecond) [(True, 3, 0), (True, 2, 10 * millisecond)] = Some r"
proof -
  have "\<forall>i<2. (0::int) + int i * (10 * millisecond)
      \<le> snd (snd ([(True, 3 :: nat, 0), (True, 2, 10 * millisecond)] ! i))"
    by (simp add: numeral_2_eq_2 All_less_Suc)
  then show ?thesis
    using wait_returns [of "[(True, 3, 0), (True, 2, 10 * millisecond)]" 0 "5 * millisecond" 1]
    by (auto simp: numeral_2_eq_2 millisecond_def)
qed

end
