(* ===== verification/Pool_Verdicts.thy ===== *)
theory Pool_Verdicts
  imports Pool_Properties
begin

text \<open>
  What the pool has entered for each single sensor: under every schedule of the workers its errors and
  anomalies are those of its own messages, judged by their payloads.
\<close>

section \<open>Verdicts still to be entered\<close>

definition failed :: "TelemetryMessage \<Rightarrow> bool" where
  "failed m = (\<exists>e. check_payload m = Some e \<and> \<not> is_validation e)"

definition anomalous :: "TelemetryMessage \<Rightarrow> bool" where
  "anomalous m = (\<exists>e. check_payload m = Some e \<and> is_validation e)"

text \<open>Each of the two counters with the messages it counts.\<close>

definition verdicts :: "((SensorState \<Rightarrow> u64) \<times> (TelemetryMessage \<Rightarrow> bool)) set" where
  "verdicts = {(st_ErrorCount, failed), (st_AnomalyCount, anomalous)}"

text \<open>A worker has yet to enter the verdict on the message it reports on, if it is one of \<open>P\<close>.\<close>

definition pending :: "bytes \<Rightarrow> (TelemetryMessage \<Rightarrow> bool) \<Rightarrow> phase \<Rightarrow> u64" where
  "pending sid P ph = of_bool (case reported ph of None \<Rightarrow> False | Some m \<Rightarrow> SensorID m = sid \<and> P m)"

fun judged :: "phase \<Rightarrow> bool" where
  "judged (Blaming m t e) = (check_payload m = Some e)"
| "judged _ = True"

definition counter_of :: "bytes \<Rightarrow> (SensorState \<Rightarrow> u64) \<Rightarrow> StateStore \<Rightarrow> u64" where
  "counter_of sid f s = (case Get sid s of None \<Rightarrow> 0 | Some st \<Rightarrow> f st)"

definition messages_with :: "bytes \<Rightarrow> (TelemetryMessage \<Rightarrow> bool) \<Rightarrow> TelemetryMessage list \<Rightarrow> TelemetryMessage list" where
  "messages_with sid P ms = filter (\<lambda>m. SensorID m = sid \<and> P m) ms"

lemma messages_with_simps [simp]:
  "messages_with sid P [] = []" "messages_with sid P (ms @ ms') = messages_with sid P ms @ messages_with sid P ms'"
  "messages_with sid P [m] = (if SensorID m = sid \<and> P m then [m] else [])"
  by (simp_all add: messages_with_def)

section \<open>One call on the store\<close>

lemma update_known_verdicts:
  "(f, P) \<in> verdicts \<Longrightarrow> f (entry_state (snd (update_known now m e))) = f (entry_state e)"
  by (cases rule: update_known_split [of m e])
    (auto simp: verdicts_def update_known_duplicate update_known_ahead update_known_late)

lemma counter_of_Update:
  "(f, P) \<in> verdicts \<Longrightarrow> counter_of sid f (snd (Update now m s)) = counter_of sid f s"
  by (auto simp: counter_of_def Get_def sensors_Update update_known_verdicts split: option.split)
    (auto simp: verdicts_def new_entry_def)

lemma counter_of_blame:
  assumes "(f, P) \<in> verdicts" and "check_payload m = Some e" and "Get (SensorID m) s \<noteq> None"
  shows "counter_of sid f (record_outcome (Some e) (SensorID m) s) =
    counter_of sid f s + of_bool (SensorID m = sid \<and> P m)"
  using assms
  by (auto simp: verdicts_def failed_def anomalous_def counter_of_def Get_def record_outcome_def RecordError_def
      RecordAnomaly_def split: option.splits)

lemma counter_of_CheckStale:
  "(f, P) \<in> verdicts \<Longrightarrow> counter_of sid f (snd (CheckStale ids now t s)) = counter_of sid f s"
  by (auto simp: verdicts_def counter_of_def Get_def sensors_CheckStale mark_stale_def split: option.split)

text \<open>One step of a worker.\<close>

lemma work_verdicts:
  assumes "work now ph w (s, pl, el) = Some (ph', w', s', pl', el')" and "known s ph" and "judged ph" and "(f, P) \<in> verdicts"
  shows "judged ph' \<and> counter_of sid f s' + pending sid P ph' =
    counter_of sid f s + pending sid P ph + of_nat (length (messages_with sid P (updates (phase_ops now ph))))"
proof (cases ph)
  case (Got m t)
  then have "s' = snd (Update now m s)" "\<exists>r. ph' = CountDropped m t r" using assms(1) by (auto split: prod.splits)
  then show ?thesis using Got counter_of_Update [OF assms(4)] by (auto simp: pending_def)
next
  case (Judging m t)
  have "P m \<Longrightarrow> check_payload m \<noteq> None" using assms(4) by (auto simp: verdicts_def failed_def anomalous_def)
  then show ?thesis using Judging assms(1) by (auto simp: pending_def split: option.splits)
next
  case (Blaming m t e)
  then have "s' = record_outcome (Some e) (SensorID m) s" "ph' = TimingWork m t" using assms(1) by auto
  moreover have "Get (SensorID m) s \<noteq> None" using assms(2) Blaming by (simp add: known_def)
  ultimately show ?thesis using Blaming assms(3) counter_of_blame [OF assms(4)] by (simp add: pending_def)
qed (use assms(1) in \<open>auto simp: pending_def split: option.splits\<close>)

section \<open>The invariant\<close>

definition verdicts_ok :: "system \<Rightarrow> bool" where
  "verdicts_ok s = ((\<forall>(w, ph)\<in>set (p_workers s). judged ph) \<and>
     (\<forall>(f, P)\<in>verdicts. \<forall>sid. counter_of sid f (p_store s) + sum_list (map (\<lambda>w. pending sid P (snd w)) (p_workers s)) =
        of_nat (length (messages_with sid P (updates (ops s))))))"

lemma judged_update:
  "\<forall>(w, ph)\<in>set ws. judged ph \<Longrightarrow> judged ph' \<Longrightarrow> \<forall>(w, ph)\<in>set (ws[i := (w', ph')]). judged ph"
  by (auto dest!: subsetD [OF set_update_subset_insert])

lemma verdicts_ok_step:
  assumes ex: "exec a s = Some s'" and ok: "pool_ok s" and v: "verdicts_ok s"
  shows "verdicts_ok s'"
proof -
  have nil: "nonnil s" using ok by (simp add: pool_ok_def)
  have j: "\<forall>(w, ph)\<in>set (p_workers s). judged ph" using v by (simp add: verdicts_ok_def)
  have sums: "counter_of sid f (p_store s) + sum_list (map (\<lambda>w. pending sid P (snd w)) (p_workers s)) =
        of_nat (length (messages_with sid P (updates (ops s))))" if "(f, P) \<in> verdicts" for f P sid
    using v that unfolding verdicts_ok_def by blast
  have idle: "sum_list (map (\<lambda>w. pending sid P (snd w)) ((p_workers s)[i := (w', ph')])) =
      sum_list (map (\<lambda>w. pending sid P (snd w)) (p_workers s))"
    if "i < length (p_workers s)" "reported ph' = None" "reported (snd (p_workers s ! i)) = None" for i w' ph' sid P
    using that by (simp add: sum_list_update_add pending_def)
  from ex nil show ?thesis
  proof (cases rule: exec_cases)
    case (take i w m now c)
    then show ?thesis using v judged_update [OF j, of "Got m now" i w] idle [OF take(1), where w' = w and ph' = "Got m now"]
      by (simp add: verdicts_ok_def)
  next
    case (leave i w)
    then show ?thesis using v judged_update [OF j, of Exited i w] idle [OF leave(1), where w' = w and ph' = Exited]
      by (simp add: verdicts_ok_def)
  next
    case (work i w ph now ph' w' st pl el)
    have k: "known (p_store s) ph" using ok nth_mem [OF work(1)] work(2) by (auto simp: pool_ok_def)
    have jp: "judged ph" using j nth_mem [OF work(1)] work(2) by auto
    have "counter_of sid f st + sum_list (map (\<lambda>w. pending sid P (snd w)) ((p_workers s)[i := (w', ph')])) =
        of_nat (length (messages_with sid P (updates (ops s @ phase_ops now ph))))" if "(f, P) \<in> verdicts" for f P sid
    proof -
      have "counter_of sid f st = counter_of sid f (p_store s) + pending sid P ph
          + of_nat (length (messages_with sid P (updates (phase_ops now ph)))) - pending sid P ph'"
        using work_verdicts [OF work(5) k jp that, of sid] by (simp add: eq_diff_eq)
      then show ?thesis using work(1,2) by (simp add: sum_list_update_add sums [OF that, of sid, symmetric])
    qed
    moreover have "judged ph'"
      using work_verdicts [OF work(5) k jp, of st_ErrorCount failed] by (simp add: verdicts_def)
    ultimately show ?thesis using work(6) judged_update [OF j, of ph' i w'] unfolding verdicts_ok_def by auto
  next
    case (scan ids now t)
    then show ?thesis using v counter_of_CheckStale unfolding verdicts_ok_def by fastforce
  next
    case stop
    then show ?thesis using v by (cases rule: stop_step_cases) (simp_all add: verdicts_ok_def)
  qed (use v in \<open>simp_all add: verdicts_ok_def\<close>)
qed

lemma reachable_verdicts: "reachable config s \<Longrightarrow> verdicts_ok s"
proof (induction rule: reachable.induct)
  case start
  have "sum_list (map (\<lambda>w. pending sid P (snd w)) (map (\<lambda>i. (NewWorker i, Idle)) xs)) = 0" for sid P xs
    by (induction xs) (simp_all add: pending_def)
  then show ?case by (auto simp: verdicts_ok_def counter_of_def Get_def NewStateStore_def comp_def)
next
  case (step s a s')
  then show ?case using verdicts_ok_step reachable_inv by (auto simp: inv_def)
qed

lemma history_updates: "history sid os = map Sequence (rev (filter (\<lambda>m. SensorID m = sid) (updates os)))"
proof (induction os rule: rev_induct)
  case Nil
  then show ?case by (simp add: history_def)
next
  case (snoc p os)
  then show ?case by (cases p) (simp_all add: history_snoc)
qed

section \<open>Properties\<close>

text \<open>
  Property C18. Under every schedule of the workers each message is judged once and entered for its own
  sensor: whenever no worker is in the middle of a message, a sensor is known exactly when one of its
  messages has been applied, its message count is the number of these, its error count the number of
  those whose payload does not decode, its anomaly count the number of those whose payload decodes
  but is out of range, and its last sequence is the highest among them.
\<close>

theorem sensor_outcomes_exact:
  assumes "reachable config s" and "\<forall>(w, ph)\<in>set (p_workers s). ph = Idle \<or> ph = Exited"
    and "ms = filter (\<lambda>m. SensorID m = sid) (updates (ops s))"
  shows "case Get sid (p_store s) of
      None \<Rightarrow> ms = []
    | Some st \<Rightarrow> ms \<noteq> [] \<and> st_MessageCount st = of_nat (length ms) \<and>
        st_ErrorCount st = of_nat (length (filter (\<lambda>m. \<not> payload_decodes m) ms)) \<and>
        st_AnomalyCount st = of_nat (length (filter (\<lambda>m. payload_decodes m \<and> check_payload m \<noteq> None) ms)) \<and>
        st_LastSequence st = Max (Sequence ` set ms)"
proof -
  have store: "p_store s = exec_ops (ops s) NewStateStore"
    using reachable_inv [OF assms(1)] by (simp add: inv_def pool_ok_def)
  have h: "history sid (ops s) = map Sequence (rev ms)" by (simp add: history_updates assms(3))
  have none: "Get sid (p_store s) = None \<longleftrightarrow> ms = []"
    using unknown_iff_no_history [of "ops s" sid] h store by (simp add: Get_def)
  have quiet: "sum_list (map (\<lambda>w. pending sid P (snd w)) (p_workers s)) = 0" for P
  proof -
    have "map (\<lambda>w. pending sid P (snd w)) (p_workers s) = map (\<lambda>w. 0) (p_workers s)"
      using assms(2) by (intro map_cong refl) (auto simp: pending_def)
    then show ?thesis by (simp only: sum_list_0)
  qed
  have counts: "counter_of sid f (p_store s) = of_nat (length (messages_with sid P (updates (ops s))))"
    if "(f, P) \<in> verdicts" for f P
  proof -
    have "counter_of sid f (p_store s) + sum_list (map (\<lambda>w. pending sid P (snd w)) (p_workers s)) =
        of_nat (length (messages_with sid P (updates (ops s))))"
      using reachable_verdicts [OF assms(1)] that unfolding verdicts_ok_def by blast
    then show ?thesis using quiet [of P] by simp
  qed
  have inside: "messages_with sid P (updates (ops s)) = filter P ms" for P
    unfolding messages_with_def assms(3) filter_filter by (rule filter_cong) auto
  have P: "failed = (\<lambda>m. \<not> payload_decodes m)" "anomalous = (\<lambda>m. payload_decodes m \<and> check_payload m \<noteq> None)"
  proof -
    have "failed m \<longleftrightarrow> \<not> payload_decodes m" "anomalous m \<longleftrightarrow> \<not> failed m \<and> check_payload m \<noteq> None" for m
      using error_iff_undecodable [of m] by (auto simp: failed_def anomalous_def)
    then show "failed = (\<lambda>m. \<not> payload_decodes m)" "anomalous = (\<lambda>m. payload_decodes m \<and> check_payload m \<noteq> None)"
      by (simp_all add: fun_eq_iff)
  qed
  show ?thesis
  proof (cases "Get sid (p_store s)")
    case None
    then show ?thesis using none by simp
  next
    case (Some st)
    then have "ms \<noteq> []" using none by auto
    moreover have "highest (map Sequence (rev ms)) = Max (Sequence ` set ms)"
      using highest_in [of "map Sequence (rev ms)"] highest_ge [of _ "map Sequence (rev ms)"] \<open>ms \<noteq> []\<close>
      by (intro Max_eqI [symmetric]) auto
    ultimately show ?thesis
      using Some counters_of_history [of sid "ops s" st] store h
        counts [of st_ErrorCount failed] counts [of st_AnomalyCount anomalous]
      by (simp add: counter_of_def verdicts_def inside P)
  qed
qed

text \<open>One message whose payload does not decode, taken through all its steps.\<close>

definition bad_gps :: TelemetryMessage where
  "bad_gps = sample_msg ''d'' ''gps'' 1 ''x''"

definition verdict_run :: "act list" where
  "verdict_run = [Call Enqueue (Some bad_gps), Proceed 0, Proceed 0, Work 0 1, Work 0 2, Work 0 3,
     Work 0 4, Work 0 5, Work 0 6, Work 0 7, Work 0 8, Work 0 9]"

lemma bad_gps_undecodable: "\<not> payload_decodes bad_gps"
  by code_simp

lemma verdict_run_ends:
  "\<exists>s w0 w1. exec_all verdict_run (started two_workers) = Some s \<and> p_workers s = [(w0, Idle), (w1, Idle)] \<and>
     updates (ops s) = [bad_gps]"
proof -
  obtain e where e: "check_payload bad_gps = Some e" "\<not> is_validation e"
    using error_iff_undecodable bad_gps_undecodable by blast
  have new: "recorder_ok (NewLatencyRecorder 0)" by simp
  obtain pl where pl: "Record (Sub 8 1) (NewLatencyRecorder 0) = Some pl" using latency.rcd_ok [OF new] by blast
  obtain el where el: "Record (Sub 9 (Timestamp bad_gps)) (NewLatencyRecorder 0) = Some el"
    using latency.rcd_ok [OF new] by blast
  show ?thesis
    by (simp add: verdict_run_def started_two_workers run_simps Update_def NewStateStore_def e pl el updates_def)
qed

theorem sensor_outcomes_exact_witness:
  "\<exists>s st. reachable two_workers s \<and> Get ''d'' (p_store s) = Some st \<and> st_MessageCount st = 1 \<and>
     st_ErrorCount st = 1 \<and> st_AnomalyCount st = 0 \<and> st_LastSequence st = 1"
proof -
  obtain s w0 w1 where s: "exec_all verdict_run (started two_workers) = Some s" "p_workers s = [(w0, Idle), (w1, Idle)]"
    "updates (ops s) = [bad_gps]" using verdict_run_ends by blast
  have r: "reachable two_workers s"
    by (rule reachable_exec_all [OF reachable.start _ s(1)]) (simp add: verdict_run_def no_nil_def)
  have q: "\<forall>(w, ph)\<in>set (p_workers s). ph = Idle \<or> ph = Exited" by (simp add: s(2))
  have ms: "[bad_gps] = filter (\<lambda>m. SensorID m = ''d'') (updates (ops s))" by (simp add: s(3) bad_gps_def sample_msg_def)
  have "Sequence bad_gps = 1" by (simp add: bad_gps_def sample_msg_def)
  then show ?thesis
    using sensor_outcomes_exact [OF r q ms] r bad_gps_undecodable by (auto split: option.splits)
qed

end
