(* ===== verification/Pool_Calls.thy ===== *)
theory Pool_Calls
  imports Pool_Invariants
begin

text \<open>
  The processor inside a larger program: the actions its own goroutines take, what they leave alone,
  and what every action does to the calls in progress. The server and the replay program build on it.
\<close>

section \<open>Actions of the pool's own\<close>

text \<open>What the workers and the callers in progress do; new calls, \<open>Stop\<close> and scans come from outside.\<close>

fun pool_own :: "act \<Rightarrow> bool" where
  "pool_own (Call k m) = False"
| "pool_own StopStep = False"
| "pool_own (Scan ids now t) = False"
| "pool_own _ = True"

lemma no_nil_own: "pool_own b \<Longrightarrow> no_nil b"
  by (cases b) (simp_all add: no_nil_def)

lemma pool_own_keeps:
  assumes "exec b p = Some p'" and "pool_own b"
  shows "stopping p' = stopping p \<and> p_isRunning p' = p_isRunning p \<and> p_stopClosed p' = p_stopClosed p"
proof -
  have live: "\<not> crashed p" using assms(1) by (simp add: exec.simps split: if_splits)
  show ?thesis
  proof (cases b)
    case (Proceed i)
    then have "proceed i p = Some p'" using assms live by (simp add: exec.simps)
    then show ?thesis by (cases rule: proceed_cases) auto
  next
    case (GiveUp i)
    then have "give_up i p = Some p'" using assms live by (simp add: exec.simps)
    then show ?thesis by (auto simp: give_up_def split: if_splits call.splits)
  next
    case (Work i now)
    then have "worker_step i now p = Some p'" using assms live by (simp add: exec.simps)
    then show ?thesis by (cases rule: worker_step_cases) auto
  next
    case (Quit i)
    then have "worker_quit i p = Some p'" using assms live by (simp add: exec.simps)
    then show ?thesis by (auto simp: worker_quit_def split: if_splits prod.splits phase.splits)
  qed (use assms in simp_all)
qed

fun touches_calls :: "act \<Rightarrow> bool" where
  "touches_calls (Call k m) = True"
| "touches_calls (Proceed i) = True"
| "touches_calls (GiveUp i) = True"
| "touches_calls _ = False"

lemma keeps_calls:
  assumes "exec b p = Some p'" and "\<not> touches_calls b"
  shows "calls p' = calls p \<and> accepted p' = accepted p"
proof -
  have live: "\<not> crashed p" using assms(1) by (simp add: exec.simps split: if_splits)
  show ?thesis
  proof (cases b)
    case (Work i now)
    then have "worker_step i now p = Some p'" using assms live by (simp add: exec.simps)
    then show ?thesis by (cases rule: worker_step_cases) auto
  next
    case (Quit i)
    then have "worker_quit i p = Some p'" using assms live by (simp add: exec.simps)
    then show ?thesis by (auto simp: worker_quit_def split: if_splits prod.splits phase.splits)
  next
    case StopStep
    then have "stop_step p = Some p'" using assms live by (simp add: exec.simps)
    then show ?thesis by (cases rule: stop_step_cases) auto
  qed (use assms live in \<open>auto simp: exec.simps\<close>)
qed

section \<open>Calls in progress\<close>

lemma calls_cases:
  assumes "exec b p = Some p'" and "nonnil p"
  obtains (same) "calls p' = calls p" "accepted p' = accepted p"
  | (called) k m where "b = Call k m" "accepted p' = accepted p"
      "calls p' = calls p @ [if \<not> p_isRunning p then call.Returned (Some NotRunning)
         else case k of Enqueue \<Rightarrow> Blocking m | TryEnqueue \<Rightarrow> Trying m]"
  | (entered) i m where "i < length (calls p)" "calls p ! i \<in> {Blocking m, Trying m}"
      "calls p' = (calls p)[i := Counting]" "accepted p' = accepted p @ [m]"
  | (refused) i m where "i < length (calls p)" "calls p ! i = Trying (Some m)"
      "calls p' = (calls p)[i := call.Returned (Some QueueFull)]" "accepted p' = accepted p"
  | (counted) i where "i < length (calls p)" "calls p ! i = Counting"
      "calls p' = (calls p)[i := call.Returned None]" "accepted p' = accepted p"
  | (gave_up) i m where "i < length (calls p)" "calls p ! i = Blocking m" "p_stopClosed p"
      "calls p' = (calls p)[i := call.Returned (Some Stopping)]" "accepted p' = accepted p"
proof -
  have live: "\<not> crashed p" using assms(1) by (simp add: exec.simps split: if_splits)
  show thesis
  proof (cases "touches_calls b")
    case False
    then show thesis using keeps_calls [OF assms(1)] same by blast
  next
    case True
    show thesis
    proof (cases b)
      case (Call k m)
      then show thesis using assms(1) live called by (auto simp: exec.simps)
    next
      case (Proceed i)
      then have "proceed i p = Some p'" using assms(1) live by (simp add: exec.simps)
      then show thesis
      proof (cases rule: proceed_cases)
        case (send m)
        then show thesis using entered [of i m] by simp
      next
        case (reject m)
        then show thesis using refused [of i m] by simp
      next
        case count
        then show thesis using counted [of i] by simp
      next
        case panic
        then show thesis using same by simp
      qed
    next
      case (GiveUp i)
      then have "give_up i p = Some p'" using assms(1) live by (simp add: exec.simps)
      then show thesis using gave_up by (auto simp: give_up_def split: if_splits call.splits)
    qed (use True in simp_all)
  qed
qed

text \<open>A call made for a message is over or still has that message.\<close>

fun in_call :: "TelemetryMessage \<Rightarrow> call \<Rightarrow> bool" where
  "in_call m (Blocking om) = (om = Some m)"
| "in_call m (Trying om) = False"
| "in_call m Counting = True"
| "in_call m (call.Returned r) = True"

end
