(* ===== verification/Go_Scan.thy ===== *)
theory Go_Scan
  imports Prelude
begin

text \<open>
  \<open>bufio.Scanner\<close> with the \<open>ScanLines\<close> splitter, over a whole stream: the lines it delivers
  and whether it stops with \<open>ErrTooLong\<close>. A line ends at a newline or at the end of the stream,
  loses one trailing carriage return, and the scanner gives up on the first line whose bytes
  before the newline fill its buffer of \<open>limit\<close> bytes. Data buffered when a read fails is
  still delivered, as the last line.
\<close>

abbreviation newline :: char where "newline \<equiv> CHR 0x0A"

definition drop_cr :: "bytes \<Rightarrow> bytes" where
  "drop_cr s = (if s \<noteq> [] \<and> last s = CHR 0x0D then butlast s else s)"

function scan_lines :: "nat \<Rightarrow> bytes \<Rightarrow> bytes list \<times> bool" where
  "scan_lines limit s =
     (if s = [] then ([], False)
      else let line = takeWhile (\<lambda>c. c \<noteq> newline) s; rest = dropWhile (\<lambda>c. c \<noteq> newline) s
        in if limit \<le> length line then ([], True)
           else if rest = [] then ([drop_cr line], False)
           else (let (ls, e) = scan_lines limit (tl rest) in (drop_cr line # ls, e)))"
  by pat_completeness auto
termination
proof (relation "measure (\<lambda>(limit, s). length s)")
  fix s line rest :: bytes and limit :: nat
  assume "s \<noteq> []" "rest = dropWhile (\<lambda>c. c \<noteq> newline) s" "rest \<noteq> []"
  then have "length (tl rest) < length s"
    using length_dropWhile_le [of "\<lambda>c. c \<noteq> newline" s] by (simp add: less_le_trans [of _ "length rest"])
  then show "((limit, tl rest), limit, s) \<in> measure (\<lambda>(limit, s). length s)" by simp
qed simp

declare scan_lines.simps [simp del]

lemma scan_lines_Nil [simp]: "scan_lines limit [] = ([], False)"
  by (simp add: scan_lines.simps)

text \<open>A newline-terminated line within the limit is delivered, and scanning goes on after it.\<close>

lemma scan_lines_cons:
  assumes "newline \<notin> set l" and "length l < limit"
  shows "scan_lines limit (l @ newline # s) =
    (drop_cr l # fst (scan_lines limit s), snd (scan_lines limit s))"
proof -
  have "takeWhile (\<lambda>c. c \<noteq> newline) (l @ newline # s) = l"
    "dropWhile (\<lambda>c. c \<noteq> newline) (l @ newline # s) = newline # s"
    using assms(1) by (auto simp: takeWhile_append dropWhile_append)
  then show ?thesis using assms(2)
    by (simp add: scan_lines.simps [of limit "l @ newline # s"] case_prod_unfold Let_def)
qed

definition join_lines :: "bytes list \<Rightarrow> bytes" where
  "join_lines ls = concat (map (\<lambda>l. l @ [newline]) ls)"

text \<open>Lines written with a newline each are read back one by one.\<close>

lemma scan_join_lines:
  assumes "\<forall>l\<in>set ls. newline \<notin> set l \<and> length l < limit"
  shows "scan_lines limit (join_lines ls) = (map drop_cr ls, False)"
  using assms
proof (induction ls)
  case (Cons l ls)
  then show ?case using scan_lines_cons [of l limit "join_lines ls"] by (simp add: join_lines_def)
qed (simp add: join_lines_def)

text \<open>A line that is too long hides everything after it.\<close>

lemma scan_lines_too_long:
  assumes "newline \<notin> set l" and "limit \<le> length l" and "l \<noteq> []"
  shows "scan_lines limit (l @ newline # s) = ([], True)"
proof -
  have "takeWhile (\<lambda>c. c \<noteq> newline) (l @ newline # s) = l"
    using assms(1) by (auto simp: takeWhile_append)
  then show ?thesis using assms by (simp add: scan_lines.simps [of limit "l @ newline # s"] Let_def)
qed

text \<open>What was joined before is delivered whatever follows it.\<close>

lemma scan_lines_append:
  assumes "\<forall>l\<in>set ls. newline \<notin> set l \<and> length l < limit"
  shows "scan_lines limit (join_lines ls @ s) =
    (map drop_cr ls @ fst (scan_lines limit s), snd (scan_lines limit s))"
  using assms
proof (induction ls)
  case (Cons l ls)
  then show ?case using scan_lines_cons [of l limit "join_lines ls @ s"] by (simp add: join_lines_def)
qed (simp add: join_lines_def)

text \<open>Every delivered line is shorter than the limit and contains no newline.\<close>

lemma scan_lines_sound:
  "l \<in> set (fst (scan_lines limit s)) \<Longrightarrow> length l < limit \<and> newline \<notin> set l"
proof (induction limit s rule: scan_lines.induct)
  case (1 limit s)
  let ?line = "takeWhile (\<lambda>c. c \<noteq> newline) s" and ?rest = "dropWhile (\<lambda>c. c \<noteq> newline) s"
  have line: "length (drop_cr ?line) < limit \<and> newline \<notin> set (drop_cr ?line)" if "length ?line < limit"
    using that in_set_butlastD [of newline ?line] set_takeWhileD [of newline _ s]
    by (auto simp: drop_cr_def)
  show ?case
  proof (cases "s \<noteq> [] \<and> length ?line < limit")
    case True
    have "l = drop_cr ?line \<or> ?rest \<noteq> [] \<and> l \<in> set (fst (scan_lines limit (tl ?rest)))"
      using 1(2) True
      by (subst (asm) scan_lines.simps) (auto simp: Let_def case_prod_unfold split: if_splits)
    then show ?thesis using 1(1) [OF _ refl refl] line True by auto
  next
    case False
    then show ?thesis using 1(2)
      by (subst (asm) scan_lines.simps) (auto simp: Let_def split: if_splits)
  qed
qed

section \<open>The scanner, one step at a time\<close>

text \<open>
  One call of \<open>Scan\<close> on the bytes its buffer holds, given whether the stream has ended: a line
  and what is left, a request for more input, the error, or the end.
\<close>

datatype scan_result = Token bytes bytes | NeedData | TooLong | NoMore

definition scan_step :: "nat \<Rightarrow> bytes \<Rightarrow> bool \<Rightarrow> scan_result" where
  "scan_step limit s ended =
     (let line = takeWhile (\<lambda>c. c \<noteq> newline) s; rest = dropWhile (\<lambda>c. c \<noteq> newline) s
      in if limit \<le> length line then TooLong
         else if rest \<noteq> [] then Token (drop_cr line) (tl rest)
         else if \<not> ended then NeedData
         else if s = [] then NoMore
         else Token (drop_cr s) [])"

text \<open>Whatever arrives later, a step agrees with scanning the whole stream at once.\<close>

lemma scan_step_Token:
  assumes "scan_step limit s ended = Token l rest" and "ended \<longrightarrow> d = []"
  shows "scan_lines limit (s @ d) =
    (l # fst (scan_lines limit (rest @ d)), snd (scan_lines limit (rest @ d)))"
proof -
  let ?line = "takeWhile (\<lambda>c. c \<noteq> newline) s" and ?rest = "dropWhile (\<lambda>c. c \<noteq> newline) s"
  have short: "length ?line < limit" "newline \<notin> set ?line"
    using assms(1) set_takeWhileD [of newline _ s] by (auto simp: scan_step_def Let_def split: if_splits)
  show ?thesis
  proof (cases "?rest = []")
    case False
    then obtain r where "?rest = newline # r" using hd_dropWhile [OF False] by (cases ?rest) auto
    then have "s = ?line @ newline # r" by (metis takeWhile_dropWhile_id)
    moreover have "l = drop_cr ?line" "rest = r"
      using assms(1) short \<open>?rest = _\<close> by (simp_all add: scan_step_def Let_def)
    ultimately show ?thesis using scan_lines_cons [OF short(2,1), of "r @ d"] by (metis append.assoc append_Cons)
  next
    case True
    then have "?line = s" by (metis append_Nil2 takeWhile_dropWhile_id)
    then have "l = drop_cr s" "rest = []" "s \<noteq> []" "d = []"
      using assms True short by (simp_all add: scan_step_def Let_def split: if_splits)
    then show ?thesis using True short
      by (simp add: scan_lines.simps [of limit s] takeWhile_eq_all_conv [THEN iffD2] Let_def)
  qed
qed

lemma scan_step_TooLong:
  assumes "scan_step limit s ended = TooLong" and "s \<noteq> []"
  shows "scan_lines limit (s @ d) = ([], True)"
proof -
  let ?line = "\<lambda>s. takeWhile (\<lambda>c. c \<noteq> newline) s"
  have "limit \<le> length (?line s)" using assms(1) by (auto simp: scan_step_def Let_def split: if_splits)
  also have "\<dots> \<le> length (?line (s @ d))" by (induction s) auto
  finally have "limit \<le> length (?line (s @ d))" .
  moreover have "s @ d \<noteq> []" using assms(2) by simp
  ultimately show ?thesis by (subst scan_lines.simps) (simp only: Let_def if_True if_False refl not_False_eq_True)
qed

lemma scan_step_NoMore: "scan_step limit s ended = NoMore \<Longrightarrow> s = []"
  by (auto simp: scan_step_def Let_def split: if_splits)

text \<open>With the stream ended a step never asks for more, and each token uses up input.\<close>

lemma scan_step_ended: "scan_step limit s True \<noteq> NeedData"
  by (simp add: scan_step_def Let_def)

lemma scan_step_shrinks:
  assumes "scan_step limit s ended = Token l rest"
  shows "length rest < length s"
proof (cases "dropWhile (\<lambda>c. c \<noteq> newline) s = []")
  case False
  then have "length (tl (dropWhile (\<lambda>c. c \<noteq> newline) s)) < length (dropWhile (\<lambda>c. c \<noteq> newline) s)" by simp
  also have "\<dots> \<le> length s" by (rule length_dropWhile_le)
  finally show ?thesis using assms False by (auto simp: scan_step_def Let_def split: if_splits)
next
  case True
  then show ?thesis using assms by (auto simp: scan_step_def Let_def split: if_splits)
qed

text \<open>The two usual outcomes.\<close>

lemma scan_step_line:
  assumes "newline \<notin> set l" and "length l < limit"
  shows "scan_step limit (l @ newline # s) ended = Token (drop_cr l) s"
proof -
  have "takeWhile (\<lambda>c. c \<noteq> newline) (l @ newline # s) = l"
    "dropWhile (\<lambda>c. c \<noteq> newline) (l @ newline # s) = newline # s"
    using assms(1) by (auto simp: takeWhile_append dropWhile_append)
  then show ?thesis using assms(2) by (simp add: scan_step_def)
qed

lemma scan_step_partial:
  assumes "newline \<notin> set s" and "length s < limit"
  shows "scan_step limit s False = NeedData"
proof -
  have "takeWhile (\<lambda>c. c \<noteq> newline) s = s" "dropWhile (\<lambda>c. c \<noteq> newline) s = []"
    using assms(1) by (auto simp: takeWhile_eq_all_conv)
  with assms(2) show ?thesis unfolding scan_step_def Let_def by (simp only: not_le) simp
qed

lemma scan_step_end: "0 < limit \<Longrightarrow> scan_step limit [] True = NoMore"
  by (simp add: scan_step_def)

end
