(* ===== verification/Replay.thy ===== *)
theory Replay
  imports Protocol Go_Scan
begin

text \<open>
  internal/replay/player.go: replaying a JSON Lines file through a handler. The file system is
  a map from paths to the bytes a file yields and the error that ends it, if any; the handler
  is a function on a state of its own, and \<open>ctx\<close> gives the context's error as seen before a
  line.
\<close>

section \<open>The player\<close>

definition maxLineSize :: nat where "maxLineSize = 2 ^ 20"

record Player =
  path :: bytes

definition NewPlayer :: "bytes \<Rightarrow> Player" where
  "NewPlayer p = \<lparr>path = p\<rparr>"

datatype 'e replay_error =
    OpenFailed
  | Cancelled 'e
  | ParseLine nat
  | HandlerFailed nat 'e
  | ScanFailed "'e option"

text \<open>\<open>ScanFailed None\<close> is \<open>ErrTooLong\<close>, \<open>ScanFailed (Some e)\<close> a read error.\<close>

type_synonym ('e, 's) handler = "TelemetryMessage \<Rightarrow> 's \<Rightarrow> 'e option \<times> 's"

fun replay_lines :: "(nat \<Rightarrow> 'e option) \<Rightarrow> ('e, 's) handler \<Rightarrow> 'e replay_error option \<Rightarrow>
    nat \<Rightarrow> nat \<Rightarrow> bytes list \<Rightarrow> 's \<Rightarrow> nat \<times> 'e replay_error option \<times> 's" where
  "replay_lines ctx handle scanErr lineNum cnt [] s = (cnt, scanErr, s)"
| "replay_lines ctx handle scanErr lineNum cnt (line # lines) s =
     (case ctx (lineNum + 1) of
        Some err \<Rightarrow> (cnt, Some (Cancelled err), s)
      | None \<Rightarrow>
        if length line = 0 then replay_lines ctx handle scanErr (lineNum + 1) cnt lines s
        else (case unmarshal TelemetryMessage_fields zero_TelemetryMessage line of
            None \<Rightarrow> (cnt, Some (ParseLine (lineNum + 1)), s)
          | Some msg \<Rightarrow> (case handle msg s of
                (Some err, s') \<Rightarrow> (cnt, Some (HandlerFailed (lineNum + 1) err), s')
              | (None, s') \<Rightarrow> replay_lines ctx handle scanErr (lineNum + 1) (cnt + 1) lines s')))"

definition scan_error :: "bool \<Rightarrow> 'e option \<Rightarrow> 'e replay_error option" where
  "scan_error tooLong readErr =
     (if tooLong then Some (ScanFailed None) else map_option (\<lambda>e. ScanFailed (Some e)) readErr)"

definition Replay :: "Player \<Rightarrow> (bytes \<rightharpoonup> bytes \<times> 'e option) \<Rightarrow> (nat \<Rightarrow> 'e option) \<Rightarrow>
    ('e, 's) handler \<Rightarrow> 's \<Rightarrow> nat \<times> 'e replay_error option \<times> 's" where
  "Replay p files ctx handle s =
     (case files (path p) of
        None \<Rightarrow> (0, Some OpenFailed, s)
      | Some (data, readErr) \<Rightarrow>
          (let (lines, tooLong) = scan_lines maxLineSize data
           in replay_lines ctx handle (scan_error tooLong readErr) 0 0 lines s))"

section \<open>What a replay does\<close>

text \<open>The messages of the lines, blank ones skipped; None is a line that does not decode.\<close>

definition line_messages :: "bytes list \<Rightarrow> TelemetryMessage option list" where
  "line_messages ls = map (unmarshal TelemetryMessage_fields zero_TelemetryMessage) (filter (\<lambda>l. l \<noteq> []) ls)"

text \<open>Handling messages one after the other, all of them successfully.\<close>

fun handle_all :: "('e, 's) handler \<Rightarrow> TelemetryMessage list \<Rightarrow> 's \<Rightarrow> 's option" where
  "handle_all handle [] s = Some s"
| "handle_all handle (m # ms) s =
     (case handle m s of (None, s') \<Rightarrow> handle_all handle ms s' | (Some e, s') \<Rightarrow> None)"

lemma handle_all_append:
  "handle_all handle (ms @ ms') s = Option.bind (handle_all handle ms s) (handle_all handle ms')"
  by (induction ms arbitrary: s) (auto split: prod.split option.split)

text \<open>
  Why a replay ends after \<open>n\<close> lines, with \<open>rest\<close> not yet looked at: the context is found cancelled at
  the next line, that line does not decode, the handler fails on its message, or there is none.
\<close>

definition ends_with :: "(nat \<Rightarrow> 'e option) \<Rightarrow> ('e, 's) handler \<Rightarrow> 'e replay_error option \<Rightarrow> nat \<Rightarrow> bytes list \<Rightarrow>
    's \<Rightarrow> 's \<Rightarrow> 'e replay_error option \<Rightarrow> bool" where
  "ends_with ctx handle scanErr n rest s1 s' err =
     (case rest of
        [] \<Rightarrow> err = scanErr \<and> s' = s1
      | line # _ \<Rightarrow> (case ctx (n + 1) of
            Some e \<Rightarrow> err = Some (Cancelled e) \<and> s' = s1
          | None \<Rightarrow> line \<noteq> [] \<and> (case unmarshal TelemetryMessage_fields zero_TelemetryMessage line of
                None \<Rightarrow> err = Some (ParseLine (n + 1)) \<and> s' = s1
              | Some m \<Rightarrow> fst (handle m s1) \<noteq> None \<and> s' = snd (handle m s1) \<and>
                  err = map_option (HandlerFailed (n + 1)) (fst (handle m s1)))))"

lemma replay_lines_stop:
  assumes "replay_lines ctx handle scanErr n c ls s = (cnt, err, s')"
  shows "\<exists>seen rest ms s1. ls = seen @ rest \<and> (\<forall>j<length seen. ctx (n + j + 1) = None) \<and>
    line_messages seen = map Some ms \<and> cnt = c + length ms \<and> handle_all handle ms s = Some s1 \<and>
    ends_with ctx handle scanErr (n + length seen) rest s1 s' err"
  using assms
proof (induction ls arbitrary: n c s)
  case Nil
  then show ?case by (intro exI [of _ "[]"]) (simp add: line_messages_def ends_with_def)
next
  case (Cons l ls)
  have here: ?case if "cnt = c" "ends_with ctx handle scanErr n (l # ls) s s' err"
    using that by (intro exI [of _ "[]"] exI [of _ "l # ls"]) (simp add: line_messages_def)
  have further: ?case
    if r: "replay_lines ctx handle scanErr (n + 1) (c + length pre) ls s2 = (cnt, err, s')" and live: "ctx (n + 1) = None"
      and l: "line_messages [l] = map Some pre" "handle_all handle pre s = Some s2" for pre s2
  proof -
    obtain seen' rest ms s1 where d: "ls = seen' @ rest" "\<forall>j<length seen'. ctx (n + 1 + j + 1) = None"
      "line_messages seen' = map Some ms" "cnt = c + length pre + length ms" "handle_all handle ms s2 = Some s1"
      "ends_with ctx handle scanErr (n + 1 + length seen') rest s1 s' err"
      using Cons.IH [OF r] by blast
    have "\<forall>j<length (l # seen'). ctx (n + j + 1) = None"
    proof (intro allI impI)
      fix j assume "j < length (l # seen')"
      then show "ctx (n + j + 1) = None" using live d(2) by (cases j) auto
    qed
    moreover have "line_messages (l # seen') = map Some (pre @ ms)"
      using l(1) d(3) by (simp add: line_messages_def split: if_splits)
    moreover have "handle_all handle (pre @ ms) s = Some s1" using l(2) d(5) by (simp add: handle_all_append)
    ultimately show ?thesis using d(1,4,6)
      by (intro exI [of _ "l # seen'"] exI [of _ rest] exI [of _ "pre @ ms"] exI [of _ s1]) simp
  qed
  show ?case
  proof (cases "ctx (n + 1)")
    case (Some e)
    then show ?thesis using Cons.prems by (intro here) (simp_all add: ends_with_def)
  next
    case live: None
    show ?thesis
    proof (cases "l = []")
      case True
      then show ?thesis using Cons.prems live by (intro further [of "[]" s]) (simp_all add: line_messages_def)
    next
      case False
      show ?thesis
      proof (cases "unmarshal TelemetryMessage_fields zero_TelemetryMessage l")
        case None
        then show ?thesis using Cons.prems live False by (intro here) (simp_all add: ends_with_def)
      next
        case (Some m)
        obtain e s2 where h: "handle m s = (e, s2)" by fastforce
        show ?thesis
        proof (cases e)
          case None
          then show ?thesis using Cons.prems live False Some h
            by (intro further [of "[m]" s2]) (simp_all add: line_messages_def)
        next
          case (Some e')
          then show ?thesis using Cons.prems live False \<open>unmarshal _ _ l = Some m\<close> h
            by (intro here) (simp_all add: ends_with_def)
        qed
      qed
    qed
  qed
qed

lemma replay_lines_all:
  assumes "line_messages ls = map Some ms" and ok: "\<And>m s. fst (handle m s) = None" and ctx: "\<And>n. ctx n = None"
  shows "replay_lines ctx handle err n c ls s = (c + length ms, err, fold (\<lambda>m s. snd (handle m s)) ms s)"
  using assms(1)
proof (induction ls arbitrary: n c ms s)
  case Nil
  then show ?case by (simp add: line_messages_def)
next
  case (Cons l ls)
  show ?case
  proof (cases "l = []")
    case True
    then show ?thesis using Cons ctx by (simp add: line_messages_def)
  next
    case False
    then obtain m ms' where m: "ms = m # ms'" "unmarshal TelemetryMessage_fields zero_TelemetryMessage l = Some m"
      "line_messages ls = map Some ms'"
      using Cons.prems by (auto simp: line_messages_def Cons_eq_map_conv)
    obtain s1 where "handle m s = (None, s1)" using ok by (metis prod.collapse)
    then show ?thesis using m Cons.IH [OF m(3), of "n + 1" "c + 1" s1] False ctx by simp
  qed
qed

section \<open>Properties\<close>

text \<open>
  Property C25. A replay of a file that cannot be opened hands over nothing and says so. Otherwise it
  goes through the lines of the file in order and stops at the first problem. Up to there the context
  was not cancelled and every line that is not blank was a message, all of them were handled, in
  order and successfully, and the number it returns is their number. The error is the context's
  exactly when that is cancelled at the next line; else it names that line's number and says that the line
  does not decode or what its handler returned; else, with no line left, it is that of the scanner: a
  line over the limit, or a read error, or none. Nothing after the problem is handled.
\<close>

theorem replay_counts_handled:
  assumes "Replay p files ctx handle s = (cnt, err, s')"
  shows "case files (path p) of
      None \<Rightarrow> cnt = 0 \<and> err = Some OpenFailed \<and> s' = s
    | Some (data, readErr) \<Rightarrow>
        (\<exists>seen rest ms s1. fst (scan_lines maxLineSize data) = seen @ rest \<and>
          (\<forall>j<length seen. ctx (j + 1) = None) \<and> line_messages seen = map Some ms \<and>
          cnt = length ms \<and> handle_all handle ms s = Some s1 \<and>
          ends_with ctx handle
            (if snd (scan_lines maxLineSize data) then Some (ScanFailed None)
             else map_option (\<lambda>e. ScanFailed (Some e)) readErr) (length seen) rest s1 s' err)"
proof (cases "files (path p)")
  case None
  then show ?thesis using assms by (simp add: Replay_def)
next
  case (Some f)
  obtain data readErr where f: "f = (data, readErr)" by fastforce
  obtain ls e where l: "scan_lines maxLineSize data = (ls, e)" by fastforce
  have "replay_lines ctx handle (scan_error e readErr) 0 0 ls s = (cnt, err, s')"
    using assms l Some f by (simp add: Replay_def)
  from replay_lines_stop [OF this] show ?thesis using Some f l by (simp add: scan_error_def)
qed

text \<open>A file of two messages around a blank line, and one whose second line is broken.\<close>

definition sample_line :: bytes where
  "sample_line = ''{\"sensor_id\":\"g\",\"sensor_type\":\"gps\",\"sequence\":7,\"data\":{}}''"

definition sample_parsed :: TelemetryMessage where
  "sample_parsed = \<lparr>SensorID = ''g'', SensorType = ''gps'', Sequence = 7, Timestamp = 0, Data = ''{}''\<rparr>"

lemma sample_line_parses:
  "unmarshal TelemetryMessage_fields zero_TelemetryMessage sample_line = Some sample_parsed"
  by code_simp

lemma broken_line_fails: "unmarshal TelemetryMessage_fields zero_TelemetryMessage ''{oops'' = None"
  by code_simp

lemma sample_line_short: "newline \<notin> set sample_line \<and> length sample_line < maxLineSize \<and> drop_cr sample_line = sample_line"
  by (simp add: sample_line_def maxLineSize_def drop_cr_def)

text \<open>A handler that collects the messages.\<close>

definition collect :: "(unit, TelemetryMessage list) handler" where
  "collect m s = (None, s @ [m])"

theorem replay_counts_handled_witness:
  "\<exists>s'. Replay (NewPlayer ''f'') [''f'' \<mapsto> (join_lines [sample_line, [], ''{oops'', sample_line], None)]
      (\<lambda>_. None) collect [] = (1, Some (ParseLine 3), s') \<and>
     (\<exists>seen rest ms. [sample_line, [], ''{oops'', sample_line] = seen @ rest \<and> line_messages seen = map Some ms \<and>
        length ms = 1 \<and> ends_with (\<lambda>_. None) collect None (length seen) rest ms s' (Some (ParseLine 3)))"
proof -
  let ?data = "join_lines [sample_line, [], ''{oops'', sample_line]"
  let ?files = "[''f'' \<mapsto> (?data, None)] :: bytes \<rightharpoonup> bytes \<times> unit option"
  have scan: "scan_lines maxLineSize ?data = ([sample_line, [], ''{oops'', sample_line], False)"
    using scan_join_lines [of "[sample_line, [], ''{oops'', sample_line]" maxLineSize] sample_line_short
    by (simp add: drop_cr_def maxLineSize_def)
  have r: "Replay (NewPlayer ''f'') ?files (\<lambda>_. None) collect [] = (1, Some (ParseLine 3), [sample_parsed])"
    using scan sample_line_short
    by (simp add: Replay_def NewPlayer_def sample_line_parses broken_line_fails collect_def sample_line_def [symmetric])
       (simp add: sample_line_def)
  have all: "handle_all collect ms s = Some (s @ ms)" for ms s
    by (induction ms arbitrary: s) (simp_all add: collect_def)
  have f: "?files (path (NewPlayer ''f'')) = Some (?data, None)" by (simp add: NewPlayer_def)
  obtain seen rest ms where "[sample_line, [], ''{oops'', sample_line] = seen @ rest" "line_messages seen = map Some ms"
    "length ms = 1" "ends_with (\<lambda>_. None) collect None (length seen) rest ms [sample_parsed] (Some (ParseLine 3))"
    using replay_counts_handled [OF r] unfolding f by (auto simp: scan all scan_error_def)
  with r show ?thesis by blast
qed

text \<open>
  A file of well-formed lines, each shorter than 1 MiB, replays completely: every
  message reaches the handler once, in file order, and the count is the number of messages. Blank
  lines are skipped, and a carriage return at the end of a line is dropped.
\<close>

theorem replay_complete:
  assumes "files (path p) = Some (join_lines ls, None)"
    and "\<forall>l\<in>set ls. newline \<notin> set l \<and> length l < maxLineSize"
    and "line_messages (map drop_cr ls) = map Some ms"
    and "\<forall>m s. fst (handle m s) = None" and "\<forall>n. ctx n = None"
  shows "Replay p files ctx handle s = (length ms, None, fold (\<lambda>m s. snd (handle m s)) ms s)"
  using scan_join_lines [OF assms(2)] assms(1,4,5)
    replay_lines_all [OF assms(3), of handle ctx None 0 0 s]
  by (simp add: Replay_def scan_error_def)

theorem replay_complete_witness:
  "Replay (NewPlayer ''f'') [''f'' \<mapsto> (join_lines [sample_line, [], sample_line], None)] (\<lambda>_. None) collect []
     = (2, None, [sample_parsed, sample_parsed])"
proof -
  have "line_messages (map drop_cr [sample_line, [], sample_line]) = map Some [sample_parsed, sample_parsed]"
    using sample_line_short sample_line_parses by (simp add: line_messages_def drop_cr_def) (simp add: sample_line_def)
  then show ?thesis
    using replay_complete [of "[''f'' \<mapsto> (join_lines [sample_line, [], sample_line], None)]" "NewPlayer ''f''"
        "[sample_line, [], sample_line]" "[sample_parsed, sample_parsed]" collect "\<lambda>_. None" "[]"]
      sample_line_short
    by (simp add: NewPlayer_def collect_def maxLineSize_def)
qed

end
