(* ===== verification/Go_Format.thy ===== *)
theory Go_Format
  imports Go_Time
begin

text \<open>
  Numbers and instants as text: \<open>fmt\<close>'s and \<open>encoding/json\<close>'s decimal numbers, and the RFC 3339
  form with nanoseconds that \<open>time.Time\<close> is encoded in. Reading either back gives the value written.
\<close>

section \<open>Decimal numbers\<close>

definition digit :: "int \<Rightarrow> char" where "digit n = char_of (nat (48 + n))"

lemma byte_val_char_of: "k < 256 \<Longrightarrow> byte_val (char_of k) = int k"
  using of_nat_of_char [of "char_of k", where 'a = int] by (simp add: byte_val_def)

lemma digit_val_digit: "0 \<le> n \<Longrightarrow> n < 10 \<Longrightarrow> is_digit (digit n) \<and> digit_val (digit n) = n"
  by (simp add: is_digit_def digit_val_def digit_def byte_val_char_of)

function decimal :: "nat \<Rightarrow> bytes" where
  "decimal n = (if n < 10 then [digit (int n)] else decimal (n div 10) @ [digit (int (n mod 10))])"
  by pat_completeness auto
termination by (relation "measure id") auto

declare decimal.simps [simp del]

lemma digits_val_snoc: "digits_val (s @ [c]) = 10 * digits_val s + digit_val c"
  by (simp add: digits_val_def)

lemma decimal_digits: "list_all is_digit (decimal n) \<and> decimal n \<noteq> []"
proof (induction n rule: decimal.induct)
  case (1 n)
  then show ?case using digit_val_digit [of "int n"] digit_val_digit [of "int (n mod 10)"]
    by (simp add: decimal.simps [of n])
qed

lemma digits_val_decimal: "digits_val (decimal n) = int n"
proof (induction n rule: decimal.induct)
  case (1 n)
  show ?case
  proof (cases "n < 10")
    case True
    then show ?thesis using digit_val_digit [of "int n"] by (simp add: decimal.simps [of n] digits_val_def)
  next
    case False
    have "int (n mod 10) < 10" by simp
    then have "digit_val (digit (int (n mod 10))) = int (n mod 10)" using digit_val_digit by force
    then show ?thesis using False 1 by (simp add: decimal.simps [of n] digits_val_snoc) presburger
  qed
qed

text \<open>No leading zero.\<close>

lemma decimal_head: "0 < n \<Longrightarrow> hd (decimal n) \<noteq> CHR ''0''"
proof (induction n rule: decimal.induct)
  case (1 n)
  show ?case
  proof (cases "n < 10")
    case True
    then have "digit_val (digit (int n)) = int n" using digit_val_digit [of "int n"] by simp
    moreover have "digit_val CHR ''0'' = 0" by (simp add: digit_val_def byte_val_def)
    ultimately show ?thesis using True 1(2) by (auto simp: decimal.simps [of n])
  next
    case False
    then show ?thesis using 1 decimal_digits [of "n div 10"] by (simp add: decimal.simps [of n])
  qed
qed

lemma decimal_0: "decimal 0 = ''0''"
  by code_simp

section \<open>The calendar\<close>

text \<open>Year and day of the year of a day number, by cycles of 400, 100, 4 and 1 years.\<close>

definition year_day :: "int \<Rightarrow> int \<times> int" where
  "year_day n =
     (let a = n div 146097; r = n mod 146097;
          c = min 3 (r div 36524); r = r - c * 36524;
          q = r div 1461; r = r mod 1461;
          y = min 3 (r div 365)
      in (400 * a + 100 * c + 4 * q + y + 1, r - y * 365))"

function month_day :: "int \<Rightarrow> int \<Rightarrow> int \<Rightarrow> int \<times> int" where
  "month_day y m d =
     (if 12 \<le> m \<or> d < days_in y m then (m, d + 1) else month_day y (m + 1) (d - days_in y m))"
  by pat_completeness auto
termination by (relation "measure (\<lambda>(y, m, d). nat (12 - m))") auto

declare month_day.simps [simp del]

lemma month_day_sum:
  assumes "month_day y m d = (m', d')" and "1 \<le> m" and "m \<le> 12" and "0 \<le> d"
    and "d < sum_list (map (days_in y) [m..12])"
  shows "1 \<le> m' \<and> m' \<le> 12 \<and> 1 \<le> d' \<and> d' \<le> days_in y m' \<and>
    sum_list (map (days_in y) [1..m' - 1]) + d' - 1 = sum_list (map (days_in y) [1..m - 1]) + d"
  using assms
proof (induction y m d rule: month_day.induct)
  case (1 y m d)
  have up: "[m..12] = m # [m + 1..12]" using 1 by (simp add: upto.simps [of m 12])
  show ?case
  proof (cases "12 \<le> m \<or> d < days_in y m")
    case True
    then have r: "m' = m" "d' = d + 1" using 1(2) by (simp_all add: month_day.simps [of y m d])
    have "d < days_in y m" using True 1 up by (auto simp: upto.simps [of "m + 1" 12])
    then show ?thesis using r 1 by simp
  next
    case False
    have "[1..m + 1 - 1] = [1..m - 1] @ [m]" using 1 by (simp add: upto_rec2)
    moreover have "month_day y (m + 1) (d - days_in y m) = (m', d')"
      using 1(2) False by (simp add: month_day.simps [of y m d])
    ultimately show ?thesis using 1(1) [OF False] 1(3-) False up by simp
  qed
qed


lemma months_of_year: "sum_list (map (days_in y) [1..12]) = (if is_leap y then 366 else 365)"
proof -
  have "[1..12] = [1, 2, 3, 4, 5, 6, 7, 8, 9, 10, 11, 12 :: int]" by (simp add: upto.simps)
  then show ?thesis by (simp add: days_in_def)
qed

definition date_of :: "int \<Rightarrow> int \<times> int \<times> int" where
  "date_of n = (let (y, yd) = year_day n; (mo, d) = month_day y 1 yd in (y, mo, d))"

lemma year_day_correct:
  assumes "year_day n = (y, yd)"
  shows "0 \<le> yd \<and> yd < (if is_leap y then 366 else 365) \<and>
    365 * (y - 1) + (y - 1) div 4 - (y - 1) div 100 + (y - 1) div 400 + yd = n"
proof -
  define a r where "a = n div 146097" and "r = n mod 146097"
  define c where "c = min 3 (r div 36524)"
  define r1 where "r1 = r - c * 36524"
  define q where "q = r1 div 1461"
  define r2 where "r2 = r1 mod 1461"
  define z where "z = min 3 (r2 div 365)"
  have y: "y = 400 * a + 100 * c + 4 * q + z + 1" "yd = r2 - z * 365"
    using assms by (simp_all add: year_day_def Let_def a_def r_def c_def r1_def q_def r2_def z_def)
  have r: "0 \<le> r" "r < 146097" "n = 146097 * a + r" by (simp_all add: a_def r_def)
  have c: "0 \<le> c" "c \<le> 3" "0 \<le> r1" "c < 3 \<longrightarrow> r1 < 36524" "r1 \<le> 36524"
    using r by (auto simp: c_def r1_def min_def)
  have q: "0 \<le> q" "q \<le> 24" "r1 = 1461 * q + r2" "0 \<le> r2" "r2 < 1461" using c by (auto simp: q_def r2_def)
  have z: "0 \<le> z" "z \<le> 3" "z < 3 \<longrightarrow> r2 - z * 365 < 365" "0 \<le> r2 - z * 365" "r2 - z * 365 \<le> 365"
    using q by (auto simp: z_def min_def)
  have d4: "(y - 1) div 4 = 100 * a + 25 * c + q"
    by (rule int_div_pos_eq [where r = z]) (use y z in simp_all)
  have d100: "(y - 1) div 100 = 4 * a + c"
    by (rule int_div_pos_eq [where r = "4 * q + z"]) (use y z q in simp_all)
  have d400: "(y - 1) div 400 = a"
    by (rule int_div_pos_eq [where r = "100 * c + 4 * q + z"]) (use y z q c in simp_all)
  have sum: "365 * (y - 1) + (y - 1) div 4 - (y - 1) div 100 + (y - 1) div 400 + yd = n"
    unfolding d4 d100 d400 y(2) using r(3) q(3) by (simp add: y(1) r1_def)
  have "is_leap y" if "yd = 365"
  proof -
    have "z = 3" "r2 = 1460" using that z q unfolding y(2) by linarith+
    have m4: "y mod 4 = 0"
      by (rule int_mod_pos_eq [where q = "100 * a + 25 * c + q + 1"]) (use y \<open>z = 3\<close> in simp_all)
    show ?thesis
    proof (cases "q = 24")
      case True
      then have "c = 3" using c q \<open>r2 = 1460\<close> by auto
      have "y mod 400 = 0"
        by (rule int_mod_pos_eq [where q = "a + 1"]) (use y True \<open>z = 3\<close> \<open>c = 3\<close> in simp_all)
      with m4 show ?thesis by (simp add: is_leap_def)
    next
      case False
      have "y mod 100 = 4 * (q + 1)"
        by (rule int_mod_pos_eq [where q = "4 * a + c"]) (use y False \<open>z = 3\<close> q in simp_all)
      with m4 q show ?thesis by (simp add: is_leap_def)
    qed
  qed
  then have "yd < (if is_leap y then 366 else 365)" using z(4,5) y(2) by (cases "yd = 365") (simp_all add: less_le)
  then show ?thesis using sum z(4) unfolding y(2) by simp
qed

lemma date_of_correct:
  assumes "date_of n = (y, mo, d)"
  shows "1 \<le> mo \<and> mo \<le> 12 \<and> 1 \<le> d \<and> d \<le> days_in y mo \<and> days_before y mo d = n"
proof -
  obtain yd where yd: "year_day n = (y, yd)" "month_day y 1 yd = (mo, d)"
    using assms by (auto simp: date_of_def split: prod.splits)
  have "0 \<le> yd" "yd < sum_list (map (days_in y) [1..12])"
    and n: "365 * (y - 1) + (y - 1) div 4 - (y - 1) div 100 + (y - 1) div 400 + yd = n"
    using year_day_correct [OF yd(1)] by (simp_all add: months_of_year)
  from month_day_sum [OF yd(2) _ _ this(1,2)] n show ?thesis by (simp add: days_before_def Let_def)
qed

section \<open>RFC 3339 with nanoseconds\<close>

definition pad2 :: "int \<Rightarrow> bytes" where
  "pad2 n = [digit (n div 10 mod 10), digit (n mod 10)]"

definition pad4 :: "int \<Rightarrow> bytes" where
  "pad4 n = pad2 (n div 100) @ pad2 (n mod 100)"

fun pad_digits :: "nat \<Rightarrow> int \<Rightarrow> bytes" where
  "pad_digits 0 n = []"
| "pad_digits (Suc k) n = pad_digits k (n div 10) @ [digit (n mod 10)]"

text \<open>The fraction of a second, without its trailing zeros; nothing if it is zero.\<close>

definition format_frac :: "int \<Rightarrow> bytes" where
  "format_frac ns =
     (if ns = 0 then [] else CHR ''.'' # rev (dropWhile (\<lambda>c. c = CHR ''0'') (rev (pad_digits 9 ns))))"

text \<open>The offset from UTC, in whole minutes.\<close>

definition format_zone :: "int \<Rightarrow> bytes" where
  "format_zone zone =
     (if zone = 0 then ''Z''
      else (if zone < 0 then CHR ''-'' else CHR ''+'') # pad2 (\<bar>zone\<bar> div 60) @ CHR '':'' # pad2 (\<bar>zone\<bar> mod 60))"

definition format_rfc3339 :: "int \<Rightarrow> time \<Rightarrow> bytes option" where
  "format_rfc3339 zone t =
     (let local = t + zone * 60 * second; secs = local div second; ns = local mod second;
          (y, mo, d) = date_of (secs div 86400); s = secs mod 86400
      in if 0 \<le> y \<and> y \<le> 9999 \<and> \<bar>zone\<bar> < 1440
         then Some (pad4 y @ ''-'' @ pad2 mo @ ''-'' @ pad2 d @ ''T'' @ pad2 (s div 3600) @ '':'' @
           pad2 (s div 60 mod 60) @ '':'' @ pad2 (s mod 60) @ format_frac ns @ format_zone zone)
         else None)"

section \<open>Reading it back\<close>

lemma digit_rules [simp]:
  "0 \<le> n \<Longrightarrow> n < 10 \<Longrightarrow> is_digit (digit n)" "0 \<le> n \<Longrightarrow> n < 10 \<Longrightarrow> digit_val (digit n) = n"
  using digit_val_digit by auto

lemma digit_mod [simp]: "is_digit (digit (n mod 10))" "digit_val (digit (n mod 10)) = n mod 10"
  by simp_all

lemma getnum_pad2: "0 \<le> n \<Longrightarrow> n < 100 \<Longrightarrow> getnum fixed (pad2 n @ r) = Some (n, r)"
  by (simp add: getnum_def pad2_def)

lemma get_in_pad2: "0 \<le> n \<Longrightarrow> n < 100 \<Longrightarrow> lo \<le> n \<Longrightarrow> n \<le> hi \<Longrightarrow> get_in fixed lo hi (pad2 n @ r) = Some (n, r)"
  by (simp add: get_in_def getnum_pad2)

lemma two_digits: "0 \<le> n \<Longrightarrow> n < 100 \<Longrightarrow> 10 * (n div 10 mod 10) + n mod 10 = (n :: int)"
  by (simp add: mod_pos_pos_trivial div_int_pos_iff)

lemma pad2_digits: "\<exists>a b. pad2 n = [a, b] \<and> is_digit a \<and> is_digit b"
  by (simp add: pad2_def)

lemma digits_val_pad2:
  assumes "0 \<le> n" and "n < 100"
  shows "digits_val (s @ pad2 n) = 100 * digits_val s + n"
proof -
  have "digits_val (s @ pad2 n) = 100 * digits_val s + (10 * (n div 10 mod 10) + n mod 10)"
    using digits_val_snoc [of "s @ [digit (n div 10 mod 10)]" "digit (n mod 10)"]
      digits_val_snoc [of s "digit (n div 10 mod 10)"] by (simp add: pad2_def)
  then show ?thesis by (simp only: two_digits [OF assms])
qed

lemma get_year_pad4:
  assumes "0 \<le> y" and "y \<le> 9999"
  shows "get_year (pad4 y @ r) = Some (y, r)"
proof -
  have b: "0 \<le> y div 100" "y div 100 < 100" "0 \<le> y mod 100" "y mod 100 < 100" using assms by simp_all
  have "digits_val (pad4 y) = 100 * digits_val (pad2 (y div 100)) + y mod 100"
    unfolding pad4_def by (rule digits_val_pad2 [OF b(3,4)])
  also have "digits_val (pad2 (y div 100)) = y div 100"
    using digits_val_pad2 [OF b(1,2), of "[]"] by (simp add: digits_val_def)
  finally have v: "digits_val (pad4 y) = y" by simp
  obtain a b c d where p: "pad4 y = [a, b, c, d]" "is_digit a" "is_digit b" "is_digit c" "is_digit d"
    using pad2_digits [of "y div 100"] pad2_digits [of "y mod 100"] unfolding pad4_def by auto
  then show ?thesis using v by (simp add: get_year_def p(1))
qed

lemma length_pad_digits [simp]: "length (pad_digits k n) = k"
  by (induction k arbitrary: n) simp_all

lemma pad_digits_all: "list_all is_digit (pad_digits k n)"
  by (induction k arbitrary: n) simp_all

lemma digits_val_pad: "0 \<le> n \<Longrightarrow> n < 10 ^ k \<Longrightarrow> digits_val (pad_digits k n) = n"
proof (induction k arbitrary: n)
  case (Suc k)
  have "digits_val (pad_digits k (n div 10)) = n div 10" using Suc by (intro Suc.IH) simp_all
  then show ?case by (simp add: digits_val_snoc)
qed (simp add: digits_val_def)

text \<open>Dropping trailing zeros leaves the value of a fraction unchanged.\<close>

lemma strip_zeros:
  "digits_val (rev (dropWhile (\<lambda>c. c = CHR ''0'') s)) * 10 ^ (length s - length (dropWhile (\<lambda>c. c = CHR ''0'') s))
     = digits_val (rev s)"
proof (induction s)
  case (Cons c s)
  have "length (dropWhile (\<lambda>c. c = CHR ''0'') s) \<le> length s" by (rule length_dropWhile_le)
  moreover have "digit_val CHR ''0'' = 0" by (simp add: digit_val_def byte_val_def)
  ultimately show ?case using Cons by (auto simp: digits_val_snoc Suc_diff_le algebra_simps)
qed simp

lemma get_frac_format:
  assumes "0 \<le> ns" and "ns < 10 ^ 9" and "\<And>c z. r = c # z \<Longrightarrow> \<not> is_digit c \<and> c \<noteq> CHR ''.'' \<and> c \<noteq> CHR '',''"
  shows "get_frac (format_frac ns @ r) = (ns, r)"
proof (cases "ns = 0")
  case True
  then show ?thesis using assms(3) by (cases r) (auto simp: format_frac_def get_frac_def split: list.split)
next
  case False
  define ds where "ds = rev (dropWhile (\<lambda>c. c = CHR ''0'') (rev (pad_digits 9 ns)))"
  have v: "digits_val ds * 10 ^ (9 - length ds) = ns"
    using strip_zeros [of "rev (pad_digits 9 ns)"] digits_val_pad [of ns 9] assms(1,2) by (simp add: ds_def)
  have len: "length ds \<le> 9"
    using length_dropWhile_le [of "\<lambda>c. c = CHR ''0''" "rev (pad_digits 9 ns)"] by (simp add: ds_def)
  have all: "list_all is_digit ds"
    using pad_digits_all [of 9 ns] set_dropWhileD [of _ "\<lambda>c. c = CHR ''0''" "rev (pad_digits 9 ns)"]
    by (auto simp: ds_def list_all_iff)
  have "ds \<noteq> []" using v False by (auto simp: digits_val_def)
  then obtain c ds' where c: "ds = c # ds'" by (cases ds) auto
  have "takeWhile is_digit (ds @ r) = ds" "dropWhile is_digit (ds @ r) = r"
    using all assms(3) by (cases r; simp add: takeWhile_append dropWhile_append list_all_iff; fail)+
  then show ?thesis using False v len all c
    by (simp add: format_frac_def ds_def [symmetric] get_frac_def Let_def del: takeWhile.simps dropWhile.simps)
qed

lemma minutes_split:
  assumes "0 \<le> n" and "n < 60 * k"
  shows "0 \<le> n div 60 \<and> n div 60 < k \<and> 0 \<le> n mod 60 \<and> n mod 60 < 60 \<and> n div 60 * 60 + n mod 60 = (n :: int)"
proof -
  have "n div 60 * 60 + n mod 60 = n" "0 \<le> n mod 60" "n mod 60 < 60" by simp_all
  then show ?thesis using assms by linarith
qed

lemma get_zone_format:
  assumes "\<bar>zone\<bar> < 1440"
  shows "get_zone (format_zone zone) = Some (zone * 60, [])"
proof (cases "zone = 0")
  case False
  define h m where "h = \<bar>zone\<bar> div 60" and "m = \<bar>zone\<bar> mod 60"
  have hm: "0 \<le> h" "h \<le> 23" "0 \<le> m" "m < 60" "(h * 60 + m) = \<bar>zone\<bar>"
    using minutes_split [of "\<bar>zone\<bar>" 24] assms unfolding h_def m_def by linarith+
  define c where "c = (if zone < 0 then CHR ''-'' else CHR ''+'')"
  define r where "r = pad2 h @ CHR '':'' # pad2 m"
  have f: "format_zone zone = c # r" using False by (simp add: format_zone_def c_def r_def h_def m_def)
  have parts: "take 2 r = pad2 h" "drop 3 r = pad2 m" "take 2 (pad2 m) = pad2 m" "r ! 2 = CHR '':''" "length r = 5"
      "drop 6 (c # r) = []" for c
    using pad2_digits [of h] pad2_digits [of m] by (auto simp: r_def numeral_eq_Suc)
  have "get_in True 0 24 (pad2 h) = Some (h, [])" "get_in True 0 60 (pad2 m) = Some (m, [])"
    using get_in_pad2 [of h 0 24 True "[]"] get_in_pad2 [of m 0 60 True "[]"] hm(1-4) by auto
  then have "get_zone (c # r) = (if c = CHR ''+'' then Some ((h * 60 + m) * 60, [])
      else if c = CHR ''-'' then Some (- ((h * 60 + m) * 60), []) else None)"
    using parts by (simp add: get_zone_def c_def del: drop_Suc_Cons)
  also have "\<dots> = Some (zone * 60, [])"
    unfolding hm(5) using False by (simp add: c_def)
  finally show ?thesis unfolding f .
qed (simp add: format_zone_def get_zone_def)

lemma parse_format:
  assumes "format_rfc3339 zone t = Some s"
  shows "parse_rfc3339 s = Some t"
proof -
  define local where "local = t + zone * 60 * second"
  define secs where "secs = local div second"
  define ns where "ns = local mod second"
  define sd where "sd = secs mod 86400"
  define hh mi se where "hh = sd div 3600" and "mi = sd div 60 mod 60" and "se = sd mod 60"
  obtain y mo d where dt: "date_of (secs div 86400) = (y, mo, d)" by (cases "date_of (secs div 86400)") auto
  have ok: "0 \<le> y" "y \<le> 9999" "\<bar>zone\<bar> < 1440" and
    s: "s = pad4 y @ ''-'' @ pad2 mo @ ''-'' @ pad2 d @ ''T'' @ pad2 (hh) @ '':'' @
           pad2 (mi) @ '':'' @ pad2 (se) @ format_frac ns @ format_zone zone"
    using assms dt
    by (auto simp: format_rfc3339_def Let_def local_def [symmetric] secs_def [symmetric] ns_def [symmetric]
        sd_def [symmetric] hh_def mi_def se_def split: if_splits)
  note date = date_of_correct [OF dt]
  have d31: "d \<le> 31" using date by (auto simp: days_in_def split: if_splits)
  have sd: "0 \<le> sd" "sd < 86400" by (simp_all add: sd_def)
  have "hh = sd div 60 div 60" by (simp add: hh_def zdiv_zmult2_eq [symmetric])
  moreover have "sd div 60 < 60 * 24" "0 \<le> sd div 60" "0 \<le> se" "se < 60" "sd div 60 * 60 + se = sd"
    using minutes_split [of sd 1440] sd by (simp_all add: se_def)
  ultimately have hms: "(hh * 60 + mi) * 60 + se = sd"
    and range: "0 \<le> hh" "hh \<le> 23" "0 \<le> mi" "mi \<le> 59" "0 \<le> se" "se \<le> 59"
    using minutes_split [of "sd div 60" 24] by (simp_all add: mi_def)
  have ns: "0 \<le> ns" "ns < 10 ^ 9" by (simp_all add: ns_def second_def)
  have zone_head: "\<not> is_digit c \<and> c \<noteq> CHR ''.'' \<and> c \<noteq> CHR '',''" if "format_zone zone = c # z" for c z
    using that by (auto simp: format_zone_def is_digit_def byte_val_def split: if_splits)
  have "unix_ns y mo d (hh) (mi) (se) ns (zone * 60) = t"
  proof -
    have "unix_ns y mo d (hh) (mi) (se) ns (zone * 60)
        = (days_before y mo d * 86400 + ((hh * 60 + mi) * 60 + se) - zone * 60) * second + ns"
      by (simp add: unix_ns_def algebra_simps)
    also have "\<dots> = (secs - zone * 60) * second + ns"
      unfolding hms using date by (simp add: sd_def)
    also have "\<dots> = t"
    proof -
      have "secs * second + ns = local" by (simp add: secs_def ns_def)
      then show ?thesis unfolding local_def by (simp only: left_diff_distrib)
    qed
    finally show ?thesis .
  qed
  moreover have "get_in False 0 23 (pad2 (hh) @ r) = Some (hh, r)"
    "get_in True 0 59 (pad2 (mi) @ r) = Some (mi, r)"
    "get_in True 0 59 (pad2 (se) @ r) = Some (se, r)"
    "get_in True 1 12 (pad2 mo @ r) = Some (mo, r)" "getnum True (pad2 d @ r) = Some (d, r)" for r
    using range date d31 by (simp_all add: get_in_pad2 getnum_pad2)
  ultimately show ?thesis
    using get_frac_format [OF ns zone_head] get_zone_format [OF ok(3)] date
    by (simp add: parse_rfc3339_def s get_year_pad4 [OF ok(1,2)] skip_def)
qed

end
