(* ===== verification/Go_Marshal.thy ===== *)
theory Go_Marshal
  imports Go_Json Go_Format
begin

text \<open>
  The part of \<open>json.Marshal\<close> the program uses: strings with the package's escapes, numbers, instants,
  and the compact form it gives a \<open>json.RawMessage\<close>. Each is shown to be read back by the decoder
  of \<open>Go_Json\<close>, whatever follows it in the input.
\<close>

section \<open>UTF-8\<close>

lemma byte_of_val: "0 \<le> n \<Longrightarrow> n < 256 \<Longrightarrow> byte_val (byte_of n) = n"
  using byte_val_char_of [of "nat n"] by (simp add: byte_of_def)

lemma byte_val_bounds: "0 \<le> byte_val c \<and> byte_val c < 256"
  using nat_of_char_less_256 [of c] of_nat_of_char [of c, where 'a = int] unfolding byte_val_def by linarith

lemma byte_of_byte_val [simp]: "byte_of (byte_val c) = c"
  using of_nat_of_char [of c, where 'a = int] by (simp add: byte_of_def byte_val_def)

text \<open>Bytes that are not valid UTF-8 are replaced one by one.\<close>

function to_valid :: "bytes \<Rightarrow> bytes" where
  "to_valid [] = []"
| "to_valid (c # r) =
     (if byte_val c < 128 then c # to_valid r
      else if 2 \<le> utf8_len (c # r)
      then take (utf8_len (c # r)) (c # r) @ to_valid (drop (utf8_len (c # r) - 1) r)
      else replacement @ to_valid r)"
  by pat_completeness auto
termination by (relation "measure length") auto

declare to_valid.simps(2) [simp del] unquote.simps(2) [simp del]

text \<open>A well-formed sequence starts with a lead byte and goes on with continuation bytes.\<close>

definition is_cont :: "char \<Rightarrow> bool" where "is_cont c = (128 \<le> byte_val c \<and> byte_val c \<le> 191)"

lemma utf8_len_eq:
  "utf8_len (c # r) = (case takeWhile is_cont (take 3 r) of
       [] \<Rightarrow> 0
     | a # q \<Rightarrow>
         if 194 \<le> byte_val c \<and> byte_val c \<le> 223 then 2
         else if 224 \<le> byte_val c \<and> byte_val c \<le> 239 \<and> q \<noteq> [] \<and> (byte_val c = 224 \<longrightarrow> 160 \<le> byte_val a)
           \<and> (byte_val c = 237 \<longrightarrow> byte_val a \<le> 159) then 3
         else if 240 \<le> byte_val c \<and> byte_val c \<le> 244 \<and> length q = 2 \<and> (byte_val c = 240 \<longrightarrow> 144 \<le> byte_val a)
           \<and> (byte_val c = 244 \<longrightarrow> byte_val a \<le> 143) then 4
         else 0)"
proof -
  consider "r = []" | a where "r = [a]" | a b where "r = [a, b]" | a b d r' where "r = a # b # d # r'"
    by (metis list.exhaust)
  then show ?thesis
  proof cases
    case 2
    then show ?thesis by (simp add: utf8_len_def Let_def is_cont_def [symmetric])
  next
    case 3
    then show ?thesis by (simp add: utf8_len_def Let_def is_cont_def [symmetric] numeral_eq_Suc)
  next
    case 4
    have "take 3 r = [a, b, d]" by (simp add: 4 numeral_eq_Suc)
    moreover have "(c # r) ! 1 = a" "(c # r) ! 2 = b" "(c # r) ! 3 = d"
      by (simp_all add: 4 numeral_eq_Suc)
    moreover have "1 < length (c # r)" "2 < length (c # r)" "3 < length (c # r)" by (simp_all add: 4)
    ultimately show ?thesis by (simp add: utf8_len_def Let_def is_cont_def [symmetric])
  qed (simp add: utf8_len_def)
qed

text \<open>So it depends on the lead byte and the continuation bytes after it, up to three.\<close>

lemma utf8_len_cong:
  "takeWhile is_cont (take 3 r) = takeWhile is_cont (take 3 r') \<Longrightarrow> utf8_len (c # r) = utf8_len (c # r')"
  by (simp only: utf8_len_eq)

lemma utf8_len_shape:
  assumes "2 \<le> utf8_len (c # r)"
  shows "utf8_len (c # r) \<le> length (c # r)" and "utf8_len (c # r) \<le> 4"
    and "list_all is_cont (take (utf8_len (c # r) - 1) r)" and "192 \<le> byte_val c"
proof -
  let ?k = "takeWhile is_cont (take 3 r)"
  have n: "utf8_len (c # r) \<le> Suc (length ?k) \<and> utf8_len (c # r) \<le> 4 \<and> 192 \<le> byte_val c"
    using assms by (auto simp: utf8_len_eq Suc_le_eq split: list.splits if_splits)
  have le: "length ?k \<le> length r" using length_takeWhile_le [of is_cont "take 3 r"] by simp
  obtain z where z: "r = ?k @ z" by (metis append_assoc append_take_drop_id takeWhile_dropWhile_id)
  have "take (utf8_len (c # r) - 1) r = take (utf8_len (c # r) - 1) ?k"
    using n by (subst (2) z) simp
  then have "list_all is_cont (take (utf8_len (c # r) - 1) r)"
    using set_takeWhileD [of _ is_cont "take 3 r"] by (auto simp: list_all_iff dest!: in_set_takeD)
  then show "utf8_len (c # r) \<le> length (c # r)" "utf8_len (c # r) \<le> 4"
    "list_all is_cont (take (utf8_len (c # r) - 1) r)" "192 \<le> byte_val c" using n le by auto
qed

lemma to_valid_ascii: "byte_val c < 128 \<Longrightarrow> to_valid (c # r) = c # to_valid r"
  by (simp add: to_valid.simps)

lemma is_cont_high: "is_cont c \<Longrightarrow> 128 \<le> byte_val c"
  by (simp add: is_cont_def)

text \<open>A well-formed sequence at the front stays one, whatever follows it.\<close>

lemma utf8_len_take:
  assumes "2 \<le> utf8_len (c # r)"
  shows "utf8_len (c # take (utf8_len (c # r) - 1) r @ z) = utf8_len (c # r)"
proof -
  let ?k = "takeWhile is_cont (take 3 r)"
  obtain k where k: "utf8_len (c # r) = Suc k" "1 \<le> k" "k \<le> 3" using assms utf8_len_shape(2) [OF assms] by (cases "utf8_len (c # r)") auto
  have le: "k \<le> length ?k" using assms k(1)
    by (auto simp: utf8_len_eq Suc_le_eq split: list.splits if_splits)
  obtain y where y: "r = ?k @ y" by (metis append_assoc append_take_drop_id takeWhile_dropWhile_id)
  have tk: "take k r = take k ?k" using le by (subst y) simp
  have all: "\<forall>x\<in>set (take k ?k). is_cont x" using set_takeWhileD in_set_takeD by metis
  obtain w where w: "takeWhile is_cont (take 3 (take k r @ z)) = take k ?k @ w"
    using k(3) all le unfolding tk by (simp add: min_def takeWhile_append2)
  obtain a q where aq: "?k = a # q" using le k(2) by (cases ?k) auto
  have lw: "length w \<le> 3 - k"
  proof -
    have "length (takeWhile is_cont (take 3 (take k r @ z))) \<le> 3" using length_takeWhile_le by (metis length_take min.bounded_iff)
    then show ?thesis using w le by simp
  qed
  note e = k(1) [unfolded utf8_len_eq [of c r] aq list.case]
  have tq: "take k (a # q) @ w = a # (take (k - 1) q @ w)" using k(2) by (cases k) auto
  have "utf8_len (c # take k r @ z) = Suc k"
    unfolding utf8_len_eq [of c "take k r @ z"] w aq tq list.case
    using e k(2,3) lw le aq by (auto split: if_splits)
  then show ?thesis by (simp add: k(1))
qed

lemma to_valid_multi:
  assumes "2 \<le> utf8_len (c # r)"
  shows "to_valid (c # r) = c # take (utf8_len (c # r) - 1) r @ to_valid (drop (utf8_len (c # r) - 1) r)"
    and "to_valid (c # take (utf8_len (c # r) - 1) r @ z) = c # take (utf8_len (c # r) - 1) r @ to_valid z"
    and "unquote (c # take (utf8_len (c # r) - 1) r @ z) = c # take (utf8_len (c # r) - 1) r @ unquote z"
proof -
  note s = utf8_len_shape [OF assms]
  obtain k where k: "utf8_len (c # r) = Suc k" using assms by (cases "utf8_len (c # r)") auto
  have high: "\<not> byte_val c < 128" "c \<noteq> backslash" using s(4) by (auto simp: byte_val_def)
  have len: "length (take k r) = k" using s(1) k by simp
  have u: "utf8_len (c # take k r @ z) = Suc k" using utf8_len_take [OF assms, of z] k by simp
  show "to_valid (c # r) = c # take (utf8_len (c # r) - 1) r @ to_valid (drop (utf8_len (c # r) - 1) r)"
    using assms high(1) k by (simp add: to_valid.simps)
  show "to_valid (c # take (utf8_len (c # r) - 1) r @ z) = c # take (utf8_len (c # r) - 1) r @ to_valid z"
    using assms high(1) len unfolding k by (simp add: to_valid.simps u k)
  show "unquote (c # take (utf8_len (c # r) - 1) r @ z) = c # take (utf8_len (c # r) - 1) r @ unquote z"
    using assms high len unfolding k by (simp add: unquote.simps u k)
qed

section \<open>Strings\<close>

definition hex_digit :: "int \<Rightarrow> char" where
  "hex_digit n = (if n < 10 then digit n else byte_of (87 + n))"

definition u_escape :: "int \<Rightarrow> bytes" where
  "u_escape n = [backslash, CHR ''u'', hex_digit (n div 4096 mod 16), hex_digit (n div 256 mod 16),
     hex_digit (n div 16 mod 16), hex_digit (n mod 16)]"

definition html_special :: "char \<Rightarrow> bool" where "html_special c = (c \<in> set ''<>&'')"

definition escape_byte :: "char \<Rightarrow> bytes" where
  "escape_byte c =
     (if c = dquote \<or> c = backslash then [backslash, c]
      else if byte_val c = 8 then [backslash, CHR ''b'']
      else if byte_val c = 12 then [backslash, CHR ''f'']
      else if byte_val c = 10 then [backslash, CHR ''n'']
      else if byte_val c = 13 then [backslash, CHR ''r'']
      else if byte_val c = 9 then [backslash, CHR ''t'']
      else if byte_val c < 32 \<or> html_special c then u_escape (byte_val c)
      else [c])"

text \<open>The line and paragraph separators, U+2028 and U+2029, are escaped too.\<close>

definition separator :: "bytes \<Rightarrow> bool" where
  "separator s = (take 3 s \<in> {[CHR 0xE2, CHR 0x80, CHR 0xA8], [CHR 0xE2, CHR 0x80, CHR 0xA9]})"

definition separator_escape :: "bytes \<Rightarrow> bytes" where
  "separator_escape s = u_escape (8192 + byte_val (s ! 2) - 128)"

function escape_string :: "bytes \<Rightarrow> bytes" where
  "escape_string [] = []"
| "escape_string (c # r) =
     (if byte_val c < 128 then escape_byte c @ escape_string r
      else if 2 \<le> utf8_len (c # r)
      then (if separator (c # r) then separator_escape (c # r) else take (utf8_len (c # r)) (c # r))
           @ escape_string (drop (utf8_len (c # r) - 1) r)
      else u_escape 65533 @ escape_string r)"
  by pat_completeness auto
termination by (relation "measure length") auto

declare escape_string.simps(2) [simp del]

definition marshal_string :: "bytes \<Rightarrow> bytes" where
  "marshal_string s = dquote # escape_string s @ [dquote]"

text \<open>Four hexadecimal digits are read back as the number.\<close>

lemma hex_digit_val: "0 \<le> n \<Longrightarrow> n < 16 \<Longrightarrow> is_hex (hex_digit n) \<and> hex_val (hex_digit n) = n"
  using digit_val_digit [of n] byte_of_val [of "87 + n"]
  by (auto simp: hex_digit_def is_hex_def hex_val_def is_digit_def)

lemma hex_digit_mod [simp]: "is_hex (hex_digit (n mod 16))" "hex_val (hex_digit (n mod 16)) = n mod 16"
  using hex_digit_val [of "n mod 16"] by simp_all

lemma hex4_split: "0 \<le> n \<Longrightarrow> n < 65536 \<Longrightarrow>
  16 * (16 * (16 * (n div 4096 mod 16) + n div 256 mod 16) + n div 16 mod 16) + n mod 16 = (n :: int)"
proof -
  assume n: "0 \<le> n" "n < 65536"
  have "n div 256 = n div 16 div 16" "n div 4096 = n div 16 div 16 div 16" by (simp_all add: zdiv_zmult2_eq [symmetric])
  moreover have "n div 16 div 16 div 16 mod 16 = n div 16 div 16 div 16" using n by (simp add: zdiv_zmult2_eq [symmetric])
  ultimately show ?thesis by simp
qed

lemma hex4_four: "hex4 (a # b # c # d # z) = 16 * (16 * (16 * hex_val a + hex_val b) + hex_val c) + hex_val d"
  by (simp add: hex4_def)

lemma hex4_u_escape:
  assumes "0 \<le> n" and "n < 65536"
  shows "hex4 (hex_digit (n div 4096 mod 16) # hex_digit (n div 256 mod 16) # hex_digit (n div 16 mod 16) # hex_digit (n mod 16) # z) = n"
  by (simp only: hex4_four hex_digit_mod hex4_split [OF assms])

lemma unquote_u_escape:
  assumes "0 \<le> n" and "n < 65536" and "n < 55296 \<or> 57343 < n"
  shows "unquote (u_escape n @ z) = utf8_encode n @ unquote z"
  using assms(3) hex4_u_escape [OF assms(1,2)]
  by (auto simp: u_escape_def unquote.simps Let_def)

lemma unquote_escape: "e \<noteq> CHR ''u'' \<Longrightarrow> unquote (backslash # e # z) = escape_val e # unquote z"
  by (simp add: unquote.simps)

lemma unquote_ascii: "byte_val c < 128 \<Longrightarrow> c \<noteq> backslash \<Longrightarrow> unquote (c # z) = c # unquote z"
  by (simp add: unquote.simps)

lemma byte_val_eq_iff: "byte_val c = byte_val d \<longleftrightarrow> c = d"
  by (simp add: byte_val_def)

lemma control_chars:
  "byte_val c = 8 \<longleftrightarrow> c = CHR 0x08" "byte_val c = 12 \<longleftrightarrow> c = CHR 0x0C" "byte_val c = 10 \<longleftrightarrow> c = CHR 0x0A"
  "byte_val c = 13 \<longleftrightarrow> c = CHR 0x0D" "byte_val c = 9 \<longleftrightarrow> c = CHR 0x09"
  using byte_val_eq_iff [of c "CHR 0x08"] byte_val_eq_iff [of c "CHR 0x0C"] byte_val_eq_iff [of c "CHR 0x0A"]
    byte_val_eq_iff [of c "CHR 0x0D"] byte_val_eq_iff [of c "CHR 0x09"]
  by (simp_all add: byte_val_def)

lemma unquote_escape_byte:
  assumes "byte_val c < 128"
  shows "unquote (escape_byte c @ z) = c # unquote z"
proof -
  have "unquote (u_escape (byte_val c) @ z) = c # unquote z"
    using unquote_u_escape [of "byte_val c" z] assms byte_val_bounds [of c] by (simp add: utf8_encode_def)
  then show ?thesis using assms
    by (auto simp: escape_byte_def control_chars unquote_escape escape_val_def unquote_ascii)
qed

lemma separatorE:
  assumes "separator s"
  obtains d r where "s = CHR 0xE2 # CHR 0x80 # d # r" "d = CHR 0xA8 \<or> d = CHR 0xA9"
proof -
  have "take 3 s = [CHR 0xE2, CHR 0x80, CHR 0xA8] \<or> take 3 s = [CHR 0xE2, CHR 0x80, CHR 0xA9]"
    using assms by (simp add: separator_def)
  moreover have "s = take 3 s @ drop 3 s" by simp
  ultimately have "s = CHR 0xE2 # CHR 0x80 # CHR 0xA8 # drop 3 s \<or> s = CHR 0xE2 # CHR 0x80 # CHR 0xA9 # drop 3 s"
    by (metis append_Cons append_Nil)
  then show thesis using that by blast
qed

lemma separator_len: "separator (c # r) \<Longrightarrow> utf8_len (c # r) = 3"
  by (erule separatorE) (auto simp: utf8_len_eq is_cont_def byte_val_def numeral_eq_Suc)

lemma unquote_separator:
  assumes "separator s"
  shows "unquote (separator_escape s @ z) = take 3 s @ unquote z"
proof -
  obtain d r where s: "s = CHR 0xE2 # CHR 0x80 # d # r" "d = CHR 0xA8 \<or> d = CHR 0xA9"
    using assms by (rule separatorE)
  have "utf8_encode 8232 = [CHR 0xE2, CHR 0x80, CHR 0xA8]" "utf8_encode 8233 = [CHR 0xE2, CHR 0x80, CHR 0xA9]"
    by code_simp+
  with s show ?thesis
    using unquote_u_escape [of 8232 z] unquote_u_escape [of 8233 z]
    by (auto simp: separator_escape_def byte_val_def numeral_eq_Suc)
qed

lemma unquote_escape_string: "unquote (escape_string s) = to_valid s"
proof (induction s rule: escape_string.induct)
  case (2 c r)
  consider "byte_val c < 128" | (sep) "\<not> byte_val c < 128" "2 \<le> utf8_len (c # r)" "separator (c # r)"
    | (multi) "\<not> byte_val c < 128" "2 \<le> utf8_len (c # r)" "\<not> separator (c # r)"
    | (bad) "\<not> byte_val c < 128" "\<not> 2 \<le> utf8_len (c # r)" by blast
  then show ?case
  proof cases
    case 1
    then show ?thesis using 2(1) by (simp add: escape_string.simps unquote_escape_byte to_valid_ascii)
  next
    case sep
    have t: "take 3 (c # r) = c # take 2 r" by (simp add: numeral_eq_Suc)
    show ?thesis using sep 2(2) to_valid_multi(1) [OF sep(2)]
      by (simp add: escape_string.simps unquote_separator separator_len t numeral_eq_Suc)
  next
    case multi
    obtain k where k: "utf8_len (c # r) = Suc k" using multi(2) by (cases "utf8_len (c # r)") auto
    show ?thesis
      using multi 2(2) to_valid_multi(1,3) [OF multi(2)] by (simp add: escape_string.simps k)
  next
    case bad
    then show ?thesis using 2(3) unquote_u_escape [of 65533]
      by (simp add: escape_string.simps to_valid.simps replacement_def)
  qed
qed simp

text \<open>Scanning the escaped text: it ends where it was closed.\<close>

lemma scan_string_u_escape:
  "scan_string (u_escape n @ z) = map_option (\<lambda>(t, q). (u_escape n @ t, q)) (scan_string z)"
  by (simp add: u_escape_def)

lemma scan_string_plain:
  "c \<noteq> dquote \<Longrightarrow> c \<noteq> backslash \<Longrightarrow> 32 \<le> byte_val c \<Longrightarrow>
     scan_string (c # z) = map_option (\<lambda>(t, q). (c # t, q)) (scan_string z)"
  by simp

lemma scan_string_high:
  "list_all (\<lambda>c. 128 \<le> byte_val c) x \<Longrightarrow>
     scan_string (x @ z) = map_option (\<lambda>(t, q). (x @ t, q)) (scan_string z)"
proof (induction x)
  case (Cons c x)
  have "c \<noteq> dquote" "c \<noteq> backslash" "32 \<le> byte_val c" using Cons(2) by (auto simp: byte_val_def)
  then show ?case using Cons by (simp add: scan_string_plain option.map_comp comp_def case_prod_unfold del: scan_string.simps)
qed (simp add: option.map_id [unfolded id_def] split_def)

lemma scan_string_escape_byte:
  assumes "byte_val c < 128"
  shows "scan_string (escape_byte c @ z) = map_option (\<lambda>(t, q). (escape_byte c @ t, q)) (scan_string z)"
  using assms by (auto simp: escape_byte_def scan_string_u_escape simp del: scan_string.simps(2) split: if_splits)
    (simp_all add: byte_val_def)

lemma scan_string_escape_string:
  "scan_string (escape_string s @ z) = map_option (\<lambda>(t, q). (escape_string s @ t, q)) (scan_string z)"
proof (induction s rule: escape_string.induct)
  case (2 c r)
  have comp: "map_option (\<lambda>(t, q). (x @ t, q)) (map_option (\<lambda>(t, q). (y @ t, q)) o') =
      map_option (\<lambda>(t, q). ((x @ y) @ t, q)) o'" for x y and o' :: "(bytes \<times> bytes) option"
    by (simp add: option.map_comp comp_def case_prod_unfold)
  have high: "list_all (\<lambda>c. 128 \<le> byte_val c) (take (utf8_len (c # r)) (c # r))" if "2 \<le> utf8_len (c # r)"
  proof -
    have "utf8_len (c # r) \<noteq> 0" using that by simp
    then obtain k where k: "utf8_len (c # r) = Suc k" using not0_implies_Suc by blast
    show ?thesis using utf8_len_shape(3,4) [OF that] by (auto simp: k list_all_iff is_cont_def)
  qed
  show ?case using 2
    by (auto simp: escape_string.simps scan_string_escape_byte scan_string_u_escape separator_escape_def
        scan_string_high [OF high] comp simp del: scan_string.simps take_Suc_Cons)
qed (simp add: option.map_id [unfolded id_def] split_def)

lemma scan_marshal_string: "scan_string (escape_string s @ dquote # z) = Some (escape_string s, z)"
  by (simp add: scan_string_escape_string)

section \<open>Decoded strings are valid\<close>

lemma cont_byte: "0 \<le> n \<Longrightarrow> n < 64 \<Longrightarrow> is_cont (byte_of (128 + n))"
  by (simp add: is_cont_def byte_of_val)

lemma utf8_len_four:
  assumes "is_cont a" "is_cont b" "is_cont d" "240 \<le> byte_val c" "byte_val c \<le> 244"
    "byte_val c = 240 \<longrightarrow> 144 \<le> byte_val a" "byte_val c = 244 \<longrightarrow> byte_val a \<le> 143"
  shows "utf8_len (c # a # b # d # z) = 4"
  using assms by (auto simp: utf8_len_eq numeral_eq_Suc)

lemma to_valid_utf8_encode:
  assumes "0 \<le> n" and "n < 1114112" and "n < 55296 \<or> 57343 < n"
  shows "to_valid (utf8_encode n @ z) = utf8_encode n @ to_valid z"
proof -
  consider "n < 128" | "128 \<le> n" "n < 2048" | "2048 \<le> n" "n < 65536" | "65536 \<le> n" by linarith
  then show ?thesis
  proof cases
    case 1
    then show ?thesis using assms by (simp add: utf8_encode_def to_valid_ascii byte_of_val)
  next
    case 2
    let ?c = "byte_of (192 + n div 64)" and ?a = "byte_of (128 + n mod 64)"
    have "byte_val ?c = 192 + n div 64" using 2 by (intro byte_of_val) linarith+
    moreover have "is_cont ?a" by (simp add: cont_byte)
    moreover have "2 \<le> n div 64" "n div 64 \<le> 31" using 2 by linarith+
    ultimately have "utf8_len (?c # ?a # z) = 2" by (simp add: utf8_len_eq numeral_eq_Suc)
    then show ?thesis using 2 to_valid_multi(1) [of ?c "?a # z"] by (simp add: utf8_encode_def)
  next
    case 3
    let ?c = "byte_of (224 + n div 4096)" and ?a = "byte_of (128 + n div 64 mod 64)" and ?b = "byte_of (128 + n mod 64)"
    have c: "byte_val ?c = 224 + n div 4096" "n div 4096 \<le> 15" "0 \<le> n div 4096" using 3 byte_of_val [of "224 + n div 4096"] by linarith+
    have a: "byte_val ?a = 128 + n div 64 mod 64" by (rule byte_of_val) simp_all
    have e: "n div 64 = 64 * (n div 4096) + n div 64 mod 64"
      using div_mult_mod_eq [of "n div 64" 64] by (simp add: zdiv_zmult2_eq [symmetric])
    have "160 \<le> byte_val ?a" if "n div 4096 = 0" using e that 3(1) unfolding a by linarith
    moreover have "byte_val ?a \<le> 159" if "n div 4096 = 13"
    proof -
      have "n < 55296" using that assms(3) by linarith
      then show ?thesis using e that unfolding a by linarith
    qed
    moreover have "is_cont ?a" "is_cont ?b" by (simp_all add: cont_byte)
    ultimately have "utf8_len (?c # ?a # ?b # z) = 3" using c
      by (auto simp: utf8_len_eq numeral_eq_Suc)
    then show ?thesis using 3 to_valid_multi(1) [of ?c "?a # ?b # z"] by (simp add: utf8_encode_def numeral_eq_Suc)
  next
    case 4
    let ?c = "byte_of (240 + n div 262144)" and ?a = "byte_of (128 + n div 4096 mod 64)" and
      ?b = "byte_of (128 + n div 64 mod 64)" and ?d = "byte_of (128 + n mod 64)"
    have c: "byte_val ?c = 240 + n div 262144" "n div 262144 \<le> 4" "0 \<le> n div 262144"
      using 4 assms(2) byte_of_val [of "240 + n div 262144"] by linarith+
    have a: "byte_val ?a = 128 + n div 4096 mod 64" by (rule byte_of_val) simp_all
    have e: "n div 4096 = 64 * (n div 262144) + n div 4096 mod 64"
      using div_mult_mod_eq [of "n div 4096" 64] by (simp add: zdiv_zmult2_eq [symmetric])
    have lo: "byte_val ?c = 240 \<longrightarrow> 144 \<le> byte_val ?a" using e c(1) 4(1) unfolding a by linarith
    have hi: "byte_val ?c = 244 \<longrightarrow> byte_val ?a \<le> 143" using e c(1) assms(2) unfolding a by linarith
    have cont: "is_cont ?a" "is_cont ?b" "is_cont ?d" by (rule cont_byte, simp, simp)+
    have range: "240 \<le> byte_val ?c" "byte_val ?c \<le> 244" using c by linarith+
    have parts: "take 3 (x # y # w # z) = [x, y, w]" "drop 3 (x # y # w # z) = z" for x y w :: char
      by (simp_all add: numeral_eq_Suc)
    have "to_valid (?c # ?a # ?b # ?d # z) = [?c, ?a, ?b, ?d] @ to_valid z"
      using to_valid_multi(1) [of ?c "?a # ?b # ?d # z", unfolded utf8_len_four [OF cont range lo hi, of z]]
      by (simp add: parts)
    moreover have "utf8_encode n = [?c, ?a, ?b, ?d]" using 4 by (simp add: utf8_encode_def)
    ultimately show ?thesis by simp
  qed
qed

text \<open>The text between the quotes of a JSON string.\<close>

inductive str_text :: "bytes \<Rightarrow> bool" where
  Nil: "str_text []"
| plain: "c \<noteq> dquote \<Longrightarrow> c \<noteq> backslash \<Longrightarrow> 32 \<le> byte_val c \<Longrightarrow> str_text r \<Longrightarrow> str_text (c # r)"
| esc: "e \<in> set ''bfnrt/'' \<or> e = backslash \<or> e = dquote \<Longrightarrow> str_text r \<Longrightarrow> str_text (backslash # e # r)"
| uni: "length h = 4 \<Longrightarrow> list_all is_hex h \<Longrightarrow> str_text r \<Longrightarrow> str_text (backslash # CHR ''u'' # h @ r)"

lemma str_text_ConsE:
  assumes "str_text (c # r)"
  obtains (plain) "c \<noteq> dquote" "c \<noteq> backslash" "32 \<le> byte_val c" "str_text r"
  | (esc) e r' where "c = backslash" "r = e # r'" "e \<in> set ''bfnrt/'' \<or> e = backslash \<or> e = dquote" "str_text r'"
  | (uni) h r' where "c = backslash" "r = CHR ''u'' # h @ r'" "length h = 4" "list_all is_hex h" "str_text r'"
  using assms by (cases rule: str_text.cases) auto

lemma scan_string_text: "scan_string s = Some (t, q) \<Longrightarrow> s = t @ dquote # q \<and> str_text t"
proof (induction s arbitrary: t rule: scan_string.induct)
  case (2 c r)
  consider "c = dquote" | (u) r' where "c = backslash" "r = CHR ''u'' # r'" | (esc) e r' where "c = backslash" "r = e # r'" "e \<noteq> CHR ''u''"
    | (plain) "c \<noteq> dquote" "c \<noteq> backslash" "32 \<le> byte_val c"
    using "2.prems" by (cases r) (force split: if_splits)+
  then show ?case
  proof cases
    case 1
    then show ?thesis using "2.prems" by (auto intro: str_text.Nil)
  next
    case u
    then obtain t' where h: "4 \<le> length r'" "list_all is_hex (take 4 r')" and t': "scan_string (drop 4 r') = Some (t', q)"
      "t = backslash # CHR ''u'' # take 4 r' @ t'"
      using "2.prems" by (auto split: if_splits)
    have "drop 4 r' = t' @ dquote # q \<and> str_text t'"
      using u h t' by (intro "2.IH"(1)) auto
    moreover have "r' = take 4 r' @ drop 4 r'" by simp
    ultimately show ?thesis using u h t' str_text.uni [of "take 4 r'" t'] by (metis append.assoc append_Cons length_take min.absorb2)
  next
    case esc
    then obtain t' where "e \<in> set ''bfnrt/'' \<or> e = backslash \<or> e = dquote" "scan_string r' = Some (t', q)" "t = backslash # e # t'"
      using "2.prems" by (auto split: if_splits)
    moreover from this esc have "r' = t' @ dquote # q \<and> str_text t'" by (intro "2.IH"(2)) auto
    ultimately show ?thesis using esc str_text.esc by auto
  next
    case plain
    then obtain t' where "scan_string r = Some (t', q)" "t = c # t'" using "2.prems" by (auto split: if_splits)
    moreover from this plain have "r = t' @ dquote # q \<and> str_text t'" by (intro "2.IH"(3)) auto
    ultimately show ?thesis using plain str_text.plain by auto
  qed
qed simp

lemma scan_str_text: "str_text t \<Longrightarrow> scan_string (t @ dquote # z) = Some (t, z)"
  by (induction t rule: str_text.induct) (auto simp: list_all_iff)

lemma str_text_escape_string: "str_text (escape_string s)"
  using scan_string_text [OF scan_marshal_string] by simp

lemma hex4_bounds:
  assumes "length h = 4" and "list_all is_hex h"
  shows "0 \<le> hex4 (h @ z) \<and> hex4 (h @ z) < 65536"
proof -
  obtain a b c d where h: "h = [a, b, c, d]" using assms(1) by (auto simp: numeral_eq_Suc length_Suc_conv)
  have v: "0 \<le> hex_val x \<and> hex_val x < 16" if "is_hex x" for x
    using that by (auto simp: is_hex_def hex_val_def is_digit_def digit_val_def)
  have "hex4 (h @ z) = 16 * (16 * (16 * hex_val a + hex_val b) + hex_val c) + hex_val d" by (simp add: h hex4_four)
  then show ?thesis using v [of a] v [of b] v [of c] v [of d] assms(2) unfolding h by (simp add: list_all_iff)
qed

lemma str_text_uE:
  assumes "str_text (backslash # CHR ''u'' # r)"
  obtains h r' where "r = h @ r'" "length h = 4" "list_all is_hex h" "str_text r'"
  using assms by (auto elim: str_text_ConsE)

lemma str_text_drop_cont: "str_text r \<Longrightarrow> list_all is_cont (take k r) \<Longrightarrow> str_text (drop k r)"
proof (induction k arbitrary: r)
  case (Suc k)
  show ?case
  proof (cases r)
    case (Cons c r')
    have "c \<noteq> backslash" using Suc.prems(2) by (auto simp: Cons is_cont_def byte_val_def)
    then have "str_text r'" using Suc.prems(1) unfolding Cons by (auto elim: str_text_ConsE)
    then show ?thesis using Suc Cons by simp
  qed (use Suc in simp)
qed simp

text \<open>What a string decodes to is valid UTF-8.\<close>

lemma to_valid_replacement [simp]: "to_valid (replacement @ z) = replacement @ to_valid z"
  unfolding replacement_def by (rule to_valid_utf8_encode) simp_all

lemma escape_val_ascii: "e \<in> set ''bfnrt/'' \<or> e = backslash \<or> e = dquote \<Longrightarrow> byte_val (escape_val e) < 128"
proof -
  have "\<forall>e\<in>set (''bfnrt/'' @ [backslash, dquote]). byte_val (escape_val e) < 128" by code_simp
  then show "e \<in> set ''bfnrt/'' \<or> e = backslash \<or> e = dquote \<Longrightarrow> byte_val (escape_val e) < 128" by auto
qed

lemma to_valid_unquote: "str_text t \<Longrightarrow> to_valid (unquote t) = unquote t"
proof (induction t rule: length_induct)
  case (1 t)
  show ?case
  proof (cases t)
    case (Cons c r)
    from 1(2) [unfolded Cons] show ?thesis
    proof (cases rule: str_text_ConsE)
      case plain
      show ?thesis
      proof (cases "byte_val c < 128")
        case True
        then show ?thesis using plain 1(1) Cons by (simp add: unquote_ascii to_valid_ascii)
      next
        case high: False
        show ?thesis
        proof (cases "2 \<le> utf8_len (c # r)")
          case True
          define k where "k = utf8_len (c # r) - 1"
          have "str_text (drop k r)" using plain utf8_len_shape(3) [OF True] str_text_drop_cont unfolding k_def by blast
          then have "to_valid (unquote (drop k r)) = unquote (drop k r)" using 1(1) Cons by simp
          then show ?thesis
            using to_valid_multi(2,3) [OF True, folded k_def] Cons by (metis append_take_drop_id)
        next
          case False
          then show ?thesis using high plain 1(1) Cons by (simp add: unquote.simps)
        qed
      qed
    next
      case (esc e r')
      then have "e \<noteq> CHR ''u''" by auto
      then show ?thesis using esc 1(1) Cons escape_val_ascii [OF esc(3)]
        by (simp add: unquote_escape to_valid_ascii)
    next
      case (uni h r')
      define u where "u = hex4 (h @ r')"
      have u: "0 \<le> u" "u < 65536" using hex4_bounds [of h r'] uni by (simp_all add: u_def)
      have d: "drop 4 (h @ r') = r'" using uni by simp
      have IH: "to_valid (unquote r') = unquote r'" using 1(1) uni Cons by simp
      have un: "unquote t = (if 55296 \<le> u \<and> u \<le> 57343 then
                  (let low = hex4 (drop 2 r') in
                   if u \<le> 56319 \<and> take 2 r' = [backslash, CHR ''u''] \<and> 56320 \<le> low \<and> low \<le> 57343
                   then utf8_encode ((u - 55296) * 1024 + (low - 56320) + 65536) @ unquote (drop 6 r')
                   else replacement @ unquote r')
                else utf8_encode u @ unquote r')"
        unfolding Cons uni by (simp add: unquote.simps u_def Let_def uni(3))
      show ?thesis
      proof (cases "55296 \<le> u \<and> u \<le> 56319 \<and> take 2 r' = [backslash, CHR ''u''] \<and>
          56320 \<le> hex4 (drop 2 r') \<and> hex4 (drop 2 r') \<le> 57343")
        case True
        then have "r' = backslash # CHR ''u'' # drop 2 r'" by (metis append_Cons append_Nil append_take_drop_id)
        then obtain h2 r2 where r2: "drop 2 r' = h2 @ r2" "length h2 = 4" "str_text r2"
          using uni(5) by (metis str_text_uE)
        then have "drop 6 r' = r2" using drop_drop [of 4 2 r'] by simp
        moreover have "to_valid (unquote r2) = unquote r2"
          using 1(1) r2 uni Cons length_drop [of 2 r'] by (auto simp: Cons)
        moreover have "to_valid (utf8_encode ((u - 55296) * 1024 + (hex4 (drop 2 r') - 56320) + 65536) @ z) =
            utf8_encode ((u - 55296) * 1024 + (hex4 (drop 2 r') - 56320) + 65536) @ to_valid z" for z
          using True by (intro to_valid_utf8_encode) auto
        ultimately show ?thesis using True un by (simp add: Let_def)
      next
        case False
        then show ?thesis using un IH to_valid_utf8_encode [of u] u by (auto simp: Let_def)
      qed
    qed
  qed simp
qed

end
