(* ===== verification/Go_Compact.thy ===== *)
theory Go_Compact
  imports Go_Marshal
begin

text \<open>
  How \<open>json.Marshal\<close> writes a \<open>json.RawMessage\<close>: it checks the syntax, drops the white space between
  tokens, and escapes the characters HTML reads and the two line separators. The compact text has
  the same tree, up to the escapes inside its strings.
\<close>

section \<open>Compact text\<close>

text \<open>The flag says whether the next byte is inside a string.\<close>

fun compact_from :: "bool \<Rightarrow> bytes \<Rightarrow> bytes" where
  "compact_from instr [] = []"
| "compact_from instr (c # r) =
     (if html_special c then u_escape (byte_val c) @ compact_from instr r
      else if separator (c # r) then separator_escape (c # r) @ compact_from instr (drop 2 r)
      else if instr then
        (if c = backslash then (case r of [] \<Rightarrow> [c] | e # r' \<Rightarrow> c # e # compact_from True r')
         else if c = dquote then c # compact_from False r
         else c # compact_from True r)
      else if is_ws c then compact_from False r
      else c # compact_from (c = dquote) r)"

declare compact_from.simps(2) [simp del]

definition compact :: "bytes \<Rightarrow> bytes option" where
  "compact s = (if parse_json s = None then None else Some (compact_from False s))"

section \<open>Inside a string\<close>

lemma separator_head: "separator (c # r) \<Longrightarrow> c = CHR 0xE2"
  by (auto elim: separatorE)

lemma compact_cont:
  assumes "is_cont c"
  shows "compact_from True (c # r) = c # compact_from True r"
proof -
  have "\<not> html_special c" "c \<noteq> backslash" "c \<noteq> dquote" "c \<noteq> CHR 0xE2"
    using assms by (auto simp: is_cont_def html_special_def byte_val_def)
  then show ?thesis using separator_head by (auto simp: compact_from.simps)
qed

lemma compact_conts: "list_all is_cont x \<Longrightarrow> compact_from True (x @ r) = x @ compact_from True r"
  by (induction x) (simp_all add: compact_cont)

lemma compact_not_cont:
  assumes "\<not> is_cont c"
  shows "takeWhile is_cont (take k (compact_from True (c # r))) = []"
proof -
  have b: "\<not> is_cont backslash" "\<not> is_cont dquote" by (simp_all add: is_cont_def byte_val_def)
  have "\<exists>x z. compact_from True (c # r) = x # z \<and> \<not> is_cont x"
    using assms b by (auto simp: compact_from.simps u_escape_def separator_escape_def split: list.split)
  then show ?thesis by (cases k) auto
qed

lemma compact_conts_ahead: "takeWhile is_cont (take k (compact_from True r)) = takeWhile is_cont (take k r)"
proof (induction k arbitrary: r)
  case (Suc k)
  show ?case
  proof (cases r)
    case (Cons c r')
    show ?thesis
    proof (cases "is_cont c")
      case True
      then show ?thesis using Suc Cons by (simp add: compact_cont)
    next
      case False
      then show ?thesis using compact_not_cont [of c "Suc k" r'] Cons by simp
    qed
  qed simp
qed simp

lemma str_text_u_escape:
  "str_text z \<Longrightarrow> str_text (u_escape n @ z)"
  using str_text.uni [of "[hex_digit (n div 4096 mod 16), hex_digit (n div 256 mod 16), hex_digit (n div 16 mod 16), hex_digit (n mod 16)]" z]
  by (simp add: u_escape_def)

lemma html_special_facts:
  "html_special c \<Longrightarrow> c \<noteq> backslash \<and> c \<noteq> dquote \<and> 32 \<le> byte_val c \<and> byte_val c < 128"
  by (auto simp: html_special_def byte_val_def)

lemma compact_separator:
  assumes "d = CHR 0xA8 \<or> d = CHR 0xA9"
  shows "compact_from b (CHR 0xE2 # CHR 0x80 # d # r) = separator_escape [CHR 0xE2, CHR 0x80, d] @ compact_from b r"
proof -
  have "separator (CHR 0xE2 # CHR 0x80 # d # r)" using assms by (auto simp: separator_def numeral_eq_Suc)
  moreover have "\<not> html_special (CHR 0xE2)" by (simp add: html_special_def)
  ultimately show ?thesis
    by (simp add: compact_from.simps(2) [of b "CHR 0xE2"] separator_escape_def numeral_eq_Suc)
qed

lemma compact_hex: "list_all is_hex h \<Longrightarrow> compact_from True (h @ r) = h @ compact_from True r"
proof (induction h)
  case (Cons c h)
  have "\<not> html_special c" "c \<noteq> backslash" "c \<noteq> dquote" "c \<noteq> CHR 0xE2"
    using Cons(2) by (auto simp: is_hex_def is_digit_def html_special_def byte_val_def)
  then show ?case using Cons separator_head by (auto simp: compact_from.simps)
qed simp

lemma compact_backslash: "compact_from True (backslash # e # r) = backslash # e # compact_from True r"
proof -
  have "\<not> html_special backslash" "\<not> separator (backslash # z)" for z
    by (auto simp: html_special_def separator_def)
  then show ?thesis by (simp add: compact_from.simps)
qed

lemma hex4_drop_u_escape: "0 \<le> n \<Longrightarrow> n < 65536 \<Longrightarrow> hex4 (drop 2 (u_escape n @ z)) = n"
  unfolding u_escape_def append_Cons append_Nil drop_Suc_Cons numeral_2_eq_2 drop0 by (rule hex4_u_escape)

text \<open>The escapes it adds are never the second half of a surrogate pair.\<close>

lemma compact_no_surrogate:
  assumes "take 2 (compact_from True r) = [backslash, CHR ''u'']" and "take 2 r \<noteq> [backslash, CHR ''u'']"
  shows "hex4 (drop 2 (compact_from True r)) < 56320"
proof (cases r)
  case Nil
  then show ?thesis using assms by simp
next
  case (Cons c r')
  consider "html_special c" | (sep) "\<not> html_special c" "separator (c # r')"
    | (other) "\<not> html_special c" "\<not> separator (c # r')" by blast
  then show ?thesis
  proof cases
    case 1
    then have "compact_from True r = u_escape (byte_val c) @ compact_from True r'" by (simp add: Cons compact_from.simps)
    then show ?thesis using hex4_drop_u_escape [of "byte_val c" "compact_from True r'"] byte_val_bounds [of c] by simp
  next
    case sep
    then obtain d r2 where s: "c # r' = CHR 0xE2 # CHR 0x80 # d # r2" "d = CHR 0xA8 \<or> d = CHR 0xA9" by (auto elim: separatorE)
    define n where "n = 8192 + byte_val d - 128"
    have n: "0 \<le> n" "n < 56320" using s(2) by (auto simp: n_def byte_val_def)
    have "compact_from True r = u_escape n @ compact_from True r2"
      using compact_separator [OF s(2), of True r2] by (simp add: Cons s(1) separator_escape_def n_def)
    moreover have "hex4 (drop 2 (u_escape n @ compact_from True r2)) = n" using n by (intro hex4_drop_u_escape) simp_all
    ultimately show ?thesis using n(2) by (simp only:)
  next
    case other
    then have "take 2 r = take 2 (compact_from True r)" if "c = backslash"
      using that Cons by (cases r') (simp_all add: compact_backslash numeral_eq_Suc compact_from.simps)
    moreover have "hd (compact_from True r) = c" using other Cons by (auto simp: compact_from.simps split: list.split)
    moreover have "hd (compact_from True r) = backslash" using assms(1) by (cases "compact_from True r") auto
    ultimately show ?thesis using assms by simp
  qed
qed

lemma compact_string:
  "str_text t \<Longrightarrow> str_text (compact_from True t) \<and> unquote (compact_from True t) = unquote t \<and>
     (\<forall>z. compact_from True (t @ dquote # z) = compact_from True t @ dquote # compact_from False z)"
proof (induction t rule: length_induct)
  case (1 t)
  show ?case
  proof (cases t)
    case Nil
    have "\<not> html_special dquote" "\<not> separator (dquote # z)" for z
      by (auto simp: html_special_def separator_def)
    then show ?thesis using Nil by (simp add: compact_from.simps str_text.Nil)
  next
    case (Cons c r)
    from 1(2) [unfolded Cons] show ?thesis
    proof (cases rule: str_text_ConsE)
      case plain
      have IH: "str_text (compact_from True r)" "unquote (compact_from True r) = unquote r"
        "compact_from True (r @ dquote # z) = compact_from True r @ dquote # compact_from False z" for z
        using 1(1) plain Cons by auto
      consider "html_special c" | (sep) "\<not> html_special c" "separator (c # r)"
        | (other) "\<not> html_special c" "\<not> separator (c # r)" by blast
      then show ?thesis
      proof cases
        case 1
        have "unquote (u_escape (byte_val c) @ z) = c # unquote z" for z
          using unquote_u_escape [of "byte_val c" z] html_special_facts [OF 1] byte_val_bounds [of c]
          by (simp add: utf8_encode_def)
        then show ?thesis using 1 IH Cons html_special_facts [OF 1]
          by (simp add: compact_from.simps str_text_u_escape unquote_ascii)
      next
        case sep
        obtain d r2 where s: "c # r = CHR 0xE2 # CHR 0x80 # d # r2" "d = CHR 0xA8 \<or> d = CHR 0xA9"
          using sep(2) by (rule separatorE)
        have "str_text (drop 2 r)"
          using plain s by (intro str_text_drop_cont) (auto simp: is_cont_def byte_val_def numeral_eq_Suc)
        then have r2: "str_text r2" using s by (simp add: numeral_eq_Suc)
        have IH2: "str_text (compact_from True r2)" "unquote (compact_from True r2) = unquote r2"
          "compact_from True (r2 @ dquote # z) = compact_from True r2 @ dquote # compact_from False z" for z
          using 1(1) r2 Cons s by auto
        have "unquote (c # r) = [CHR 0xE2, CHR 0x80, d] @ unquote r2"
          using to_valid_multi(3) [of c r r2] separator_len [OF sep(2)] s by (simp add: numeral_eq_Suc)
        moreover have "unquote (separator_escape [CHR 0xE2, CHR 0x80, d] @ z) = [CHR 0xE2, CHR 0x80, d] @ unquote z" for z
          using unquote_separator [of "[CHR 0xE2, CHR 0x80, d]" z] s(2) by (auto simp: separator_def)
        moreover have "str_text (separator_escape [CHR 0xE2, CHR 0x80, d] @ compact_from True r2)"
          using IH2(1) by (simp add: separator_escape_def str_text_u_escape)
        ultimately show ?thesis
          using IH2 by (simp add: Cons s(1) compact_separator [OF s(2)])
      next
        case other
        have sepz: "\<not> separator (c # r @ dquote # z)" for z
        proof
          assume "separator (c # r @ dquote # z)"
          then obtain d r2 where "c # r @ dquote # z = CHR 0xE2 # CHR 0x80 # d # r2" "d = CHR 0xA8 \<or> d = CHR 0xA9"
            by (rule separatorE)
          then have "separator (c # r)"
            by (cases r; cases "tl r") (auto simp: separator_def numeral_eq_Suc)
          then show False using other(2) by simp
        qed
        have c: "compact_from True (c # r) = c # compact_from True r"
          "compact_from True (c # r @ dquote # z) = c # compact_from True (r @ dquote # z)" for z
          using other plain sepz by (simp_all add: compact_from.simps)
        have "unquote (c # compact_from True r) = unquote (c # r)"
        proof (cases "byte_val c < 128")
          case True
          then show ?thesis using plain IH(2) by (simp add: unquote_ascii)
        next
          case high: False
          have len: "utf8_len (c # compact_from True r) = utf8_len (c # r)"
            by (rule utf8_len_cong) (rule compact_conts_ahead)
          show ?thesis
          proof (cases "2 \<le> utf8_len (c # r)")
            case True
            define k where "k = utf8_len (c # r) - 1"
            have conts: "list_all is_cont (take k r)" using utf8_len_shape(3) [OF True] by (simp add: k_def)
            have "str_text (drop k r)" using plain conts str_text_drop_cont by blast
            then have "unquote (compact_from True (drop k r)) = unquote (drop k r)" using 1(1) Cons by simp
            moreover have "compact_from True r = take k r @ compact_from True (drop k r)"
              using compact_conts [OF conts, of "drop k r"] by simp
            ultimately show ?thesis
              using to_valid_multi(3) [OF True, folded k_def] by (metis append_take_drop_id)
          next
            case False
            then show ?thesis using high plain len IH(2) by (simp add: unquote.simps)
          qed
        qed
        then show ?thesis using c IH plain Cons by (simp add: str_text.plain)
      qed
    next
      case (esc e r')
      have IH: "str_text (compact_from True r')" "unquote (compact_from True r') = unquote r'"
        "compact_from True (r' @ dquote # z) = compact_from True r' @ dquote # compact_from False z" for z
        using 1(1) esc Cons by auto
      have e: "e \<noteq> CHR ''u''" using esc by auto
      then show ?thesis using IH esc Cons
        by (simp add: compact_backslash unquote_escape str_text.esc)
    next
      case (uni h r')
      have IH: "str_text (compact_from True r')" "unquote (compact_from True r') = unquote r'"
        "compact_from True (r' @ dquote # z) = compact_from True r' @ dquote # compact_from False z" for z
        using 1(1) uni Cons by auto
      have c: "compact_from True t = backslash # CHR ''u'' # h @ compact_from True r'"
        "compact_from True (t @ dquote # z) = backslash # CHR ''u'' # h @ compact_from True r' @ dquote # compact_from False z" for z
        using IH(3) uni Cons by (simp_all add: compact_backslash compact_hex)
      define u where "u = hex4 h"
      have h4: "hex4 (h @ z) = u" "drop 4 (h @ z) = z" for z using uni(3) by (simp_all add: u_def hex4_def)
      define pair where "pair x \<longleftrightarrow> u \<le> 56319 \<and> take 2 x = [backslash, CHR ''u''] \<and>
        56320 \<le> hex4 (drop 2 x) \<and> hex4 (drop 2 x) \<le> 57343" for x
      have un: "unquote (backslash # CHR ''u'' # h @ x) = (if 55296 \<le> u \<and> u \<le> 57343 then
            (if pair x then utf8_encode ((u - 55296) * 1024 + (hex4 (drop 2 x) - 56320) + 65536) @ unquote (drop 6 x)
             else replacement @ unquote x)
          else utf8_encode u @ unquote x)" for x
        by (simp add: unquote.simps h4(1) Let_def pair_def uni(3))
      have "unquote (backslash # CHR ''u'' # h @ compact_from True r') = unquote (backslash # CHR ''u'' # h @ r')"
      proof (cases "take 2 r' = [backslash, CHR ''u'']")
        case True
        then have "r' = backslash # CHR ''u'' # drop 2 r'" by (metis append_Cons append_Nil append_take_drop_id)
        then obtain h2 r2 where r2: "r' = backslash # CHR ''u'' # h2 @ r2" "length h2 = 4" "list_all is_hex h2" "str_text r2"
          using uni(5) by (metis str_text_uE)
        have "unquote (compact_from True r2) = unquote r2" using 1(1) uni Cons r2 by auto
        moreover have "compact_from True r' = backslash # CHR ''u'' # h2 @ compact_from True r2"
          using r2 by (simp add: compact_backslash compact_hex)
        moreover have "hex4 (h2 @ z) = hex4 h2" "drop 4 (h2 @ z) = z" for z using r2(2) by (simp_all add: hex4_def)
        ultimately show ?thesis unfolding un using IH(2) r2(1) by (simp add: pair_def numeral_eq_Suc)
      next
        case False
        then have "\<not> pair r'" "\<not> pair (compact_from True r')"
          using compact_no_surrogate [of r'] by (auto simp: pair_def)
        then show ?thesis unfolding un using IH(2) by simp
      qed
      then show ?thesis using c IH(1) uni Cons by (simp add: str_text.uni)
    qed
  qed
qed

end
