(* ===== verification/Go_Reads.thy ===== *)
theory Go_Reads
  imports Go_Marshal
begin

text \<open>
  Texts of JSON values, members and elements: each reads as the same thing whatever follows it,
  and longer texts are put together from shorter ones as the grammar does. Parsing is monotone in
  its fuel and in the nesting that is left.
\<close>

section \<open>What may follow a value\<close>

definition closer :: "char \<Rightarrow> bool" where "closer c = (c \<in> set '',]}'' \<or> is_ws c)"

definition stops :: "bytes \<Rightarrow> bool" where "stops z = (z = [] \<or> closer (hd z))"

lemma stops_simps [simp]: "stops []" "stops (c # z) = closer c"
  by (simp_all add: stops_def)

lemma closer_simps [simp]: "closer CHR '',''" "closer CHR '']''" "closer CHR ''}''"
  by (simp_all add: closer_def)

lemma closer_not: "closer c \<Longrightarrow> \<not> is_digit c \<and> c \<noteq> CHR ''.'' \<and> c \<noteq> CHR ''e'' \<and> c \<noteq> CHR ''E''"
  by (auto simp: closer_def is_digit_def is_ws_def byte_val_def)

definition value_start :: "char \<Rightarrow> bool" where
  "value_start c = (c = dquote \<or> c \<in> set ''{[tfn-'' \<or> is_digit c)"

lemma value_start_facts: "value_start c \<Longrightarrow> \<not> is_ws c \<and> c \<noteq> CHR '']'' \<and> c \<noteq> CHR ''}''"
  by (auto simp: value_start_def is_ws_def is_digit_def byte_val_def)

lemma value_start_simps [simp]: "value_start dquote" "value_start CHR ''{''" "value_start CHR ''[''"
  by (simp_all add: value_start_def)

lemma skip_ws_id: "x \<noteq> [] \<Longrightarrow> \<not> is_ws (hd x) \<Longrightarrow> skip_ws (x @ z) = x @ z"
  by (cases x) (simp_all add: skip_ws_def)

lemma skip_ws_start: "x \<noteq> [] \<Longrightarrow> value_start (hd x) \<Longrightarrow> skip_ws (x @ z) = x @ z"
  using skip_ws_id value_start_facts by blast

lemma skip_ws_simps [simp]:
  "skip_ws (CHR '':'' # z) = CHR '':'' # z" "skip_ws (dquote # z) = dquote # z" "skip_ws [] = []"
  "skip_ws (CHR '','' # z) = CHR '','' # z" "skip_ws (CHR ''}'' # z) = CHR ''}'' # z"
  "skip_ws (CHR '']'' # z) = CHR '']'' # z" "skip_ws (CHR ''{'' # z) = CHR ''{'' # z"
  by (simp_all add: skip_ws_def is_ws_def byte_val_def)

lemma skip_ws_list: "list_all is_ws w \<Longrightarrow> skip_ws (w @ z) = skip_ws z"
  by (induction w) (simp_all add: skip_ws_def)

lemma skip_ws_split: "\<exists>w. s = w @ skip_ws s \<and> list_all is_ws w"
  by (rule exI [of _ "takeWhile is_ws s"]) (auto simp: skip_ws_def list_all_iff dest: set_takeWhileD)

lemma head_not: "x \<noteq> [] \<Longrightarrow> hd x \<noteq> c \<Longrightarrow> take 1 (x @ z) \<noteq> [c]"
  by (cases x) simp_all

section \<open>Numbers\<close>

lemma scan_digits1_prefix:
  assumes "scan_digits1 s = Some (d, q)"
  shows "s = d @ q \<and> d \<noteq> [] \<and> list_all is_digit d \<and>
    (\<forall>z. (z = [] \<or> \<not> is_digit (hd z)) \<longrightarrow> scan_digits1 (d @ z) = Some (d, z))"
proof -
  have d: "d = takeWhile is_digit s" "q = dropWhile is_digit s" "d \<noteq> []"
    using assms by (auto simp: scan_digits1_def Let_def split: if_splits)
  have all: "\<forall>c\<in>set d. is_digit c" using d(1) set_takeWhileD by metis
  have "takeWhile is_digit (d @ z) = d \<and> dropWhile is_digit (d @ z) = z" if "z = [] \<or> \<not> is_digit (hd z)" for z
    using that all by (cases z) (simp_all add: takeWhile_append2 dropWhile_append2)
  then show ?thesis using d all by (simp add: scan_digits1_def list_all_iff)
qed

lemma scan_int_prefix:
  assumes "scan_int s = Some (d, q)"
  shows "s = d @ q \<and> d \<noteq> [] \<and> list_all is_digit d \<and>
    (\<forall>z. (z = [] \<or> \<not> is_digit (hd z)) \<longrightarrow> scan_int (d @ z) = Some (d, z))"
proof (cases s)
  case (Cons c r)
  show ?thesis
  proof (cases "c = CHR ''0''")
    case True
    then show ?thesis using assms Cons by (auto simp: scan_int_def is_digit_def byte_val_def)
  next
    case False
    then have "scan_digits1 s = Some (d, q)" using assms Cons by (simp add: scan_int_def)
    from scan_digits1_prefix [OF this] show ?thesis
      using False Cons by (cases d) (auto simp: scan_int_def)
  qed
qed (use assms in \<open>simp add: scan_int_def\<close>)

lemma scan_frac_prefix:
  assumes "scan_frac s = Some (d, q)"
  shows "s = d @ q \<and> (d = [] \<or> hd d = CHR ''.'') \<and> list_all (\<lambda>c. is_digit c \<or> c = CHR ''.'') d \<and>
    (\<forall>z. (z = [] \<or> \<not> is_digit (hd z) \<and> hd z \<noteq> CHR ''.'') \<longrightarrow> scan_frac (d @ z) = Some (d, z))"
proof (cases s)
  case (Cons c r)
  show ?thesis
  proof (cases "c = CHR ''.''")
    case True
    then obtain d' where d': "scan_digits1 r = Some (d', q)" "d = c # d'"
      using assms Cons by (auto simp: scan_frac_def)
    from scan_digits1_prefix [OF d'(1)] show ?thesis
      using True Cons d'(2) by (auto simp: scan_frac_def list_all_iff)
  next
    case False
    then show ?thesis using assms Cons by (auto simp: scan_frac_def split: list.split)
  qed
qed (use assms in \<open>auto simp: scan_frac_def split: list.split\<close>)

definition exp_char :: "char \<Rightarrow> bool" where "exp_char c = (is_digit c \<or> c \<in> set ''eE+-'')"

lemma scan_exp_prefix:
  assumes "scan_exp s = Some (d, q)"
  shows "s = d @ q \<and> (d = [] \<or> hd d = CHR ''e'' \<or> hd d = CHR ''E'') \<and> list_all exp_char d \<and>
    (\<forall>z. (z = [] \<or> \<not> is_digit (hd z) \<and> hd z \<noteq> CHR ''e'' \<and> hd z \<noteq> CHR ''E'') \<longrightarrow> scan_exp (d @ z) = Some (d, z))"
proof (cases "\<exists>c r. s = c # r \<and> (c = CHR ''e'' \<or> c = CHR ''E'')")
  case True
  then obtain c r where s: "s = c # r" "c = CHR ''e'' \<or> c = CHR ''E''" by auto
  have sign: "\<not> is_digit CHR ''+''" "\<not> is_digit CHR ''-''" by (simp_all add: is_digit_def byte_val_def)
  obtain g d' where d': "scan_digits1 (drop (length g) r) = Some (d', q)" "d = c # g @ d'" "r = g @ drop (length g) r"
    "g = [] \<and> take 1 r \<noteq> ''+'' \<and> take 1 r \<noteq> ''-'' \<or> g = ''+'' \<or> g = ''-''"
  proof (cases r)
    case Nil
    then show thesis using assms s by (auto simp: scan_exp_def)
  next
    case (Cons g r')
    then show thesis
      using assms s that [of "[g]"] that [of "[]"]
      by (cases "g = CHR ''+'' \<or> g = CHR ''-''") (auto simp: scan_exp_def)
  qed
  note p = scan_digits1_prefix [OF d'(1)]
  have "d' \<noteq> []" "is_digit (hd d')" using p by (cases d'; simp)+
  then have scan: "scan_exp (d @ z) = Some (d, z)" if "z = [] \<or> \<not> is_digit (hd z)" for z
    using that p s d'(2,4) sign by (cases d') (auto simp: scan_exp_def)
  have "list_all exp_char d" using p d'(2,4) s(2) by (auto simp: exp_char_def list_all_iff)
  moreover have "s = d @ q" using p d'(2,3) s(1) by simp
  moreover have "hd d = CHR ''e'' \<or> hd d = CHR ''E''" using s(2) d'(2) by simp
  ultimately show ?thesis using scan by blast
next
  case False
  then have "d = []" "q = s" using assms by (auto simp: scan_exp_def split: list.splits)
  then show ?thesis using False by (auto simp: scan_exp_def split: list.split)
qed

definition num_char :: "char \<Rightarrow> bool" where "num_char c = (is_digit c \<or> c \<in> set ''.eE+-'')"

lemma scan_number_prefix:
  assumes "scan_number s = Some (t, q)"
  shows "s = t @ q \<and> t \<noteq> [] \<and> list_all num_char t \<and> (hd t = CHR ''-'' \<or> is_digit (hd t)) \<and>
    (\<forall>z. stops z \<longrightarrow> scan_number (t @ z) = Some (t, z))"
proof -
  define m where "m = (if take 1 s = ''-'' then ''-'' else [])"
  have s0: "(case s of c # r \<Rightarrow> if c = CHR ''-'' then ([c], r) else ([], s) | [] \<Rightarrow> ([], s)) = (m, drop (length m) s)"
    "s = m @ drop (length m) s" by (cases s; simp add: m_def)+
  obtain i s1 f s2 e where i: "scan_int (drop (length m) s) = Some (i, s1)" and f: "scan_frac s1 = Some (f, s2)"
    and e: "scan_exp s2 = Some (e, q)" and t: "t = m @ i @ f @ e"
    using assms by (auto simp: scan_number_def s0(1) split: bind_splits)
  note pi = scan_int_prefix [OF i] and pf = scan_frac_prefix [OF f] and pe = scan_exp_prefix [OF e]
  obtain c i' where ci: "i = c # i'" "is_digit c" using pi by (cases i) auto
  have nd: "\<not> is_digit CHR ''.''" "\<not> is_digit CHR ''e''" "\<not> is_digit CHR ''E''" "\<not> is_digit CHR ''-''"
    by (simp_all add: is_digit_def byte_val_def)
  have scan: "scan_number (t @ z) = Some (t, z)" if z: "stops z" for z
  proof -
    have z': "z = [] \<or> \<not> is_digit (hd z) \<and> hd z \<noteq> CHR ''.'' \<and> hd z \<noteq> CHR ''e'' \<and> hd z \<noteq> CHR ''E''"
      using z closer_not [of "hd z"] by (auto simp: stops_def)
    have "scan_exp (e @ z) = Some (e, z)" using pe z' by blast
    moreover have "scan_frac (f @ e @ z) = Some (f, e @ z)"
    proof -
      have "e @ z = [] \<or> \<not> is_digit (hd (e @ z)) \<and> hd (e @ z) \<noteq> CHR ''.''"
        using pe z' nd by (cases e) auto
      then show ?thesis using pf by blast
    qed
    moreover have "scan_int (i @ f @ e @ z) = Some (i, f @ e @ z)"
    proof -
      have "f @ e @ z = [] \<or> \<not> is_digit (hd (f @ e @ z))"
        using pe pf z' nd by (cases f; cases e) auto
      then show ?thesis using pi by blast
    qed
    moreover have sign: "(case t @ z of c # r \<Rightarrow> if c = CHR ''-'' then ([c], r) else ([], t @ z) | [] \<Rightarrow> ([], t @ z))
        = (m, i @ f @ e @ z)"
      using ci nd by (auto simp: t m_def)
    ultimately show ?thesis unfolding scan_number_def Let_def sign by (simp add: t)
  qed
  moreover have "list_all num_char t"
    using pi pf pe by (auto simp: t m_def num_char_def exp_char_def list_all_iff)
  moreover have "s = t @ q" using s0(2) pi pf pe t by simp
  moreover have "t \<noteq> []" "hd t = CHR ''-'' \<or> is_digit (hd t)" using ci by (auto simp: t m_def)
  ultimately show ?thesis by blast
qed

section \<open>More fuel does not change a result\<close>

lemma parse_mono:
  "parse_value n d s = Some r \<Longrightarrow> parse_value (Suc n) d s = Some r"
  "parse_members n d s = Some rm \<Longrightarrow> parse_members (Suc n) d s = Some rm"
  "parse_elems n d s = Some re \<Longrightarrow> parse_elems (Suc n) d s = Some re"
proof (induction n arbitrary: d s r rm re)
  case (Suc n)
  {
    case 1
    then show ?case
      by (subst parse_value.simps, subst (asm) parse_value.simps)
        (auto simp del: parse_value.simps parse_members.simps parse_elems.simps split: list.splits if_splits dest: Suc.IH(2,3))
  next
    case 2
    then obtain k s1 v s2 where m: "member_key s = Some (k, s1)" and v: "parse_value n d s1 = Some (v, s2)"
      by (auto simp: Let_def split: option.splits)
    show ?case using 2 m v Suc.IH(1) [OF v]
      by (subst parse_members.simps, subst (asm) parse_members.simps)
        (auto simp: Let_def simp del: parse_value.simps parse_members.simps split: list.splits if_splits dest: Suc.IH(2))
  next
    case 3
    then obtain v s2 where v: "parse_value n d s = Some (v, s2)"
      by (auto split: option.splits)
    show ?case using 3 v Suc.IH(1) [OF v]
      by (subst parse_elems.simps, subst (asm) parse_elems.simps)
        (auto simp del: parse_value.simps parse_elems.simps split: list.splits if_splits dest: Suc.IH(3))
  }
qed simp_all

lemma parse_mono_le:
  "parse_value n d s = Some r \<Longrightarrow> n \<le> m \<Longrightarrow> parse_value m d s = Some r"
  "parse_members n d s = Some rm \<Longrightarrow> n \<le> m \<Longrightarrow> parse_members m d s = Some rm"
  "parse_elems n d s = Some re \<Longrightarrow> n \<le> m \<Longrightarrow> parse_elems m d s = Some re"
  by (induction m) (auto simp: le_Suc_eq simp del: parse_value.simps parse_members.simps parse_elems.simps intro: parse_mono)

declare parse_value.simps [simp del] parse_members.simps [simp del] parse_elems.simps [simp del]

lemma parse_json_any_fuel:
  assumes "parse_value n 0 s = Some (v, r)" and "skip_ws s = s" and "skip_ws r = []"
  shows "parse_json s = Some v"
proof -
  have "parse_value (2 * length s + 1 + n) 0 s = Some (v, r)"
    by (rule parse_mono_le(1) [OF assms(1)]) simp
  then show ?thesis using parse_json_fuel [of s n] assms by simp
qed

section \<open>Texts that read as a value, whatever follows\<close>

definition reads :: "nat \<Rightarrow> bytes \<Rightarrow> json \<Rightarrow> bool" where
  "reads d t v = (t \<noteq> [] \<and> value_start (hd t) \<and> (\<exists>n. \<forall>z. stops z \<longrightarrow> parse_value n d (t @ z) = Some (v, z)))"

definition reads_key :: "bytes \<Rightarrow> bytes \<Rightarrow> bool" where
  "reads_key t k = (t \<noteq> [] \<and> hd t = dquote \<and> (\<forall>z. skip_ws z = z \<longrightarrow> member_key (t @ z) = Some (k, z)))"

definition reads_members :: "nat \<Rightarrow> bytes \<Rightarrow> (bytes \<times> bytes \<times> json) list \<Rightarrow> bool" where
  "reads_members d t ms = (t \<noteq> [] \<and> hd t = dquote \<and> (\<exists>n. \<forall>z. parse_members n d (t @ z) = Some (ms, z)))"

definition reads_elems :: "nat \<Rightarrow> bytes \<Rightarrow> json list \<Rightarrow> bool" where
  "reads_elems d t vs = (t \<noteq> [] \<and> value_start (hd t) \<and> (\<exists>n. \<forall>z. parse_elems n d (t @ z) = Some (vs, z)))"

lemma reads_scalar:
  assumes "t \<noteq> []" and "value_start (hd t)" and "hd t \<noteq> CHR ''{''" and "hd t \<noteq> CHR ''[''"
    and "\<And>z. stops z \<Longrightarrow> scan_scalar (t @ z) = Some (v, z)"
  shows "reads d t v"
proof -
  have "parse_value (Suc 0) d (t @ z) = Some (v, z)" if "stops z" for z
    using assms(1,3,4) assms(5) [OF that] by (cases t) (simp_all add: parse_value.simps)
  then show ?thesis unfolding reads_def using assms(1,2) by blast
qed

lemma reads_str: "str_text t \<Longrightarrow> reads d (dquote # t @ [dquote]) (JStr t)"
  by (rule reads_scalar) (simp_all add: scan_scalar_def scan_str_text)

lemma scan_scalar_number:
  "c \<noteq> dquote \<Longrightarrow> c \<noteq> CHR ''t'' \<Longrightarrow> c \<noteq> CHR ''f'' \<Longrightarrow> c \<noteq> CHR ''n'' \<Longrightarrow>
     scan_scalar (c # r) = map_option (\<lambda>(t, q). (JNum t, q)) (scan_number (c # r))"
  by (simp add: scan_scalar_def)

lemma reads_num:
  assumes "t \<noteq> []" and "hd t = CHR ''-'' \<or> is_digit (hd t)" and "\<And>z. stops z \<Longrightarrow> scan_number (t @ z) = Some (t, z)"
  shows "reads d t (JNum t)"
proof (rule reads_scalar)
  obtain c r where t: "t = c # r" using assms(1) by (cases t) auto
  have c: "c \<noteq> dquote" "c \<noteq> CHR ''t''" "c \<noteq> CHR ''f''" "c \<noteq> CHR ''n''" "c \<noteq> CHR ''{''" "c \<noteq> CHR ''[''"
    using assms(2) t by (auto simp: is_digit_def byte_val_def)
  show "value_start (hd t)" "hd t \<noteq> CHR ''{''" "hd t \<noteq> CHR ''[''" using assms(2) t c by (auto simp: value_start_def)
  show "scan_scalar (t @ z) = Some (JNum t, z)" if "stops z" for z
    using scan_scalar_number [OF c(1-4), of "r @ z"] assms(3) [OF that] t by simp
qed (rule assms(1))

lemma reads_lits: "reads d ''true'' (JBool True)" "reads d ''false'' (JBool False)" "reads d ''null'' JNull"
  by (rule reads_scalar; simp add: scan_scalar_def scan_lit_def value_start_def)+

lemma reads_key_text:
  assumes "str_text k" and "list_all is_ws w" and "list_all is_ws w'"
  shows "reads_key (dquote # k @ dquote # w @ CHR '':'' # w') k"
  using scan_str_text [OF assms(1)] assms(2,3)
  by (simp add: reads_key_def member_key_def skip_ws_list skip_def)

lemma reads_empty_obj: "d < max_nesting_depth \<Longrightarrow> list_all is_ws w \<Longrightarrow> reads d (CHR ''{'' # w @ ''}'') (JObj [])"
  unfolding reads_def by (intro conjI exI [of _ "Suc 0"]) (simp_all add: parse_value.simps skip_ws_list)

lemma reads_empty_arr: "d < max_nesting_depth \<Longrightarrow> list_all is_ws w \<Longrightarrow> reads d (CHR ''['' # w @ '']'') (JArr [])"
  unfolding reads_def by (intro conjI exI [of _ "Suc 0"]) (simp_all add: parse_value.simps skip_ws_list)

lemma reads_obj:
  assumes "d < max_nesting_depth" and "list_all is_ws w" and "reads_members (Suc d) t ms"
  shows "reads d (CHR ''{'' # w @ t) (JObj ms)"
proof -
  obtain n where n: "\<And>z. parse_members n (Suc d) (t @ z) = Some (ms, z)" and t: "t \<noteq> []" "hd t = dquote"
    using assms(3) unfolding reads_members_def by blast
  have "parse_value (Suc n) d ((CHR ''{'' # w @ t) @ z) = Some (JObj ms, z)" for z
    using assms(1,2) n [of z] head_not [of t "CHR ''}''" z] skip_ws_start [of t z] t
    by (simp add: parse_value.simps skip_ws_list)
  then show ?thesis unfolding reads_def by auto
qed

lemma reads_arr:
  assumes "d < max_nesting_depth" and "list_all is_ws w" and "reads_elems (Suc d) t vs"
  shows "reads d (CHR ''['' # w @ t) (JArr vs)"
proof -
  obtain n where n: "\<And>z. parse_elems n (Suc d) (t @ z) = Some (vs, z)" and t: "t \<noteq> []" "value_start (hd t)"
    using assms(3) unfolding reads_elems_def by blast
  have "parse_value (Suc n) d ((CHR ''['' # w @ t) @ z) = Some (JArr vs, z)" for z
    using assms(1,2) n [of z] head_not [of t "CHR '']''" z] skip_ws_start [of t z] t value_start_facts [OF t(2)]
    by (simp add: parse_value.simps skip_ws_list)
  then show ?thesis unfolding reads_def by auto
qed

text \<open>A key in front of a value.\<close>

lemma key_then:
  assumes "reads_key tk k" and "t \<noteq> []" and "value_start (hd t)"
  shows "member_key (tk @ t @ z) = Some (k, t @ z)"
  using assms(1) skip_ws_start [OF assms(2,3)] unfolding reads_key_def by blast

lemma stops_ws: "list_all is_ws w \<Longrightarrow> closer c \<Longrightarrow> stops (w @ c # z)"
  by (cases w) (simp_all add: closer_def)

lemma reads_last_member:
  assumes "reads_key tk k" and "reads d t v" and "list_all is_ws w"
  shows "reads_members d (tk @ t @ w @ ''}'') [(k, t, v)]"
proof -
  obtain n where n: "\<And>z. stops z \<Longrightarrow> parse_value n d (t @ z) = Some (v, z)" and t: "t \<noteq> []" "value_start (hd t)"
    using assms(2) unfolding reads_def by blast
  have "parse_members (Suc n) d ((tk @ t @ w @ ''}'') @ z) = Some ([(k, t, v)], z)" for z
    using n [of "w @ CHR ''}'' # z"] key_then [OF assms(1) t, of "w @ CHR ''}'' # z"] stops_ws [OF assms(3), of "CHR ''}''" z]
      assms(3) by (simp add: parse_members.simps skip_ws_list)
  then show ?thesis using assms(1) unfolding reads_members_def reads_key_def by auto
qed

lemma reads_more_members:
  assumes "reads_key tk k" and "reads d t v" and "list_all is_ws w" and "list_all is_ws w'" and "reads_members d tm ms"
  shows "reads_members d (tk @ t @ w @ CHR '','' # w' @ tm) ((k, t, v) # ms)"
proof -
  obtain n where n: "\<And>z. stops z \<Longrightarrow> parse_value n d (t @ z) = Some (v, z)" and t: "t \<noteq> []" "value_start (hd t)"
    using assms(2) unfolding reads_def by blast
  obtain n' where n': "\<And>z. parse_members n' d (tm @ z) = Some (ms, z)" and tm: "tm \<noteq> []" "hd tm = dquote"
    using assms(5) unfolding reads_members_def by blast
  let ?n = "max n n'"
  have v: "parse_value ?n d (t @ z) = Some (v, z)" if "stops z" for z
    using n [OF that] by (rule parse_mono_le(1)) simp
  have m: "parse_members ?n d (tm @ z) = Some (ms, z)" for z
    using n' by (rule parse_mono_le(2)) simp
  have "parse_members (Suc ?n) d ((tk @ t @ w @ CHR '','' # w' @ tm) @ z) = Some ((k, t, v) # ms, z)" for z
    using v [of "w @ CHR '','' # w' @ tm @ z"] key_then [OF assms(1) t, of "w @ CHR '','' # w' @ tm @ z"]
      stops_ws [OF assms(3), of "CHR '',''" "w' @ tm @ z"] assms(3,4) m [of z] skip_ws_start [of tm z] tm
    by (simp add: parse_members.simps skip_ws_list)
  then show ?thesis using assms(1) unfolding reads_members_def reads_key_def by auto
qed

lemma reads_last_elem:
  assumes "reads d t v" and "list_all is_ws w"
  shows "reads_elems d (t @ w @ '']'') [v]"
proof -
  obtain n where n: "\<And>z. stops z \<Longrightarrow> parse_value n d (t @ z) = Some (v, z)" and t: "t \<noteq> []" "value_start (hd t)"
    using assms(1) unfolding reads_def by blast
  have "parse_elems (Suc n) d ((t @ w @ '']'') @ z) = Some ([v], z)" for z
    using n [of "w @ CHR '']'' # z"] stops_ws [OF assms(2), of "CHR '']''" z] assms(2)
    by (simp add: parse_elems.simps skip_ws_list)
  then show ?thesis using t unfolding reads_elems_def by auto
qed

lemma reads_more_elems:
  assumes "reads d t v" and "list_all is_ws w" and "list_all is_ws w'" and "reads_elems d tm vs"
  shows "reads_elems d (t @ w @ CHR '','' # w' @ tm) (v # vs)"
proof -
  obtain n where n: "\<And>z. stops z \<Longrightarrow> parse_value n d (t @ z) = Some (v, z)" and t: "t \<noteq> []" "value_start (hd t)"
    using assms(1) unfolding reads_def by blast
  obtain n' where n': "\<And>z. parse_elems n' d (tm @ z) = Some (vs, z)" and tm: "tm \<noteq> []" "value_start (hd tm)"
    using assms(4) unfolding reads_elems_def by blast
  let ?n = "max n n'"
  have v: "parse_value ?n d (t @ z) = Some (v, z)" if "stops z" for z
    using n [OF that] by (rule parse_mono_le(1)) simp
  have m: "parse_elems ?n d (tm @ z) = Some (vs, z)" for z
    using n' by (rule parse_mono_le(3)) simp
  have "parse_elems (Suc ?n) d ((t @ w @ CHR '','' # w' @ tm) @ z) = Some (v # vs, z)" for z
    using v [of "w @ CHR '','' # w' @ tm @ z"] stops_ws [OF assms(2), of "CHR '',''" "w' @ tm @ z"]
      assms(2,3) m [of z] skip_ws_start [OF tm, of z]
    by (simp add: parse_elems.simps skip_ws_list)
  then show ?thesis using t unfolding reads_elems_def by auto
qed

text \<open>What reads at some depth reads at a smaller one.\<close>

lemma parse_shallower:
  "parse_value n (Suc d) s = Some r \<Longrightarrow> parse_value n d s = Some r"
  "parse_members n (Suc d) s = Some rm \<Longrightarrow> parse_members n d s = Some rm"
  "parse_elems n (Suc d) s = Some re \<Longrightarrow> parse_elems n d s = Some re"
proof (induction n arbitrary: d s r rm re)
  case (Suc n)
  {
    case 1
    then show ?case
      by (subst parse_value.simps, subst (asm) parse_value.simps)
        (auto split: list.splits if_splits dest: Suc.IH(2,3))
  next
    case 2
    then obtain k s1 v s2 where m: "member_key s = Some (k, s1)" and v: "parse_value n (Suc d) s1 = Some (v, s2)"
      by (auto simp: Let_def parse_members.simps split: option.splits)
    show ?case using 2 m v Suc.IH(1) [OF v]
      by (subst parse_members.simps, subst (asm) parse_members.simps)
        (auto simp: Let_def split: list.splits if_splits dest: Suc.IH(2))
  next
    case 3
    then obtain v s2 where v: "parse_value n (Suc d) s = Some (v, s2)"
      by (auto simp: parse_elems.simps split: option.splits)
    show ?case using 3 v Suc.IH(1) [OF v]
      by (subst parse_elems.simps, subst (asm) parse_elems.simps)
        (auto split: list.splits if_splits dest: Suc.IH(3))
  }
qed (simp_all add: parse_value.simps parse_members.simps parse_elems.simps)

lemma reads_shallower: "reads (Suc d) t v \<Longrightarrow> reads d t v"
  unfolding reads_def using parse_shallower(1) by blast

lemma reads_parse_json:
  assumes "reads 0 t v"
  shows "parse_json t = Some v"
proof -
  obtain n where "parse_value n 0 t = Some (v, [])" using assms unfolding reads_def by (metis append_Nil2 stops_simps(1))
  moreover have "skip_ws t = t" using assms skip_ws_start [of t "[]"] by (simp add: reads_def)
  ultimately show ?thesis using parse_json_any_fuel by simp
qed

end
