(* ===== verification/Go_Recode.thy ===== *)
theory Go_Recode
  imports Go_Compact Go_Reads
begin

text \<open>
  The compact text of a JSON value reads as the same tree up to the spelling of its strings, so
  every struct decoded from it is the same. What was parsed from the front of an input reads as the
  same value on its own.
\<close>

section \<open>What compacting keeps\<close>

text \<open>Bytes the compact form keeps as they are.\<close>

definition kept :: "char \<Rightarrow> bool" where
  "kept c = (\<not> html_special c \<and> c \<noteq> CHR 0xE2 \<and> \<not> is_ws c \<and> c \<noteq> dquote \<and> 32 \<le> byte_val c)"

lemma compact_kept: "list_all kept x \<Longrightarrow> compact_from False (x @ r) = x @ compact_from False r"
  by (induction x) (auto simp: kept_def compact_from.simps dest: separator_head)

lemma compact_ws: "is_ws c \<Longrightarrow> compact_from False (c # r) = compact_from False r"
proof -
  assume "is_ws c"
  then have "\<not> html_special c" "c \<noteq> CHR 0xE2" by (auto simp: is_ws_def html_special_def byte_val_def)
  then show ?thesis using \<open>is_ws c\<close> separator_head by (auto simp: compact_from.simps)
qed

lemma compact_skip_ws [simp]: "compact_from False (skip_ws s) = compact_from False s"
  by (induction s) (simp_all add: skip_ws_def compact_ws)

lemma compact_ws_list: "list_all is_ws w \<Longrightarrow> compact_from False (w @ r) = compact_from False r"
  by (induction w) (simp_all add: compact_ws)

lemma compact_blank: "skip_ws s = [] \<Longrightarrow> compact_from False s = []"
  using compact_skip_ws [of s] by simp

lemma num_char_kept: "num_char c \<Longrightarrow> kept c"
  by (auto simp: num_char_def kept_def html_special_def is_ws_def is_digit_def byte_val_def)

lemma compact_dquote: "compact_from False (dquote # r) = dquote # compact_from True r"
  using separator_head [of dquote r]
  by (auto simp: compact_from.simps html_special_def is_ws_def byte_val_def)

lemma brackets_kept [simp]: "kept CHR ''{''" "kept CHR ''['' " "kept CHR ''}''" "kept CHR '']''" "kept CHR '',''" "kept CHR '':''"
  by (simp_all add: kept_def html_special_def is_ws_def byte_val_def)

text \<open>A text and its compact form, which has no control characters.\<close>

definition printable :: "char \<Rightarrow> bool" where "printable c = (32 \<le> byte_val c)"

definition recoded :: "bytes \<Rightarrow> bytes \<Rightarrow> bool" where
  "recoded t x = ((\<forall>z. compact_from False (t @ z) = x @ compact_from False z) \<and> list_all printable x)"

lemma recoded_append: "recoded t x \<Longrightarrow> recoded t' x' \<Longrightarrow> recoded (t @ t') (x @ x')"
  by (simp add: recoded_def)

lemma recoded_kept: "list_all kept t \<Longrightarrow> recoded t t"
  using compact_kept by (auto simp: recoded_def list_all_iff kept_def printable_def)

lemma recoded_Cons: "kept c \<Longrightarrow> recoded t x \<Longrightarrow> recoded (c # t) (c # x)"
  using recoded_append [OF recoded_kept, of "[c]"] by simp

lemma recoded_ws: "list_all is_ws w \<Longrightarrow> recoded w []"
  by (simp add: recoded_def compact_ws_list)

lemma str_text_printable: "str_text t \<Longrightarrow> list_all printable t"
proof (induction t rule: str_text.induct)
  case (uni h r)
  then show ?case by (auto simp: list_all_iff printable_def is_hex_def is_digit_def byte_val_def)
qed (auto simp: printable_def byte_val_def)

lemma recoded_string: "str_text t \<Longrightarrow> recoded (dquote # t @ [dquote]) (dquote # compact_from True t @ [dquote])"
  using compact_string [of t] str_text_printable [of "compact_from True t"]
  by (simp add: recoded_def compact_dquote) (simp add: printable_def byte_val_def)

lemma recoded_compact: "recoded t x \<Longrightarrow> compact_from False t = x"
  unfolding recoded_def by (metis append_Nil2 compact_from.simps(1))

section \<open>Trees up to the spelling of their strings\<close>

fun spelled :: "json \<Rightarrow> json" where
  "spelled (JStr s) = JStr (unquote s)"
| "spelled (JArr vs) = JArr (map spelled vs)"
| "spelled (JObj ms) = JObj (map (\<lambda>(k, raw, v). (unquote k, [], spelled v)) ms)"
| "spelled v = v"

definition spelled_members :: "(bytes \<times> bytes \<times> json) list \<Rightarrow> (bytes \<times> bytes \<times> json) list" where
  "spelled_members ms = map (\<lambda>(k, raw, v). (unquote k, [], spelled v)) ms"

lemma spelled_members_simps [simp]:
  "spelled_members [] = []"
  "spelled_members ((k, raw, v) # ms) = (unquote k, [], spelled v) # spelled_members ms"
  by (simp_all add: spelled_members_def)

lemma spelled_JObj [simp]: "spelled (JObj ms) = JObj (spelled_members ms)"
  by (simp add: spelled_members_def)

declare spelled.simps(3) [simp del]

section \<open>Parsed texts and their compact forms\<close>

lemma lit_recoded:
  assumes "scan_lit l j s = Some (v, q)" and "list_all kept l"
  shows "s = l @ q \<and> v = j \<and> recoded l l"
proof -
  have "take (length l) s = l" "q = drop (length l) s" "v = j" using assms(1)
    by (auto simp: scan_lit_def split: if_splits)
  then have "s = l @ q" "v = j" by (metis append_take_drop_id)+
  then show ?thesis using recoded_kept [OF assms(2)] by simp
qed

lemma lits_kept: "list_all kept ''true''" "list_all kept ''false''" "list_all kept ''null''"
  by (simp_all add: kept_def html_special_def is_ws_def byte_val_def)

text \<open>
  What was parsed from the front of \<open>s\<close>, leaving \<open>q\<close>: a text that reads as the value and whose compact
  form reads as a value with the same strings.
\<close>

definition value_again :: "nat \<Rightarrow> bytes \<Rightarrow> json \<Rightarrow> bytes \<Rightarrow> bool" where
  "value_again d s v q = (\<exists>t x v'. s = t @ q \<and> reads d t v \<and> recoded t x \<and> reads d x v' \<and> spelled v' = spelled v)"

definition key_again :: "bytes \<Rightarrow> bytes \<Rightarrow> bytes \<Rightarrow> bool" where
  "key_again s k q = (\<exists>t x k'. s = t @ q \<and> str_text k \<and> reads_key t k \<and> recoded t x \<and> reads_key x k' \<and> unquote k' = unquote k)"

definition members_again :: "nat \<Rightarrow> bytes \<Rightarrow> (bytes \<times> bytes \<times> json) list \<Rightarrow> bytes \<Rightarrow> bool" where
  "members_again d s ms q = (\<exists>t x ms'. s = t @ q \<and> reads_members d t ms \<and> recoded t x \<and> reads_members d x ms' \<and>
     spelled_members ms' = spelled_members ms)"

definition elems_again :: "nat \<Rightarrow> bytes \<Rightarrow> json list \<Rightarrow> bytes \<Rightarrow> bool" where
  "elems_again d s vs q = (\<exists>t x vs'. s = t @ q \<and> reads_elems d t vs \<and> recoded t x \<and> reads_elems d x vs' \<and>
     map spelled vs' = map spelled vs)"

lemma scalar_again:
  assumes "scan_scalar s = Some (v, q)"
  shows "value_again d s v q"
proof (cases s)
  case (Cons c r)
  consider (str) "c = dquote" | (t) "c = CHR ''t''" | (f) "c = CHR ''f''" | (n) "c = CHR ''n''"
    | (num) "c \<noteq> dquote" "c \<noteq> CHR ''t''" "c \<noteq> CHR ''f''" "c \<noteq> CHR ''n''" by blast
  then show ?thesis
  proof cases
    case str
    then obtain t where t: "scan_string r = Some (t, q)" "v = JStr t" using assms Cons by (auto simp: scan_scalar_def)
    have r: "r = t @ dquote # q" "str_text t" using scan_string_text [OF t(1)] by auto
    have c: "str_text (compact_from True t)" "unquote (compact_from True t) = unquote t" using compact_string [OF r(2)] by auto
    have "s = (dquote # t @ [dquote]) @ q" using Cons str r(1) by simp
    moreover have "spelled (JStr (compact_from True t)) = spelled v" using c t(2) by simp
    ultimately show ?thesis
      unfolding value_again_def using reads_str [OF r(2)] reads_str [OF c(1)] recoded_string [OF r(2)] t(2) by blast
  next
    case t
    then have "scan_lit ''true'' (JBool True) s = Some (v, q)" using assms Cons by (simp add: scan_scalar_def)
    from lit_recoded [OF this lits_kept(1)] show ?thesis unfolding value_again_def using reads_lits(1) by blast
  next
    case f
    then have "scan_lit ''false'' (JBool False) s = Some (v, q)" using assms Cons by (simp add: scan_scalar_def)
    from lit_recoded [OF this lits_kept(2)] show ?thesis unfolding value_again_def using reads_lits(2) by blast
  next
    case n
    then have "scan_lit ''null'' JNull s = Some (v, q)" using assms Cons by (simp add: scan_scalar_def)
    from lit_recoded [OF this lits_kept(3)] show ?thesis unfolding value_again_def using reads_lits(3) by blast
  next
    case num
    then obtain t where t: "scan_number s = Some (t, q)" "v = JNum t" using assms Cons by (auto simp: scan_scalar_def)
    note p = scan_number_prefix [OF t(1)]
    have "recoded t t" using p num_char_kept by (intro recoded_kept) (auto simp: list_all_iff)
    moreover have "reads d t (JNum t)" using p by (intro reads_num) blast+
    ultimately show ?thesis unfolding value_again_def using p t(2) by blast
  qed
qed (use assms in \<open>simp add: scan_scalar_def\<close>)

lemma key_parsed:
  assumes "member_key s = Some (k, s1)"
  shows "key_again s k s1"
proof -
  obtain r s2 s3 where s: "s = dquote # r" "scan_string r = Some (k, s2)" "skip (CHR '':'') (skip_ws s2) = Some s3" "s1 = skip_ws s3"
    using assms by (auto simp: member_key_def split: list.splits if_splits bind_splits)
  have r: "r = k @ dquote # s2" "str_text k" using scan_string_text [OF s(2)] by auto
  have s2: "skip_ws s2 = CHR '':'' # s3" using s(3) by (auto simp: skip_def split: list.splits if_splits)
  obtain w2 where w2: "s2 = w2 @ CHR '':'' # s3" "list_all is_ws w2" using skip_ws_split [of s2] s2 by metis
  obtain w3 where w3: "s3 = w3 @ s1" "list_all is_ws w3" using skip_ws_split [of s3] s(4) by metis
  let ?t = "dquote # k @ dquote # w2 @ CHR '':'' # w3" and ?k = "compact_from True k"
  have c: "str_text ?k" "unquote ?k = unquote k" using compact_string [OF r(2)] by auto
  have "s = ?t @ s1" using r(1) s(1) w2(1) w3(1) by simp
  moreover have "reads_key ?t k" by (rule reads_key_text [OF r(2) w2(2) w3(2)])
  moreover have "reads_key (dquote # ?k @ dquote # '':'') ?k" using reads_key_text [OF c(1), of "[]" "[]"] by simp
  moreover have "recoded ?t (dquote # ?k @ dquote # '':'')"
    using recoded_append [OF recoded_string [OF r(2)] recoded_append [OF recoded_ws [OF w2(2)]
        recoded_append [OF recoded_kept recoded_ws [OF w3(2)], of "'':''"]]]
    by simp
  ultimately show ?thesis unfolding key_again_def using c(2) r(2) by blast
qed

lemma obj_again:
  assumes "members_again (Suc d) r ms q" and "d < max_nesting_depth" and "list_all is_ws w"
  shows "value_again d (CHR ''{'' # w @ r) (JObj ms) q"
proof -
  obtain t x ms' where t: "r = t @ q" "reads_members (Suc d) t ms" "recoded t x" "reads_members (Suc d) x ms'"
    "spelled_members ms' = spelled_members ms"
    using assms(1) unfolding members_again_def by blast
  have "CHR ''{'' # w @ r = (CHR ''{'' # w @ t) @ q" using t(1) by simp
  moreover have "recoded (CHR ''{'' # w @ t) (CHR ''{'' # x)"
    using recoded_Cons [OF _ recoded_append [OF recoded_ws [OF assms(3)] t(3)]] by simp
  moreover have "reads d (CHR ''{'' # x) (JObj ms')" using reads_obj [OF assms(2) _ t(4), of "[]"] by simp
  ultimately show ?thesis
    unfolding value_again_def using reads_obj [OF assms(2,3) t(2)] t(5) spelled_JObj by metis
qed

lemma arr_again:
  assumes "elems_again (Suc d) r vs q" and "d < max_nesting_depth" and "list_all is_ws w"
  shows "value_again d (CHR ''['' # w @ r) (JArr vs) q"
proof -
  obtain t x vs' where t: "r = t @ q" "reads_elems (Suc d) t vs" "recoded t x" "reads_elems (Suc d) x vs'"
    "map spelled vs' = map spelled vs"
    using assms(1) unfolding elems_again_def by blast
  have "CHR ''['' # w @ r = (CHR ''['' # w @ t) @ q" using t(1) by simp
  moreover have "recoded (CHR ''['' # w @ t) (CHR ''['' # x)"
    using recoded_Cons [OF _ recoded_append [OF recoded_ws [OF assms(3)] t(3)]] by simp
  moreover have "reads d (CHR ''['' # x) (JArr vs')" using reads_arr [OF assms(2) _ t(4), of "[]"] by simp
  ultimately show ?thesis
    unfolding value_again_def using reads_arr [OF assms(2,3) t(2)] t(5) spelled.simps(2) by metis
qed

lemma empty_again:
  assumes "d < max_nesting_depth" and "list_all is_ws w"
  shows "value_again d (CHR ''{'' # w @ CHR ''}'' # q) (JObj []) q"
    and "value_again d (CHR ''['' # w @ CHR '']'' # q) (JArr []) q"
proof -
  have "recoded (CHR ''{'' # w @ ''}'') ''{}''" "recoded (CHR ''['' # w @ '']'') ''[]''"
    by (rule recoded_Cons, simp, rule recoded_append [OF recoded_ws [OF assms(2)] recoded_kept, simplified], simp)+
  moreover have "reads d ''{}'' (JObj [])" "reads d ''[]'' (JArr [])"
    using reads_empty_obj [OF assms(1), of "[]"] reads_empty_arr [OF assms(1), of "[]"] by simp_all
  ultimately show "value_again d (CHR ''{'' # w @ CHR ''}'' # q) (JObj []) q"
    "value_again d (CHR ''['' # w @ CHR '']'' # q) (JArr []) q"
    unfolding value_again_def using reads_empty_obj [OF assms] reads_empty_arr [OF assms]
    by (metis append_Cons append_Nil append_assoc)+
qed

lemma last_member_again:
  assumes "key_again s k s1" and "value_again d s1 v (w @ CHR ''}'' # q)" and "list_all is_ws w"
  shows "members_again d s [(k, take (length s1 - length (w @ CHR ''}'' # q)) s1, v)] q"
proof -
  obtain tk xk k' where k: "s = tk @ s1" "reads_key tk k" "recoded tk xk" "reads_key xk k'" "unquote k' = unquote k"
    using assms(1) unfolding key_again_def by blast
  obtain t x v' where t: "s1 = t @ w @ CHR ''}'' # q" "reads d t v" "recoded t x" "reads d x v'" "spelled v' = spelled v"
    using assms(2) unfolding value_again_def by blast
  have "recoded (tk @ t @ w @ ''}'') (xk @ x @ [] @ ''}'')"
    by (intro recoded_append k(3) t(3) recoded_ws assms(3) recoded_kept) simp
  moreover have "reads_members d (xk @ x @ [] @ ''}'') [(k', x, v')]" by (rule reads_last_member [OF k(4) t(4)]) simp
  moreover have "s = (tk @ t @ w @ ''}'') @ q" using k(1) t(1) by simp
  moreover have "spelled_members [(k', x, v')] = spelled_members [(k, t, v)]" using k(5) t(5) by simp
  moreover have "take (length s1 - length (w @ CHR ''}'' # q)) s1 = t" using t(1) by simp
  ultimately show ?thesis
    unfolding members_again_def using reads_last_member [OF k(2) t(2) assms(3)] by metis
qed

lemma more_members_again:
  assumes "key_again s k s1" and "value_again d s1 v (w @ CHR '','' # w' @ r)" and "members_again d r ms q"
    and "list_all is_ws w" and "list_all is_ws w'"
  shows "members_again d s ((k, take (length s1 - length (w @ CHR '','' # w' @ r)) s1, v) # ms) q"
proof -
  obtain tk xk k' where k: "s = tk @ s1" "reads_key tk k" "recoded tk xk" "reads_key xk k'" "unquote k' = unquote k"
    using assms(1) unfolding key_again_def by blast
  obtain t x v' where t: "s1 = t @ w @ CHR '','' # w' @ r" "reads d t v" "recoded t x" "reads d x v'" "spelled v' = spelled v"
    using assms(2) unfolding value_again_def by blast
  obtain tm xm ms' where m: "r = tm @ q" "reads_members d tm ms" "recoded tm xm" "reads_members d xm ms'"
    "spelled_members ms' = spelled_members ms"
    using assms(3) unfolding members_again_def by blast
  have "recoded (tk @ t @ w @ CHR '','' # w' @ tm) (xk @ x @ [] @ CHR '','' # [] @ xm)"
    by (intro recoded_append k(3) t(3) m(3) recoded_ws assms(4,5) recoded_Cons) simp
  moreover have "reads_members d (xk @ x @ [] @ CHR '','' # [] @ xm) ((k', x, v') # ms')"
    by (rule reads_more_members [OF k(4) t(4) _ _ m(4)]) simp_all
  moreover have "s = (tk @ t @ w @ CHR '','' # w' @ tm) @ q" using k(1) t(1) m(1) by simp
  moreover have "spelled_members ((k', x, v') # ms') = spelled_members ((k, t, v) # ms)" using k(5) t(5) m(5) by simp
  moreover have "take (length s1 - length (w @ CHR '','' # w' @ r)) s1 = t" using t(1) by simp
  ultimately show ?thesis
    unfolding members_again_def using reads_more_members [OF k(2) t(2) assms(4,5) m(2)] by metis
qed

lemma last_elem_again:
  assumes "value_again d s v (w @ CHR '']'' # q)" and "list_all is_ws w"
  shows "elems_again d s [v] q"
proof -
  obtain t x v' where t: "s = t @ w @ CHR '']'' # q" "reads d t v" "recoded t x" "reads d x v'" "spelled v' = spelled v"
    using assms(1) unfolding value_again_def by blast
  have "recoded (t @ w @ '']'') (x @ [] @ '']'')"
    by (intro recoded_append t(3) recoded_ws assms(2) recoded_kept) simp
  moreover have "reads_elems d (x @ [] @ '']'') [v']" by (rule reads_last_elem [OF t(4)]) simp
  moreover have "s = (t @ w @ '']'') @ q" "map spelled [v'] = map spelled [v]" using t(1,5) by simp_all
  ultimately show ?thesis
    unfolding elems_again_def using reads_last_elem [OF t(2) assms(2)] by metis
qed

lemma more_elems_again:
  assumes "value_again d s v (w @ CHR '','' # w' @ r)" and "elems_again d r vs q"
    and "list_all is_ws w" and "list_all is_ws w'"
  shows "elems_again d s (v # vs) q"
proof -
  obtain t x v' where t: "s = t @ w @ CHR '','' # w' @ r" "reads d t v" "recoded t x" "reads d x v'" "spelled v' = spelled v"
    using assms(1) unfolding value_again_def by blast
  obtain tm xm vs' where m: "r = tm @ q" "reads_elems d tm vs" "recoded tm xm" "reads_elems d xm vs'"
    "map spelled vs' = map spelled vs"
    using assms(2) unfolding elems_again_def by blast
  have "recoded (t @ w @ CHR '','' # w' @ tm) (x @ [] @ CHR '','' # [] @ xm)"
    by (intro recoded_append t(3) m(3) recoded_ws assms(3,4) recoded_Cons) simp
  moreover have "reads_elems d (x @ [] @ CHR '','' # [] @ xm) (v' # vs')"
    by (rule reads_more_elems [OF t(4) _ _ m(4)]) simp_all
  moreover have "s = (t @ w @ CHR '','' # w' @ tm) @ q" "map spelled (v' # vs') = map spelled (v # vs)"
    using t(1,5) m(1,5) by simp_all
  ultimately show ?thesis
    unfolding elems_again_def using reads_more_elems [OF t(2) assms(3,4) m(2)] by metis
qed

lemma parsed_again:
  "parse_value n d s = Some (v, q) \<Longrightarrow> value_again d s v q"
  "parse_members n d s = Some (ms, q) \<Longrightarrow> members_again d s ms q"
  "parse_elems n d s = Some (vs, q) \<Longrightarrow> elems_again d s vs q"
proof (induction n arbitrary: d s v q ms vs)
  case (Suc n)
  {
    case 1
    then obtain c r where s: "s = c # r" by (auto simp: parse_value.simps split: list.splits)
    obtain w where w: "r = w @ skip_ws r" "list_all is_ws w" using skip_ws_split by blast
    consider (obj) "c = CHR ''{''" | (arr) "c = CHR ''[''" | (scalar) "c \<noteq> CHR ''{''" "c \<noteq> CHR ''[''" by blast
    then show ?case
    proof cases
      case obj
      have d: "d < max_nesting_depth" using 1 s obj by (auto simp: parse_value.simps split: if_splits)
      show ?thesis
      proof (cases "take 1 (skip_ws r) = ''}''")
        case True
        then have "v = JObj []" "skip_ws r = CHR ''}'' # q" using 1 s obj d
          by (cases "skip_ws r"; simp add: parse_value.simps)+
        then show ?thesis using empty_again(1) [OF d w(2), of q] s obj w(1) by metis
      next
        case False
        then obtain m where "parse_members n (Suc d) (skip_ws r) = Some (m, q)" "v = JObj m"
          using 1 s obj d by (auto simp: parse_value.simps)
        then show ?thesis using obj_again [OF Suc.IH(2) d w(2)] s obj w(1) by metis
      qed
    next
      case arr
      have d: "d < max_nesting_depth" using 1 s arr by (auto simp: parse_value.simps split: if_splits)
      show ?thesis
      proof (cases "take 1 (skip_ws r) = '']''")
        case True
        then have "v = JArr []" "skip_ws r = CHR '']'' # q" using 1 s arr d
          by (cases "skip_ws r"; simp add: parse_value.simps)+
        then show ?thesis using empty_again(2) [OF d w(2), of q] s arr w(1) by metis
      next
        case False
        then obtain m where "parse_elems n (Suc d) (skip_ws r) = Some (m, q)" "v = JArr m"
          using 1 s arr d by (auto simp: parse_value.simps)
        then show ?thesis using arr_again [OF Suc.IH(3) d w(2)] s arr w(1) by metis
      qed
    next
      case scalar
      then have "scan_scalar s = Some (v, q)" using 1 s by (simp add: parse_value.simps)
      then show ?thesis by (rule scalar_again)
    qed
  next
    case 2
    then obtain k s1 v' s2 c r where m: "member_key s = Some (k, s1)" and v: "parse_value n d s1 = Some (v', s2)"
      and s2: "skip_ws s2 = c # r" by (auto simp: parse_members.simps Let_def split: option.splits list.splits)
    have c: "c = CHR ''}'' \<or> c = CHR '',''" using 2 m v s2 by (auto simp: parse_members.simps Let_def split: if_splits)
    obtain w where w: "s2 = w @ c # r" "list_all is_ws w" using skip_ws_split [of s2] s2 by metis
    obtain w' where w': "r = w' @ skip_ws r" "list_all is_ws w'" using skip_ws_split by blast
    note va = Suc.IH(1) [OF v, unfolded w(1)] and ka = key_parsed [OF m]
    show ?case
    proof (cases "c = CHR ''}''")
      case True
      then have "ms = [(k, take (length s1 - length s2) s1, v')]" "q = r" using 2 m v s2
        by (simp_all add: parse_members.simps Let_def)
      then show ?thesis using last_member_again [OF ka _ w(2)] va True w(1) by metis
    next
      case False
      then obtain ms2 where "parse_members n d (skip_ws r) = Some (ms2, q)" "ms = (k, take (length s1 - length s2) s1, v') # ms2"
        using 2 m v s2 c by (auto simp: parse_members.simps Let_def)
      then show ?thesis using more_members_again [OF ka _ Suc.IH(2) w(2) w'(2)] va False c w(1) w'(1) by metis
    qed
  next
    case 3
    then obtain v' s2 c r where v: "parse_value n d s = Some (v', s2)" and s2: "skip_ws s2 = c # r"
      by (auto simp: parse_elems.simps split: option.splits list.splits)
    have c: "c = CHR '']'' \<or> c = CHR '',''" using 3 v s2 by (auto simp: parse_elems.simps split: if_splits)
    obtain w where w: "s2 = w @ c # r" "list_all is_ws w" using skip_ws_split [of s2] s2 by metis
    obtain w' where w': "r = w' @ skip_ws r" "list_all is_ws w'" using skip_ws_split by blast
    note va = Suc.IH(1) [OF v, unfolded w(1)]
    show ?case
    proof (cases "c = CHR '']''")
      case True
      then have "vs = [v']" "q = r" using 3 v s2 by (simp_all add: parse_elems.simps)
      then show ?thesis using last_elem_again [OF _ w(2)] va True by metis
    next
      case False
      then obtain vs2 where "parse_elems n d (skip_ws r) = Some (vs2, q)" "vs = v' # vs2"
        using 3 v s2 c by (auto simp: parse_elems.simps)
      then show ?thesis using more_elems_again [OF _ Suc.IH(3) w(2) w'(2)] va False c w'(1) by metis
    qed
  }
qed (simp_all add: parse_value.simps parse_members.simps parse_elems.simps)

section \<open>Decoding the compact text\<close>

text \<open>A field decoder that looks at a string only through \<open>unquote\<close>, and not at the raw text.\<close>

definition plain_decoder :: "'r field_decoder \<Rightarrow> bool" where
  "plain_decoder f = (\<forall>raw raw' j j' r. spelled j = spelled j' \<longrightarrow> f raw j r = f raw' j' r)"

lemma spelled_cases:
  "spelled j = spelled j' \<Longrightarrow> (j = JNull \<longleftrightarrow> j' = JNull) \<and> as_string j = as_string j' \<and> as_bool j = as_bool j' \<and>
     as_uint64 j = as_uint64 j' \<and> as_int j = as_int j' \<and> as_float64 j = as_float64 j'"
  by (cases j; cases j')
    (simp_all add: as_string_def as_bool_def as_uint64_def as_int_def as_float64_def)

lemma plain_decoders:
  "plain_decoder (dec_field as_string st)" "plain_decoder (dec_field as_bool st2)" "plain_decoder (dec_field as_uint64 st3)"
  "plain_decoder (dec_field as_int st4)" "plain_decoder (dec_field as_float64 st5)"
  unfolding plain_decoder_def dec_field_def by (intro allI impI; drule spelled_cases; simp)+

lemma decode_members_spelled:
  assumes "\<forall>(n, f)\<in>set fs. plain_decoder f"
  shows "spelled_members ms = spelled_members ms' \<Longrightarrow> decode_members fs ms r = decode_members fs ms' r"
proof (induction ms arbitrary: ms' r)
  case Nil
  then show ?case by (cases ms') auto
next
  case (Cons m ms)
  obtain k raw j where m: "m = (k, raw, j)" by (cases m)
  obtain k' raw' j' ms2 where m': "ms' = (k', raw', j') # ms2" "unquote k = unquote k'" "spelled j = spelled j'"
    "spelled_members ms = spelled_members ms2"
    using Cons.prems m by (cases ms') auto
  show ?case
  proof (cases "find_field fs (unquote k')")
    case None
    then show ?thesis using Cons.IH [OF m'(4)] m m' by simp
  next
    case (Some f)
    then obtain n where "(n, f) \<in> set fs" by (auto simp: find_field_def split: option.splits dest!: map_of_SomeD)
    then have "plain_decoder f" using assms by auto
    then have "f raw j r = f raw' j' r" using m'(3) by (simp add: plain_decoder_def)
    then show ?thesis using Cons.IH [OF m'(4)] m m' Some by (simp split: option.split)
  qed
qed

lemma decode_struct_spelled:
  assumes "\<forall>(n, f)\<in>set fs. plain_decoder f" and "spelled j = spelled j'"
  shows "decode_struct fs j r = decode_struct fs j' r"
proof (cases j)
  case (JObj ms)
  then obtain ms' where ms': "j' = JObj ms'" "spelled_members ms = spelled_members ms'" using assms(2) by (cases j') auto
  show ?thesis using JObj ms'(1) decode_members_spelled [OF assms(1) ms'(2), of r] by (simp add: decode_struct_def)
qed (use assms(2) in \<open>cases j'; simp add: decode_struct_def; fail\<close>)+

text \<open>The compact text of a value that reads.\<close>

lemma compact_reads:
  assumes "reads d t v"
  shows "\<exists>v'. reads d (compact_from False t) v' \<and> spelled v' = spelled v \<and> list_all printable (compact_from False t)"
proof -
  obtain n where "parse_value n d t = Some (v, [])"
    using assms unfolding reads_def by (metis append_Nil2 stops_simps(1))
  then obtain x v' where x: "recoded t x" "reads d x v'" "spelled v' = spelled v"
    using parsed_again(1) unfolding value_again_def by (metis append_Nil2)
  have "compact_from False t = x" by (rule recoded_compact [OF x(1)])
  moreover have "list_all printable x" using x(1) by (simp add: recoded_def)
  ultimately show ?thesis using x by blast
qed

lemma parse_json_reads:
  assumes "parse_json s = Some v"
  obtains t where "reads 0 t v" "compact_from False s = compact_from False t"
proof -
  obtain r where p: "parse_value (2 * length s + 1) 0 (skip_ws s) = Some (v, r)" "skip_ws r = []"
    using assms by (auto simp: parse_json_def split: option.splits if_splits)
  obtain t x where t: "skip_ws s = t @ r" "reads 0 t v" "recoded t x"
    using parsed_again(1) [OF p(1)] unfolding value_again_def by blast
  then have "compact_from False (skip_ws s) = compact_from False t"
    using compact_blank [OF p(2)] recoded_compact [OF t(3)] by (simp add: recoded_def)
  then show thesis using that t(2) by simp
qed

lemma unmarshal_compact:
  assumes "\<forall>(n, f)\<in>set fs. plain_decoder f" and "compact s = Some c"
  shows "unmarshal fs r c = unmarshal fs r s"
proof -
  obtain v where v: "parse_json s = Some v" "c = compact_from False s" using assms(2) by (auto simp: compact_def split: if_splits)
  obtain t where t: "reads 0 t v" "c = compact_from False t" using parse_json_reads [OF v(1)] v(2) by metis
  obtain v' where v': "reads 0 c v'" "spelled v' = spelled v" using compact_reads [OF t(1)] t(2) by auto
  show ?thesis using v reads_parse_json [OF v'(1)] decode_struct_spelled [OF assms(1) v'(2)]
    by (simp add: unmarshal_def)
qed

end
