(* ===== verification/Message_Json.thy ===== *)
theory Message_Json
  imports Protocol Go_Recode
begin

text \<open>
  \<open>json.Marshal\<close> on a \<open>TelemetryMessage\<close>, as the recorder and the simulator's sender call it, and what
  \<open>json.Unmarshal\<close> makes of the result. A timestamp is written in the time zone it carries, which is
  an argument here (whole minutes, as RFC 3339 has them).
\<close>

declare parse_value.simps [simp del] parse_members.simps [simp del] parse_elems.simps [simp del] unquote.simps(2) [simp del]

section \<open>Objects\<close>

fun members_text :: "(bytes \<times> bytes) list \<Rightarrow> bytes" where
  "members_text [] = []"
| "members_text ((k, t) # kts) =
     marshal_string k @ CHR '':'' # t @ (if kts = [] then [] else CHR '','' # members_text kts)"

definition object_text :: "(bytes \<times> bytes) list \<Rightarrow> bytes" where
  "object_text kts = CHR ''{'' # members_text kts @ [CHR ''}'']"

definition object_tree :: "(bytes \<times> bytes) list \<Rightarrow> json list \<Rightarrow> (bytes \<times> bytes \<times> json) list" where
  "object_tree kts vs = map (\<lambda>((k, t), v). (escape_string k, t, v)) (zip kts vs)"

lemma object_tree_simps [simp]:
  "object_tree [] vs = []" "object_tree ((k, t) # kts) (v # vs) = (escape_string k, t, v) # object_tree kts vs"
  by (simp_all add: object_tree_def)

lemma members_reads:
  assumes "kts \<noteq> []" and "list_all2 (\<lambda>(k, t) v. reads d t v) kts vs"
  shows "reads_members d (members_text kts @ ''}'') (object_tree kts vs)"
  using assms
proof (induction kts arbitrary: vs)
  case (Cons kt kts)
  obtain k t where kt: "kt = (k, t)" by fastforce
  obtain v vs' where vs: "vs = v # vs'" "reads d t v" "list_all2 (\<lambda>(k, t) v. reads d t v) kts vs'"
    using Cons.prems(2) kt by (auto simp: list_all2_Cons1)
  have k: "reads_key (dquote # escape_string k @ dquote # '':'') (escape_string k)"
    using reads_key_text [OF str_text_escape_string, of "[]" "[]"] by simp
  show ?case
  proof (cases "kts = []")
    case True
    then show ?thesis using reads_last_member [OF k vs(2), of "[]"] kt vs(1) by (simp add: marshal_string_def)
  next
    case False
    then show ?thesis using reads_more_members [OF k vs(2) _ _ Cons.IH [OF False vs(3)], of "[]" "[]"] kt vs(1)
      by (simp add: marshal_string_def)
  qed
qed simp

lemma object_reads:
  assumes "kts \<noteq> []" and "list_all2 (\<lambda>(k, t) v. reads (Suc d) t v) kts vs" and "d < max_nesting_depth"
  shows "reads d (object_text kts) (JObj (object_tree kts vs))"
  using reads_obj [OF assms(3) _ members_reads [OF assms(1,2)], of "[]"] by (simp add: object_text_def)

section \<open>Values\<close>

lemma reads_string: "reads d (marshal_string s) (JStr (escape_string s))"
  using reads_str [OF str_text_escape_string] by (simp add: marshal_string_def)

text \<open>A text without characters to escape stands in quotes as it is.\<close>

definition time_char :: "char \<Rightarrow> bool" where "time_char c = (is_digit c \<or> c \<in> set ''-+:.TZ'')"

lemma str_text_time: "list_all time_char s \<Longrightarrow> str_text s"
  by (induction s) (auto intro!: str_text.intros simp: time_char_def is_digit_def byte_val_def)

lemma time_char_digit [simp]: "time_char (digit (n mod 10))"
  by (simp add: time_char_def)

lemma format_time_chars:
  assumes "format_rfc3339 zone t = Some s"
  shows "list_all time_char s"
proof -
  have pad2: "list_all time_char (pad2 n)" for n by (simp add: pad2_def)
  have pads: "list_all time_char (pad2 n)" "list_all time_char (pad4 n)" for n
    by (rule pad2) (simp only: pad4_def list_all_append pad2 simp_thms)
  have "list_all time_char (pad_digits k n)" for k n
    by (induction k arbitrary: n) simp_all
  then have "list_all time_char (format_frac ns)" for ns
    using set_dropWhileD [of _ "\<lambda>c. c = CHR ''0''" "rev (pad_digits 9 ns)"]
    by (auto simp: format_frac_def list_all_iff time_char_def)
  moreover have "list_all time_char (format_zone zone)" by (simp add: format_zone_def pads time_char_def)
  ultimately show ?thesis using assms pads
    by (auto simp: format_rfc3339_def Let_def time_char_def split: prod.splits if_splits)
qed

lemma scan_digits1_all:
  assumes "list_all is_digit ds" "ds \<noteq> []" "z = [] \<or> \<not> is_digit (hd z)"
  shows "scan_digits1 (ds @ z) = Some (ds, z)"
proof -
  have "takeWhile is_digit (ds @ z) = ds" "dropWhile is_digit (ds @ z) = z"
    using assms by (cases z; simp add: takeWhile_append2 dropWhile_append2 list_all_iff)+
  then show ?thesis using assms(2) by (simp add: scan_digits1_def)
qed

lemma reads_decimal: "reads d (decimal n) (JNum (decimal n))"
proof (rule reads_num)
  obtain c r where c: "decimal n = c # r" "is_digit c" using decimal_digits [of n] by (cases "decimal n") auto
  have neq: "c \<noteq> CHR ''-''" using c(2) by (auto simp: is_digit_def byte_val_def)
  show "decimal n \<noteq> []" "hd (decimal n) = CHR ''-'' \<or> is_digit (hd (decimal n))" using c by simp_all
  show "scan_number (decimal n @ z) = Some (decimal n, z)" if z: "stops z" for z
  proof -
    have z': "z = [] \<or> \<not> is_digit (hd z) \<and> hd z \<noteq> CHR ''.'' \<and> hd z \<noteq> CHR ''e'' \<and> hd z \<noteq> CHR ''E''"
      using z closer_not [of "hd z"] by (auto simp: stops_def)
    have "scan_int (decimal n @ z) = Some (decimal n, z)"
    proof (cases "n = 0")
      case False
      then have "c \<noteq> CHR ''0''" using decimal_head [of n] c by simp
      then show ?thesis using scan_digits1_all [of "decimal n" z] decimal_digits [of n] z' c by (auto simp: scan_int_def)
    qed (simp add: decimal_0 scan_int_def)
    moreover have "scan_frac z = Some ([], z)" "scan_exp z = Some ([], z)"
      using z' by (cases z; simp add: scan_frac_def scan_exp_def)+
    ultimately show ?thesis using c neq by (simp add: scan_number_def)
  qed
qed

lemma parse_uint64_decimal: "parse_uint64 (decimal (unat (w :: u64))) = Some w"
  using decimal_digits [of "unat w"] digits_val_decimal [of "unat w"] unsigned_less [of w, where 'a = int]
  by (simp add: parse_uint64_def)

section \<open>A message\<close>

text \<open>
  \<open>RawMessage.MarshalJSON\<close> writes a nil message as \<open>null\<close> and the package compacts the rest; a
  syntax error in it, or an instant whose year or offset RFC 3339 does not have, is an error.
\<close>

definition marshal_raw :: "bytes \<Rightarrow> bytes option" where
  "marshal_raw s = (if s = [] then Some ''null'' else compact s)"

definition marshal_time :: "int \<Rightarrow> time \<Rightarrow> bytes option" where
  "marshal_time zone t = map_option (\<lambda>s. dquote # s @ [dquote]) (format_rfc3339 zone t)"

definition marshal_message :: "int \<Rightarrow> TelemetryMessage \<Rightarrow> bytes option" where
  "marshal_message zone m =
     Option.bind (marshal_time zone (Timestamp m)) (\<lambda>ts.
       map_option (\<lambda>data. object_text
         [(''sensor_id'', marshal_string (SensorID m)),
          (''sensor_type'', marshal_string (SensorType m)),
          (''sequence'', decimal (unat (Sequence m))),
          (''timestamp'', ts),
          (''data'', data)]) (marshal_raw (Data m)))"

text \<open>The message the text stands for: what JSON cannot spell is gone.\<close>

definition canonical :: "TelemetryMessage \<Rightarrow> TelemetryMessage" where
  "canonical m = m\<lparr>SensorID := to_valid (SensorID m), SensorType := to_valid (SensorType m),
     Data := if Data m = [] then ''null'' else compact_from False (Data m)\<rparr>"

text \<open>Data that is a JSON value one level down, as in a decoded message.\<close>

definition data_reads :: "TelemetryMessage \<Rightarrow> bool" where
  "data_reads m = (Data m = [] \<or> (\<exists>v. reads 1 (Data m) v))"

lemma field_names:
  "find_field TelemetryMessage_fields (to_valid ''sensor_id'') = Some (dec_field as_string (\<lambda>v m. m\<lparr>SensorID := v\<rparr>))"
  "find_field TelemetryMessage_fields (to_valid ''sensor_type'') = Some (dec_field as_string (\<lambda>v m. m\<lparr>SensorType := v\<rparr>))"
  "find_field TelemetryMessage_fields (to_valid ''sequence'') = Some (dec_field as_uint64 (\<lambda>v m. m\<lparr>Sequence := v\<rparr>))"
  "find_field TelemetryMessage_fields (to_valid ''timestamp'') = Some (dec_field as_time (\<lambda>v m. m\<lparr>Timestamp := v\<rparr>))"
  "find_field TelemetryMessage_fields (to_valid ''data'') = Some (dec_raw (\<lambda>v m. m\<lparr>Data := v\<rparr>))"
  by (simp_all add: to_valid_ascii byte_val_def find_field_def TelemetryMessage_fields_def)

lemma marshalled_data_reads:
  assumes "data_reads m" and "marshal_raw (Data m) = Some d"
  shows "d = Data (canonical m) \<and> list_all printable d \<and> (\<exists>v. reads 1 d v)"
proof (cases "Data m = []")
  case True
  then have "d = ''null''" using assms(2) by (simp add: marshal_raw_def)
  then show ?thesis using True reads_lits(3) by (auto simp: canonical_def printable_def byte_val_def)
next
  case False
  then obtain v where "reads 1 (Data m) v" using assms(1) by (auto simp: data_reads_def)
  from compact_reads [OF this] show ?thesis
    using False assms(2) by (auto simp: marshal_raw_def compact_def canonical_def split: if_splits)
qed

lemma unmarshal_marshal:
  assumes "marshal_message zone m = Some b" and "data_reads m"
  shows "unmarshal TelemetryMessage_fields zero_TelemetryMessage b = Some (canonical m)"
proof -
  obtain ts d where ts: "format_rfc3339 zone (Timestamp m) = Some ts" and d: "marshal_raw (Data m) = Some d"
    and b: "b = object_text [(''sensor_id'', marshal_string (SensorID m)), (''sensor_type'', marshal_string (SensorType m)),
      (''sequence'', decimal (unat (Sequence m))), (''timestamp'', dquote # ts @ [dquote]), (''data'', d)]"
    (is "b = object_text ?kts")
    using assms(1) by (auto simp: marshal_message_def marshal_time_def split: bind_splits)
  obtain v where v: "d = Data (canonical m)" "reads 1 d v" using marshalled_data_reads [OF assms(2) d] by blast
  let ?vs = "[JStr (escape_string (SensorID m)), JStr (escape_string (SensorType m)),
    JNum (decimal (unat (Sequence m))), JStr ts, v]"
  have "str_text ts" by (rule str_text_time [OF format_time_chars [OF ts]])
  then have "list_all2 (\<lambda>(k, t) v. reads 1 t v) ?kts ?vs"
    using v(2) by (simp add: reads_string reads_decimal reads_str)
  then have "reads 0 b (JObj (object_tree ?kts ?vs))"
    unfolding b by (intro object_reads) (simp_all add: max_nesting_depth_def)
  then have "parse_json b = Some (JObj (object_tree ?kts ?vs))" by (rule reads_parse_json)
  moreover have "decode_members TelemetryMessage_fields (object_tree ?kts ?vs) zero_TelemetryMessage = Some (canonical m)"
    using parse_format [OF ts] parse_uint64_decimal [of "Sequence m"] v(1)
    by (simp add: unquote_escape_string field_names dec_field_def dec_raw_def as_string_def as_uint64_def as_time_def
        canonical_def zero_TelemetryMessage_def)
  ultimately show ?thesis by (simp add: unmarshal_def decode_struct_def)
qed

section \<open>Decoded messages\<close>

lemma parsed_string: "parse_value n d s = Some (JStr t, q) \<Longrightarrow> str_text t"
  by (cases n; cases s)
    (auto simp: parse_value.simps scan_scalar_def scan_lit_def split: if_splits dest: scan_string_text)

text \<open>The members of a parsed object: each raw text reads as the member's value.\<close>

definition member_ok :: "nat \<Rightarrow> bytes \<Rightarrow> json \<Rightarrow> bool" where
  "member_ok d raw v = (reads d raw v \<and> (\<forall>t. v = JStr t \<longrightarrow> str_text t))"

lemma members_ok:
  "parse_members n d s = Some (ms, q) \<Longrightarrow> \<forall>(k, raw, v)\<in>set ms. member_ok d raw v"
proof (induction n arbitrary: s ms q)
  case (Suc n)
  then obtain k s1 v s2 c r where m: "member_key s = Some (k, s1)" and v: "parse_value n d s1 = Some (v, s2)"
    and s2: "skip_ws s2 = c # r" by (auto simp: parse_members.simps Let_def split: option.splits list.splits)
  obtain t where t: "s1 = t @ s2" "reads d t v" using parsed_again(1) [OF v] unfolding value_again_def by blast
  have ok: "member_ok d t v" using t(2) parsed_string v by (auto simp: member_ok_def)
  have "ms = [(k, t, v)] \<or> (\<exists>ms2. parse_members n d (skip_ws r) = Some (ms2, q) \<and> ms = (k, t, v) # ms2)"
    using Suc.prems m v s2 t(1) by (auto simp: parse_members.simps Let_def split: if_splits)
  then show ?case
  proof
    assume "\<exists>ms2. parse_members n d (skip_ws r) = Some (ms2, q) \<and> ms = (k, t, v) # ms2"
    then obtain ms2 where "parse_members n d (skip_ws r) = Some (ms2, q)" "ms = (k, t, v) # ms2" by blast
    then show ?thesis using ok Suc.IH [of "skip_ws r" ms2 q] by simp
  qed (use ok in simp)
qed (simp add: parse_members.simps)

lemma parsed_object:
  assumes "parse_json s = Some (JObj ms)"
  shows "\<forall>(k, raw, v)\<in>set ms. member_ok 1 raw v"
proof -
  obtain n q where p: "parse_value n 0 (skip_ws s) = Some (JObj ms, q)"
    using assms by (auto simp: parse_json_def split: option.splits if_splits)
  obtain m where n: "n = Suc m" using p by (cases n) (auto simp: parse_value.simps)
  have "ms = [] \<or> (\<exists>r. parse_members m (Suc 0) r = Some (ms, q))"
    using p unfolding n
    by (auto simp: parse_value.simps scan_scalar_def scan_lit_def split: list.splits if_splits)
  then show ?thesis using members_ok unfolding One_nat_def by fastforce
qed

lemma decode_members_on:
  assumes "\<And>n f raw j r r'. (n, f) \<in> set fs \<Longrightarrow> Q raw j \<Longrightarrow> P r \<Longrightarrow> f raw j r = Some r' \<Longrightarrow> P r'"
    and "\<forall>(k, raw, j)\<in>set ms. Q raw j" and "P r" and "decode_members fs ms r = Some r'"
  shows "P r'"
  using assms(2,3,4)
proof (induction ms arbitrary: r)
  case (Cons m ms)
  obtain k raw j where m: "m = (k, raw, j)" by (cases m)
  show ?case
  proof (cases "find_field fs (unquote k)")
    case None
    then show ?thesis using Cons m by simp
  next
    case (Some f)
    then obtain n where n: "(n, f) \<in> set fs"
      by (auto simp: find_field_def split: option.splits dest!: map_of_SomeD)
    obtain r1 where r1: "f raw j r = Some r1" "decode_members fs ms r1 = Some r'"
      using Cons.prems(3) m Some by (auto split: option.splits)
    have q: "Q raw j" "\<forall>(k, raw, j)\<in>set ms. Q raw j" using Cons.prems(1) m by auto
    show ?thesis using Cons.IH [OF q(2) assms(1) [OF n q(1) Cons.prems(2) r1(1)] r1(2)] .
  qed
qed simp

text \<open>The type of a decoded message: its ids are UTF-8, its data a JSON value.\<close>

definition decoded :: "TelemetryMessage \<Rightarrow> bool" where
  "decoded m = (to_valid (SensorID m) = SensorID m \<and> to_valid (SensorType m) = SensorType m \<and> data_reads m)"

lemma unmarshal_decoded:
  assumes "unmarshal TelemetryMessage_fields zero_TelemetryMessage s = Some m"
  shows "decoded m"
proof -
  have zero: "decoded zero_TelemetryMessage" by (simp add: decoded_def zero_TelemetryMessage_def data_reads_def)
  obtain j where j: "parse_json s = Some j" "decode_struct TelemetryMessage_fields j zero_TelemetryMessage = Some m"
    using assms by (auto simp: unmarshal_def split: option.splits)
  show ?thesis
  proof (cases j)
    case (JObj ms)
    then have d: "decode_members TelemetryMessage_fields ms zero_TelemetryMessage = Some m" using j(2) by (simp add: decode_struct_def)
    have "decoded r'" if "(n, f) \<in> set TelemetryMessage_fields" "member_ok 1 raw j" "decoded r" "f raw j r = Some r'" for n f raw j r r'
      using that to_valid_unquote
      by (auto simp: TelemetryMessage_fields_def decoded_def data_reads_def member_ok_def dec_field_def dec_raw_def as_string_def
          split: if_splits json.splits)
    from decode_members_on [where P = decoded and Q = "member_ok 1", OF this parsed_object [OF j(1) [unfolded JObj]] zero d]
    show ?thesis .
  next
    case JNull
    then show ?thesis using j(2) zero by (simp add: decode_struct_def)
  qed (use j(2) in \<open>simp_all add: decode_struct_def\<close>)
qed

text \<open>Its canonical form differs from it only in the spelling of its data, and is decoded the same.\<close>

lemma canonical_decoded:
  assumes "decoded m"
  shows "SensorID (canonical m) = SensorID m \<and> SensorType (canonical m) = SensorType m \<and>
    Sequence (canonical m) = Sequence m \<and> Timestamp (canonical m) = Timestamp m"
  using assms by (simp add: canonical_def decoded_def)

lemma decoded_data_compact:
  assumes "decoded m" and "Data m \<noteq> []"
  shows "compact (Data m) = Some (Data (canonical m))"
proof -
  obtain v where "reads (Suc 0) (Data m) v" using assms by (auto simp: decoded_def data_reads_def)
  then have "parse_json (Data m) = Some v" by (rule reads_parse_json [OF reads_shallower])
  then show ?thesis using assms(2) by (simp add: compact_def canonical_def)
qed

lemma marshal_decoded:
  assumes "decoded m"
  shows "marshal_message zone m = None \<longleftrightarrow> format_rfc3339 zone (Timestamp m) = None"
proof -
  have "marshal_raw (Data m) \<noteq> None" using decoded_data_compact [OF assms] by (auto simp: marshal_raw_def)
  then show ?thesis unfolding marshal_message_def marshal_time_def
    by (cases "format_rfc3339 zone (Timestamp m)"; cases "marshal_raw (Data m)") simp_all
qed

lemma canonical_payload:
  assumes "decoded m" and "Data m \<noteq> []" and "\<forall>(n, f)\<in>set fs. plain_decoder f"
  shows "unmarshal fs r (Data (canonical m)) = unmarshal fs r (Data m)"
  using unmarshal_compact [OF assms(3) decoded_data_compact [OF assms(1,2)]] .

end
