(* ===== verification/Ingestion.thy ===== *)
theory Ingestion
  imports Protocol Go_Chan
begin

text \<open>
  internal/ingestion: what the UDP and the TCP listener share. Both parse and count an input the
  same way, remember the last error, and hand the result on through one of two channels, giving
  up when the listener stops. Log output is not modelled, and the texts of the last error and of
  the errors on the error channel are kept as structured values with the same contents.
\<close>

section \<open>State and operations of a listener\<close>

type_synonym addr = bytes
type_synonym io_error = bytes

datatype ingest_error = IoError io_error | FromRemote addr parse_error

datatype last_error =
    ReadErrorFrom addr io_error
  | ParseErrorFrom addr parse_error
  | AcceptError io_error

record listener =
  messagesChan :: "TelemetryMessage chan"
  errorsChan :: "ingest_error chan"
  l_stopClosed :: bool
  l_isRunning :: bool
  messagesReceived :: u64
  messagesRejected :: u64
  lastErrorTime :: time
  lastErrorMessage :: "last_error option"

definition new_listener :: "nat \<Rightarrow> listener" where
  "new_listener bufferSize =
     \<lparr>messagesChan = make_chan bufferSize, errorsChan = make_chan 10, l_stopClosed = False,
      l_isRunning = False, messagesReceived = 0, messagesRejected = 0, lastErrorTime = 0,
      lastErrorMessage = None\<rparr>"

text \<open>A socket of the listener: absent, open or closed.\<close>

datatype conn_state = NoConn | Open | Closed

text \<open>A reader is waiting for input, is offering an error or a message, or has returned.\<close>

datatype rx = Reading | Reporting ingest_error | Delivering TelemetryMessage | Finished

text \<open>One input: parse, validate, count, remember the error.\<close>

definition ingest :: "time \<Rightarrow> addr \<Rightarrow> bytes \<Rightarrow> 'a listener_scheme \<Rightarrow> rx \<times> 'a listener_scheme" where
  "ingest now remote raw l =
     (case ParseTelemetryMessage now raw of
        Inl err \<Rightarrow> (Reporting (FromRemote remote err),
          l\<lparr>messagesRejected := messagesRejected l + 1, lastErrorTime := now,
            lastErrorMessage := Some (ParseErrorFrom remote err)\<rparr>)
      | Inr msg \<Rightarrow> (Delivering msg, l\<lparr>messagesReceived := messagesReceived l + 1\<rparr>))"

text \<open>The send branch of the two selects that hand an input on, as a step of the reader; None is
  waiting, and \<open>Panics\<close> a send on a closed channel.\<close>

datatype 'l offer_result = Offered 'l | Panics

definition offer :: "rx \<Rightarrow> 'a listener_scheme \<Rightarrow> 'a listener_scheme offer_result option" where
  "offer r l = (case r of
       Reporting e \<Rightarrow> (case chan_send e (errorsChan l) of
           Sent c \<Rightarrow> Some (Offered (l\<lparr>errorsChan := c\<rparr>))
         | SendBlocks \<Rightarrow> None
         | SendPanics \<Rightarrow> Some Panics)
     | Delivering m \<Rightarrow> (case chan_send m (messagesChan l) of
           Sent c \<Rightarrow> Some (Offered (l\<lparr>messagesChan := c\<rparr>))
         | SendBlocks \<Rightarrow> None
         | SendPanics \<Rightarrow> Some Panics)
     | _ \<Rightarrow> None)"

record ListenerStats =
  ls_MessagesReceived :: u64
  ls_MessagesRejected :: u64
  ls_LastErrorTime :: time
  ls_LastErrorMessage :: "last_error option"
  ls_IsRunning :: bool

definition UDP_Stats :: "'a listener_scheme \<Rightarrow> ListenerStats" where
  "UDP_Stats l = \<lparr>ls_MessagesReceived = messagesReceived l, ls_MessagesRejected = messagesRejected l,
     ls_LastErrorTime = lastErrorTime l, ls_LastErrorMessage = lastErrorMessage l,
     ls_IsRunning = l_isRunning l\<rparr>"

text \<open>The messages among the outcomes of several inputs.\<close>

definition oks :: "('e + 'm) list \<Rightarrow> 'm list" where
  "oks xs = concat (map (\<lambda>x. case x of Inl e \<Rightarrow> [] | Inr m \<Rightarrow> [m]) xs)"

lemma oks_simps [simp]: "oks [] = []" "oks (xs @ ys) = oks xs @ oks ys" "oks [Inl e] = []" "oks [Inr m] = [m]"
  by (simp_all add: oks_def)

lemma oks_le: "length (oks xs) \<le> length xs"
  by (induction xs) (auto simp: oks_def split: sum.split)

text \<open>The message a reader still holds.\<close>

fun held :: "rx \<Rightarrow> TelemetryMessage list" where
  "held (Delivering m) = [m]"
| "held _ = []"

section \<open>A good and a bad input\<close>

definition good_input :: bytes where
  "good_input = ''{\"sensor_id\":\"g\",\"sensor_type\":\"gps\",\"sequence\":7,\"timestamp\":\"2024-01-02T03:04:05Z\",\"data\":{}}''"

definition sample_now :: time where "sample_now = 63839761445000000000"

definition sample_input_message :: TelemetryMessage where
  "sample_input_message = \<lparr>SensorID = ''g'', SensorType = ''gps'', Sequence = 7,
     Timestamp = 63839761445000000000, Data = ''{}''\<rparr>"

lemma good_input_accepted: "ParseTelemetryMessage sample_now good_input = Inr sample_input_message"
  by code_simp

lemma bad_input_rejected: "ParseTelemetryMessage now ''{'' = Inl (ParseFailed ''failed to parse JSON'')"
proof -
  have "unmarshal TelemetryMessage_fields zero_TelemetryMessage ''{'' = None" by code_simp
  then show ?thesis by (simp add: ParseTelemetryMessage_def)
qed

lemma good_input_length [simp]: "take 65507 good_input = good_input" "good_input \<noteq> []"
  by (simp_all add: good_input_def)

end
