(* ===== verification/Message_Lines.thy ===== *)
theory Message_Lines
  imports Message_Json Go_Scan Ingestion Worker
begin

text \<open>
  Messages as lines of JSON, the format the recorder writes and the simulator sends over TCP: a
  marshalled message is one line that the scanner delivers as it is, and the parser accepts it again,
  with a payload that is checked with the same result.
\<close>

section \<open>Lines\<close>

text \<open>The lines of the messages that can be marshalled.\<close>

definition lines_of :: "(int \<times> TelemetryMessage) list \<Rightarrow> bytes list" where
  "lines_of zms = List.map_filter (\<lambda>(zone, m). marshal_message zone m) zms"

lemma lines_of_simps [simp]:
  "lines_of [] = []"
  "lines_of ((zone, m) # zms) = (case marshal_message zone m of None \<Rightarrow> lines_of zms | Some b \<Rightarrow> b # lines_of zms)"
  by (simp_all add: lines_of_def List.map_filter_simps split: option.split)

lemma join_lines_simps [simp]:
  "join_lines [] = []" "join_lines (l # ls) = l @ newline # join_lines ls"
  by (simp_all add: join_lines_def)

lemma join_lines_append [simp]: "join_lines (xs @ ys) = join_lines xs @ join_lines ys"
  by (simp add: join_lines_def)

lemma lines_of_append [simp]: "lines_of (xs @ ys) = lines_of xs @ lines_of ys"
  by (simp add: lines_of_def List.map_filter_def)

text \<open>The line of a message has no newline and is not changed by the scanner.\<close>

lemma marshalled_line:
  assumes "marshal_message zone m = Some b" and "data_reads m"
  shows "newline \<notin> set b \<and> drop_cr b = b \<and> b \<noteq> []"
proof -
  obtain ts d where ts: "format_rfc3339 zone (Timestamp m) = Some ts" and d: "marshal_raw (Data m) = Some d"
    and b: "b = object_text [(''sensor_id'', marshal_string (SensorID m)), (''sensor_type'', marshal_string (SensorType m)),
      (''sequence'', decimal (unat (Sequence m))), (''timestamp'', dquote # ts @ [dquote]), (''data'', d)]"
    using assms(1) by (auto simp: marshal_message_def marshal_time_def split: bind_splits)
  have str: "list_all printable (marshal_string s)" for s
    using str_text_printable [OF str_text_escape_string [of s]] by (simp add: marshal_string_def printable_def byte_val_def)
  have "list_all printable ts" using str_text_printable [OF str_text_time [OF format_time_chars [OF ts]]] .
  moreover have "list_all printable (decimal n)" for n
    using decimal_digits [of n] by (auto simp: list_all_iff printable_def is_digit_def)
  moreover have "list_all printable d" using marshalled_data_reads [OF assms(2) d] by blast
  ultimately have "list_all printable b" unfolding b object_text_def
    using str by (simp add: printable_def byte_val_def)
  moreover have "\<not> printable newline" by (simp add: printable_def byte_val_def)
  moreover have "b \<noteq> [] \<and> last b = CHR ''}''" unfolding b by (simp add: object_text_def)
  ultimately show ?thesis by (auto simp: list_all_iff drop_cr_def)
qed

lemma scan_short_lines:
  assumes "\<forall>l\<in>set ls. newline \<notin> set l \<and> drop_cr l = l \<and> l \<noteq> []"
  shows "scan_lines limit (join_lines ls) =
    (takeWhile (\<lambda>l. length l < limit) ls, \<exists>l\<in>set ls. limit \<le> length l)"
  using assms
proof (induction ls)
  case (Cons l ls)
  then show ?case using scan_lines_cons [of l limit "join_lines ls"] scan_lines_too_long [of l limit "join_lines ls"]
    by (cases "length l < limit") (auto simp: not_less)
qed simp

section \<open>Payloads\<close>

lemma plain_payload_fields:
  "\<forall>(n, f)\<in>set GPSData_fields. plain_decoder f" "\<forall>(n, f)\<in>set DroneData_fields. plain_decoder f"
  "\<forall>(n, f)\<in>set VehicleData_fields. plain_decoder f" "\<forall>(n, f)\<in>set TemperatureSensorData_fields. plain_decoder f"
  "\<forall>(n, f)\<in>set RadarData_fields. plain_decoder f" "\<forall>(n, f)\<in>set PatientVitalsData_fields. plain_decoder f"
  by (simp_all add: GPSData_fields_def DroneData_fields_def VehicleData_fields_def TemperatureSensorData_fields_def
      RadarData_fields_def PatientVitalsData_fields_def plain_decoders)

lemma canonical_check:
  assumes "decoded m" and "Data m \<noteq> []"
  shows "check_payload (canonical m) = check_payload m"
  using canonical_decoded [OF assms(1)] plain_payload_fields [THEN canonical_payload [OF assms]]
  by (simp add: check_payload_def ParseGPSData_def ParseDroneData_def ParseVehicleData_def ParseTemperatureSensorData_def
      ParseRadarData_def ParsePatientVitals_def)

lemma accepted_decoded:
  assumes "ParseTelemetryMessage now raw = Inr m"
  shows "decoded m \<and> Data m \<noteq> []"
  using assms unmarshal_decoded [of raw m]
  by (auto simp: ParseTelemetryMessage_def ValidateTelemetryMessage_def split: option.splits if_splits)

lemma canonical_accepted:
  assumes "ParseTelemetryMessage now raw = Inr m" and "marshal_message zone m = Some b"
  shows "ParseTelemetryMessage now b = Inr (canonical m)"
proof -
  have m: "decoded m" "Data m \<noteq> []" using accepted_decoded [OF assms(1)] by auto
  have u: "unmarshal TelemetryMessage_fields zero_TelemetryMessage b = Some (canonical m)"
    using unmarshal_marshal [OF assms(2)] m(1) by (simp add: decoded_def)
  obtain v where "reads 1 (Data m) v" using m by (auto simp: decoded_def data_reads_def)
  then obtain v' where "reads 1 (compact_from False (Data m)) v'" using compact_reads by blast
  then have "Data (canonical m) \<noteq> []" using m(2) by (auto simp: canonical_def reads_def)
  moreover have "ValidateTelemetryMessage now m = None"
    using assms(1) by (auto simp: ParseTelemetryMessage_def split: option.splits)
  ultimately have "ValidateTelemetryMessage now (canonical m) = None"
    using canonical_decoded [OF m(1)] m(2) by (auto simp: ValidateTelemetryMessage_def split: if_splits)
  then show ?thesis using u by (simp add: ParseTelemetryMessage_def)
qed

section \<open>The same message\<close>

text \<open>
  Two JSON texts have the same content when they are the same tree with the same numbers and, after
  decoding, the same strings. Two messages are the same when they have the same ids, sequence number
  and instant, data of the same content, and payloads on which the server comes to the same verdict.
\<close>

definition same_content :: "bytes \<Rightarrow> bytes \<Rightarrow> bool" where
  "same_content d d' = (parse_json d \<noteq> None \<and> map_option spelled (parse_json d') = map_option spelled (parse_json d))"

definition same_message :: "TelemetryMessage \<Rightarrow> TelemetryMessage \<Rightarrow> bool" where
  "same_message m m' = (SensorID m' = SensorID m \<and> SensorType m' = SensorType m \<and> Sequence m' = Sequence m \<and>
     Timestamp m' = Timestamp m \<and> same_content (Data m) (Data m') \<and> check_payload m' = check_payload m)"

lemma canonical_content:
  assumes "decoded m" and "Data m \<noteq> []"
  shows "same_content (Data m) (Data (canonical m))"
proof -
  obtain v where v: "reads (Suc 0) (Data m) v" using assms by (auto simp: decoded_def data_reads_def)
  obtain v' where v': "reads (Suc 0) (Data (canonical m)) v'" "spelled v' = spelled v"
    using compact_reads [OF v] assms(2) by (auto simp: canonical_def)
  show ?thesis
    using reads_parse_json [OF reads_shallower [OF v]] reads_parse_json [OF reads_shallower [OF v'(1)]] v'(2)
    by (simp add: same_content_def)
qed

lemma canonical_same:
  assumes "ParseTelemetryMessage now raw = Inr m"
  shows "same_message m (canonical m)"
  using accepted_decoded [OF assms] canonical_decoded [of m] canonical_content [of m] canonical_check [of m]
  by (simp add: same_message_def)

text \<open>The year of an instant where the clock is \<open>zone\<close> minutes ahead, and what RFC 3339 can write.\<close>

definition local_year :: "int \<Rightarrow> time \<Rightarrow> int" where
  "local_year zone t = fst (date_of ((t + zone * 60 * second) div second div 86400))"

definition writable :: "int \<times> TelemetryMessage \<Rightarrow> bool" where
  "writable = (\<lambda>(zone, m). 0 \<le> local_year zone (Timestamp m) \<and> local_year zone (Timestamp m) \<le> 9999 \<and> \<bar>zone\<bar> < 1440)"

lemma writable_format: "writable (zone, m) \<longleftrightarrow> format_rfc3339 zone (Timestamp m) \<noteq> None"
  by (simp add: writable_def local_year_def format_rfc3339_def Let_def split: prod.split)

lemma marshal_writable: "decoded m \<Longrightarrow> marshal_message zone m \<noteq> None \<longleftrightarrow> writable (zone, m)"
  using marshal_decoded [of m zone] writable_format [of zone m] by simp

lemma marshal_sample: "marshal_message 0 sample_input_message = Some good_input"
  by code_simp

end
