(* ===== verification/Recorder.thy ===== *)
theory Recorder
  imports Replay Message_Lines
begin

text \<open>
  internal/replay/recorder.go: appending accepted messages to a JSON Lines file. The file system is
  a map from paths to contents; the outcome of opening and of each write is given by the
  environment, a failing write having put some of its bytes in the file. \<open>Record\<close> holds its mutex
  over the write and the file is opened with \<open>O_APPEND\<close>, so the calls of several goroutines are a
  sequence of calls in the order they take the mutex.
\<close>

section \<open>The recorder\<close>

datatype 'e os_error = ErrClosed | OsError 'e

datatype 'e record_error = OpenEventFile 'e | MarshalEvent | WriteEvent "'e os_error"

record EventRecorder =
  event_file :: bytes
  closed :: bool

type_synonym file_system = "bytes \<rightharpoonup> bytes"

definition contents :: "file_system \<Rightarrow> bytes \<Rightarrow> bytes" where
  "contents fs p = (case fs p of None \<Rightarrow> [] | Some d \<Rightarrow> d)"

definition NewEventRecorder :: "bytes \<Rightarrow> 'e option \<Rightarrow> file_system \<Rightarrow> ('e record_error + EventRecorder) \<times> file_system" where
  "NewEventRecorder p openErr fs =
     (case openErr of
        Some e \<Rightarrow> (Inl (OpenEventFile e), fs)
      | None \<Rightarrow> (Inr \<lparr>event_file = p, closed = False\<rparr>, fs(p \<mapsto> contents fs p)))"

text \<open>A write: None is success, \<open>Some (n, e)\<close> the error \<open>e\<close> after \<open>n\<close> bytes.\<close>

type_synonym 'e write_result = "(nat \<times> 'e) option"

definition append_file :: "'e write_result \<Rightarrow> EventRecorder \<Rightarrow> bytes \<Rightarrow> file_system \<Rightarrow> 'e os_error option \<times> file_system" where
  "append_file io r d fs =
     (if closed r then (Some ErrClosed, fs)
      else case io of
        None \<Rightarrow> (None, fs(event_file r \<mapsto> contents fs (event_file r) @ d))
      | Some (n, e) \<Rightarrow> (Some (OsError e), fs(event_file r \<mapsto> contents fs (event_file r) @ take n d)))"

definition Recorder_Record :: "'e write_result \<Rightarrow> EventRecorder \<Rightarrow> int \<Rightarrow> TelemetryMessage \<Rightarrow> file_system \<Rightarrow>
    'e record_error option \<times> file_system" where
  "Recorder_Record io r zone msg fs =
     (case marshal_message zone msg of
        None \<Rightarrow> (Some MarshalEvent, fs)
      | Some data \<Rightarrow> (case append_file io r (data @ [newline]) fs of
            (Some err, fs') \<Rightarrow> (Some (WriteEvent err), fs')
          | (None, fs') \<Rightarrow> (None, fs')))"

definition Recorder_Close :: "EventRecorder \<Rightarrow> 'e os_error option \<times> EventRecorder" where
  "Recorder_Close r = (if closed r then (Some ErrClosed, r) else (None, r\<lparr>closed := True\<rparr>))"

text \<open>A sequence of calls whose writes succeed; a message is given with the zone of its timestamp.\<close>

fun record_events :: "EventRecorder \<Rightarrow> (int \<times> TelemetryMessage) list \<Rightarrow> file_system \<Rightarrow> unit record_error option list \<times> file_system" where
  "record_events r [] fs = ([], fs)"
| "record_events r ((zone, m) # zms) fs =
     (let (e, fs1) = Recorder_Record None r zone m fs; (es, fs2) = record_events r zms fs1 in (e # es, fs2))"

text \<open>What a player reads of the file.\<close>

definition readable :: "file_system \<Rightarrow> bytes \<rightharpoonup> bytes \<times> 'e option" where
  "readable fs p = map_option (\<lambda>d. (d, None)) (fs p)"

section \<open>Recorded lines\<close>

lemma record_events_file:
  assumes "\<not> closed r" and "fs (event_file r) = Some d"
  shows "snd (record_events r zms fs) (event_file r) = Some (d @ join_lines (lines_of zms)) \<and>
    fst (record_events r zms fs) = map (\<lambda>(zone, m). if marshal_message zone m = None then Some MarshalEvent else None) zms"
  using assms(2)
proof (induction zms arbitrary: fs d)
  case (Cons zm zms)
  obtain zone m where zm: "zm = (zone, m)" by fastforce
  show ?case
  proof (cases "marshal_message zone m")
    case None
    then show ?thesis using Cons.IH [of fs d] Cons.prems zm by (simp add: Recorder_Record_def case_prod_unfold Let_def)
  next
    case (Some b)
    define fs' where "fs' = fs(event_file r \<mapsto> d @ b @ [newline])"
    have "Recorder_Record None r zone m fs = (None :: unit record_error option, fs')"
      using assms(1) Some Cons.prems by (simp add: Recorder_Record_def append_file_def contents_def fs'_def)
    moreover have "fs' (event_file r) = Some (d @ b @ [newline])" by (simp add: fs'_def)
    ultimately show ?thesis using Cons.IH [of fs' "d @ b @ [newline]"] zm Some by (simp add: case_prod_unfold Let_def)
  qed
qed simp

lemma line_messages_Cons [simp]:
  "l \<noteq> [] \<Longrightarrow> line_messages (l # ls) = unmarshal TelemetryMessage_fields zero_TelemetryMessage l # line_messages ls"
  by (simp add: line_messages_def)

lemma lines_of_replay:
  assumes "\<forall>(zone, m)\<in>set zms. decoded m"
  shows "(\<forall>l\<in>set (lines_of zms). newline \<notin> set l \<and> drop_cr l = l \<and> l \<noteq> []) \<and>
    line_messages (lines_of zms) = map (Some \<circ> canonical \<circ> snd) (filter (\<lambda>(zone, m). marshal_message zone m \<noteq> None) zms)"
  using assms
proof (induction zms)
  case (Cons zm zms)
  obtain zone m where zm: "zm = (zone, m)" by fastforce
  have m: "data_reads m" "\<forall>(zone, m)\<in>set zms. decoded m" using Cons.prems zm by (simp_all add: decoded_def)
  note IH = Cons.IH [OF m(2)]
  show ?case
  proof (cases "marshal_message zone m")
    case None
    then show ?thesis using IH zm by simp
  next
    case (Some b)
    have u: "unmarshal TelemetryMessage_fields zero_TelemetryMessage b = Some (canonical m)"
      by (rule unmarshal_marshal [OF Some m(1)])
    show ?thesis using IH marshalled_line [OF Some m(1)] zm Some u by simp
  qed
qed (simp add: line_messages_def)

section \<open>A recorded file\<close>

definition short_line :: "int \<times> TelemetryMessage \<Rightarrow> bool" where
  "short_line = (\<lambda>(zone, m). case marshal_message zone m of None \<Rightarrow> True | Some b \<Rightarrow> length b < maxLineSize)"

lemma short_line_simps [simp]:
  "marshal_message zone m = None \<Longrightarrow> short_line (zone, m)"
  "marshal_message zone m = Some b \<Longrightarrow> short_line (zone, m) = (length b < maxLineSize)"
  by (simp_all add: short_line_def)

lemma lines_takeWhile:
  "takeWhile (\<lambda>l. length l < maxLineSize) (lines_of zms) = lines_of (takeWhile short_line zms) \<and>
    ((\<exists>l\<in>set (lines_of zms). maxLineSize \<le> length l) \<longleftrightarrow> \<not> list_all short_line zms)"
proof (induction zms)
  case (Cons zm zms)
  obtain zone m where zm: "zm = (zone, m)" by fastforce
  show ?case using Cons by (cases "marshal_message zone m") (auto simp: zm not_less)
qed simp

lemma handle_collect: "fold (\<lambda>m s. snd (collect m s)) ms s = s @ ms"
  by (induction ms arbitrary: s) (simp_all add: collect_def)

text \<open>The lines of decoded messages come back as these messages, up to a line that fills the buffer.\<close>

lemma replay_file:
  assumes dec: "\<forall>(zone, m)\<in>set zms. decoded m" and recd: "fs p = Some (join_lines (lines_of zms))"
  shows "Replay (NewPlayer p) (readable fs) (\<lambda>_. None) collect [] =
    (let ms = map (canonical \<circ> snd) (filter writable (takeWhile short_line zms))
     in (length ms, if list_all short_line zms then None else Some (ScanFailed None), ms))"
proof -
  have w: "marshal_message zone m \<noteq> None \<longleftrightarrow> writable (zone, m)" if "(zone, m) \<in> set zms" for zone m
    using marshal_writable dec that by blast
  let ?zms = "takeWhile short_line zms"
  have dec': "\<forall>(zone, m)\<in>set ?zms. decoded m" using dec by (auto dest: set_takeWhileD)
  have "filter (\<lambda>(zone, m). marshal_message zone m \<noteq> None) ?zms = filter writable ?zms"
    by (rule filter_cong [OF refl]) (use w in \<open>auto dest: set_takeWhileD\<close>)
  then have lm: "line_messages (lines_of ?zms) = map Some (map (canonical \<circ> snd) (filter writable ?zms))"
    using lines_of_replay [OF dec'] by simp
  show ?thesis
    using recd lines_of_replay [OF dec] lines_takeWhile [of zms]
      replay_lines_all [OF lm, of collect "\<lambda>_. None"]
    by (simp add: Replay_def NewPlayer_def readable_def scan_short_lines scan_error_def Let_def handle_collect)
      (simp add: collect_def)
qed

section \<open>Properties\<close>

text \<open>
  Property C23. What the listeners accept is well typed: the sensor id and type are valid UTF-8 (the
  escapes, unpaired surrogates and broken sequences of the input having been replaced), and the data
  is the text of exactly one JSON value, with no white space around it.
\<close>

theorem accepted_message_typed:
  assumes "ParseTelemetryMessage now raw = Inr m"
  shows "to_valid (SensorID m) = SensorID m \<and> to_valid (SensorType m) = SensorType m \<and>
    parse_json (Data m) \<noteq> None \<and> skip_ws (Data m) = Data m"
proof -
  have m: "decoded m" "Data m \<noteq> []" using accepted_decoded [OF assms] by auto
  then obtain v where v: "reads (Suc 0) (Data m) v" by (auto simp: decoded_def data_reads_def)
  then have "skip_ws (Data m) = Data m" using skip_ws_start [of "Data m" "[]"] by (simp add: reads_def)
  moreover have "parse_json (Data m) = Some v" by (rule reads_parse_json [OF reads_shallower [OF v]])
  ultimately show ?thesis using m(1) by (simp add: decoded_def)
qed

theorem accepted_message_typed_witness:
  "to_valid (SensorID sample_input_message) = SensorID sample_input_message \<and>
   parse_json (Data sample_input_message) \<noteq> None"
  using accepted_message_typed [OF good_input_accepted] by blast

text \<open>
  Property C22. A message that was accepted can be written as JSON exactly when its timestamp can: the year
  it has at its offset is from 0 to 9999 and the offset is less than 24 hours. The text is then one
  line that is accepted again, as a message with the same sensor, sequence number and instant, with data
  of the same JSON content (the same tree, numbers and decoded strings) and with the same verdict of
  the payload check.
\<close>

theorem marshal_roundtrip:
  assumes "ParseTelemetryMessage now raw = Inr m"
  shows "(marshal_message zone m = None \<longleftrightarrow>
      \<not> (0 \<le> local_year zone (Timestamp m) \<and> local_year zone (Timestamp m) \<le> 9999 \<and> \<bar>zone\<bar> < 1440)) \<and>
    (\<forall>b. marshal_message zone m = Some b \<longrightarrow> newline \<notin> set b \<and> (\<exists>m'. ParseTelemetryMessage now b = Inr m' \<and>
        SensorID m' = SensorID m \<and> SensorType m' = SensorType m \<and> Sequence m' = Sequence m \<and>
        Timestamp m' = Timestamp m \<and> parse_json (Data m) \<noteq> None \<and>
        map_option spelled (parse_json (Data m')) = map_option spelled (parse_json (Data m)) \<and>
        check_payload m' = check_payload m))"
proof -
  have m: "decoded m" using accepted_decoded [OF assms] by blast
  have w: "marshal_message zone m = None \<longleftrightarrow>
      \<not> (0 \<le> local_year zone (Timestamp m) \<and> local_year zone (Timestamp m) \<le> 9999 \<and> \<bar>zone\<bar> < 1440)"
    using marshal_writable [OF m, of zone] by (auto simp: writable_def)
  have b: "newline \<notin> set b \<and> ParseTelemetryMessage now b = Inr (canonical m)" if "marshal_message zone m = Some b" for b
    using marshalled_line [OF that] canonical_accepted [OF assms that] m by (simp add: decoded_def)
  show ?thesis
    using w b canonical_same [OF assms] unfolding same_message_def same_content_def by blast
qed

theorem marshal_roundtrip_witness:
  "\<exists>m'. ParseTelemetryMessage sample_now good_input = Inr m' \<and> Sequence m' = 7 \<and>
    map_option spelled (parse_json (Data m')) = map_option spelled (parse_json (Data sample_input_message)) \<and>
    check_payload m' = check_payload sample_input_message"
proof -
  have "Sequence sample_input_message = 7" by (simp add: sample_input_message_def)
  then show ?thesis
    using marshal_roundtrip [OF good_input_accepted, of 0] marshal_sample by metis
qed

text \<open>
  Property C21. Recording accepted messages, with every write succeeding, into a file that is new or holds
  only lines recorded before, and replaying that file. A message whose timestamp cannot be written is
  reported by \<open>Record\<close> and left out. The replay hands over, in order, the earlier and then the new
  messages that were written, up to the first whose line is 1 MiB or longer: there, and only there, it
  ends with an error, and nothing from there on is handed over. What is handed over is the canonical form of
  each message, the same message with its data respelled.
\<close>

theorem recorded_then_replayed:
  assumes "\<forall>(zone, m)\<in>set (old @ zms). \<exists>now raw. ParseTelemetryMessage now raw = Inr m"
    and "NewEventRecorder p (None :: unit option) fs = (Inr r, fs1)" and "contents fs p = join_lines (lines_of old)"
    and "record_events r zms fs1 = (errs, fs2)"
  shows "errs = map (\<lambda>zm. if writable zm then None else Some MarshalEvent) zms \<and>
    Replay (NewPlayer p) (readable fs2) (\<lambda>_. None) collect [] =
      (let ms = map snd (filter writable (takeWhile short_line (old @ zms)))
       in (length ms, if list_all short_line (old @ zms) then None else Some (ScanFailed None), map canonical ms)) \<and>
    (\<forall>(zone, m)\<in>set (old @ zms). same_message m (canonical m))"
proof -
  have dec: "\<forall>(zone, m)\<in>set (old @ zms). decoded m" using assms(1) accepted_decoded by fastforce
  have w: "marshal_message zone m \<noteq> None \<longleftrightarrow> writable (zone, m)" if "(zone, m) \<in> set zms" for zone m
    using marshal_writable dec that by (metis (no_types, lifting) UnI2 case_prodD set_append)
  have r: "\<not> closed r" "event_file r = p" "fs1 p = Some (join_lines (lines_of old))"
    using assms(2,3) by (auto simp: NewEventRecorder_def)
  have rec: "fs2 p = Some (join_lines (lines_of (old @ zms)))"
    "errs = map (\<lambda>(zone, m). if marshal_message zone m = None then Some MarshalEvent else None) zms"
    using record_events_file [OF r(1), of fs1 "join_lines (lines_of old)" zms] r(2,3) assms(4) by auto
  have errs: "errs = map (\<lambda>zm. if writable zm then None else Some MarshalEvent) zms"
    unfolding rec(2) by (rule map_cong [OF refl]) (use w in fastforce)
  have same: "\<forall>(zone, m)\<in>set (old @ zms). same_message m (canonical m)"
    using assms(1) canonical_same by fastforce
  show ?thesis using replay_file [where zms = "old @ zms" and fs = fs2 and p = p, OF dec rec(1)] errs same by (simp only: Let_def map_map length_map simp_thms)
qed

text \<open>The second message is recorded at an offset that cannot be written.\<close>

theorem recorded_then_replayed_witness:
  "\<exists>r fs1 errs fs2. NewEventRecorder ''f'' (None :: unit option) [''f'' \<mapsto> good_input @ [newline]] = (Inr r, fs1) \<and>
     record_events r [(0, sample_input_message), (1440, sample_input_message)] fs1 = (errs, fs2) \<and>
     errs = [None, Some MarshalEvent] \<and>
     fst (Replay (NewPlayer ''f'') (readable fs2) (\<lambda>_. None) collect []) = 2"
proof -
  let ?fs = "[''f'' \<mapsto> good_input @ [newline]]"
  obtain r fs1 errs fs2 where run: "NewEventRecorder ''f'' (None :: unit option) ?fs = (Inr r, fs1)"
    "record_events r [(0, sample_input_message), (1440, sample_input_message)] fs1 = (errs, fs2)"
    by (auto simp: NewEventRecorder_def) (metis prod.collapse)
  have w: "writable (0, sample_input_message)" "\<not> writable (1440, sample_input_message)" by code_simp+
  have m: "marshal_message 1440 sample_input_message = None" by code_simp
  have s: "short_line (0, sample_input_message)" "short_line (1440, sample_input_message)"
    using short_line_simps(2) [OF marshal_sample] short_line_simps(1) [OF m] by (simp_all add: maxLineSize_def good_input_def)
  have acc: "\<forall>(zone, m)\<in>set ([(0, sample_input_message)] @ [(0, sample_input_message), (1440, sample_input_message)]).
      \<exists>now raw. ParseTelemetryMessage now raw = Inr m" using good_input_accepted by auto
  have c: "contents ?fs ''f'' = join_lines (lines_of [(0, sample_input_message)])"
    by (simp add: contents_def marshal_sample)
  from recorded_then_replayed [OF acc run(1) c run(2)] run w s show ?thesis by (auto simp: Let_def)
qed

end
