(* ===== verification/Udp.thy ===== *)
theory Udp
  imports Ingestion
begin

text \<open>
  internal/ingestion/udp.go: the UDP listener. The receive loop is a goroutine whose place in the
  loop is its phase; the network, the consumers of the two channels and \<open>Stop\<close> act in between,
  in any order.
\<close>

section \<open>The UDP listener\<close>

text \<open>
  The connection is absent, open or closed. \<open>Stop\<close> is one call, one statement at a time.
  \<open>inputs\<close>, \<open>delivered\<close>, \<open>taken\<close> are ghost history: the outcomes of the datagrams read, the
  messages sent into the channel and those received from it.
\<close>

datatype l_stop = LNotStopping | LChecked | LCleared | LSignalled | LConnClosed | LJoined | LMessagesClosed | LStopped

datatype udp_phase = AtTop | Rx rx

record UDPListener = listener +
  port :: goint
  maxMessageSize :: nat
  conn :: conn_state
  loop :: udp_phase
  l_stopping :: l_stop
  panicked :: bool
  inputs :: "(parse_error + TelemetryMessage) list"
  delivered :: "TelemetryMessage list"
  taken :: "TelemetryMessage list"

text \<open>Making a channel of negative capacity panics, which is None.\<close>

definition NewUDPListener :: "goint \<Rightarrow> goint \<Rightarrow> UDPListener option" where
  "NewUDPListener prt bufferSize =
     (if bufferSize < 0 then None
      else Some (listener.extend (new_listener (nat bufferSize))
        (UDPListener.fields prt 65507 NoConn (Rx Finished) LNotStopping False [] [] [])))"

text \<open>\<open>Start\<close>, given whether the port could be bound.\<close>

definition UDP_Start :: "bool \<Rightarrow> UDPListener \<Rightarrow> bytes + UDPListener" where
  "UDP_Start bound l =
     (if l_isRunning l then Inl ''listener already running''
      else if \<not> bound then Inl ''failed to listen on UDP''
      else Inr (l\<lparr>conn := Open, l_isRunning := True, loop := AtTop\<rparr>))"

datatype udp_act =
    Top
  | Datagram time addr bytes
  | ReadFails time addr io_error
  | Offer
  | Abandon
  | TakeMessage
  | TakeError
  | UStop

text \<open>A datagram longer than the buffer is cut to its size.\<close>

definition receive :: "time \<Rightarrow> addr \<Rightarrow> bytes \<Rightarrow> UDPListener \<Rightarrow> UDPListener" where
  "receive now remote dgram l =
     (let raw = take (maxMessageSize l) dgram
      in if raw = [] then l\<lparr>loop := AtTop\<rparr>
         else (let (r, l') = ingest now remote raw l
               in l'\<lparr>loop := Rx r, inputs := inputs l @ [ParseTelemetryMessage now raw]\<rparr>))"

definition read_fails :: "time \<Rightarrow> addr \<Rightarrow> io_error \<Rightarrow> UDPListener \<Rightarrow> UDPListener" where
  "read_fails now remote err l =
     (if \<not> l_isRunning l then l\<lparr>loop := Rx Finished\<rparr>
      else l\<lparr>lastErrorTime := now, lastErrorMessage := Some (ReadErrorFrom remote err),
             loop := Rx (Reporting (IoError err))\<rparr>)"

definition udp_offer :: "UDPListener \<Rightarrow> UDPListener option" where
  "udp_offer l = (case loop l of
       Rx r \<Rightarrow> map_option (\<lambda>res. case res of
           Offered l' \<Rightarrow> l'\<lparr>loop := AtTop,
             delivered := delivered l @ (case r of Delivering m \<Rightarrow> [m] | _ \<Rightarrow> [])\<rparr>
         | Panics \<Rightarrow> l\<lparr>panicked := True\<rparr>) (offer r l)
     | AtTop \<Rightarrow> None)"

definition udp_stop_step :: "UDPListener \<Rightarrow> UDPListener option" where
  "udp_stop_step l = (case l_stopping l of
       LNotStopping \<Rightarrow> Some (l\<lparr>l_stopping := (if l_isRunning l then LChecked else LStopped)\<rparr>)
     | LChecked \<Rightarrow> Some (l\<lparr>l_isRunning := False, l_stopping := LCleared\<rparr>)
     | LCleared \<Rightarrow> Some (if l_stopClosed l then l\<lparr>panicked := True\<rparr>
                         else l\<lparr>l_stopClosed := True, l_stopping := LSignalled\<rparr>)
     | LSignalled \<Rightarrow> Some (l\<lparr>conn := (if conn l = NoConn then NoConn else Closed), l_stopping := LConnClosed\<rparr>)
     | LConnClosed \<Rightarrow> if loop l = Rx Finished then Some (l\<lparr>l_stopping := LJoined\<rparr>) else None
     | LJoined \<Rightarrow> Some (case chan_close (messagesChan l) of
           None \<Rightarrow> l\<lparr>panicked := True\<rparr>
         | Some c \<Rightarrow> l\<lparr>messagesChan := c, l_stopping := LMessagesClosed\<rparr>)
     | LMessagesClosed \<Rightarrow> Some (case chan_close (errorsChan l) of
           None \<Rightarrow> l\<lparr>panicked := True\<rparr>
         | Some c \<Rightarrow> l\<lparr>errorsChan := c, l_stopping := LStopped\<rparr>)
     | LStopped \<Rightarrow> None)"

fun udp_exec :: "udp_act \<Rightarrow> UDPListener \<Rightarrow> UDPListener option" where
  "udp_exec a l =
     (if panicked l then None
      else case a of
          Top \<Rightarrow> if loop l = AtTop
                 then Some (l\<lparr>loop := (if l_stopClosed l then Rx Finished else Rx Reading)\<rparr>) else None
        | Datagram now remote dgram \<Rightarrow>
            if loop l = Rx Reading \<and> conn l = Open then Some (receive now remote dgram l) else None
        | ReadFails now remote err \<Rightarrow>
            if loop l = Rx Reading then Some (read_fails now remote err l) else None
        | Offer \<Rightarrow> udp_offer l
        | Abandon \<Rightarrow> if l_stopClosed l \<and> (\<exists>r. loop l = Rx r \<and> r \<noteq> Reading \<and> r \<noteq> Finished)
                     then Some (l\<lparr>loop := Rx Finished\<rparr>) else None
        | TakeMessage \<Rightarrow> (case chan_recv (messagesChan l) of
              Received m c \<Rightarrow> Some (l\<lparr>messagesChan := c, taken := taken l @ [m]\<rparr>)
            | _ \<Rightarrow> None)
        | TakeError \<Rightarrow> (case chan_recv (errorsChan l) of
              Received e c \<Rightarrow> Some (l\<lparr>errorsChan := c\<rparr>)
            | _ \<Rightarrow> None)
        | UStop \<Rightarrow> udp_stop_step l)"

declare udp_exec.simps [simp del]

fun udp_run :: "udp_act list \<Rightarrow> UDPListener \<Rightarrow> UDPListener option" where
  "udp_run [] l = Some l"
| "udp_run (a # as) l = Option.bind (udp_exec a l) (udp_run as)"

text \<open>The states a started listener can reach.\<close>

inductive udp_reachable :: "UDPListener \<Rightarrow> bool" where
  start: "NewUDPListener prt n = Some l0 \<Longrightarrow> UDP_Start True l0 = Inr l \<Longrightarrow> udp_reachable l"
| step: "udp_reachable l \<Longrightarrow> udp_exec a l = Some l' \<Longrightarrow> udp_reachable l'"

section \<open>Invariant\<close>

definition counts_ok :: "UDPListener \<Rightarrow> bool" where
  "counts_ok l = (messagesReceived l = of_nat (length (oks (inputs l))) \<and>
     messagesReceived l + messagesRejected l = of_nat (length (inputs l)))"

text \<open>How the accepted messages and the delivered ones compare in each phase; a loop that has given
  up may have dropped the message it held.\<close>

fun in_step :: "udp_phase \<Rightarrow> 'm list \<Rightarrow> 'm list \<Rightarrow> (rx \<Rightarrow> 'm list) \<Rightarrow> bool" where
  "in_step AtTop acc del h = (acc = del)"
| "in_step (Rx Finished) acc del h = (\<exists>x. acc = del @ x \<and> length x \<le> 1)"
| "in_step (Rx r) acc del h = (acc = del @ h r)"

definition flow_of :: "UDPListener \<Rightarrow> bool" where
  "flow_of l = (delivered l = taken l @ buf (messagesChan l) \<and>
     in_step (loop l) (oks (inputs l)) (delivered l) held)"

definition stop_order :: "l_stop \<Rightarrow> nat" where
  "stop_order p = (case p of LNotStopping \<Rightarrow> 0 | LChecked \<Rightarrow> 1 | LCleared \<Rightarrow> 2 | LSignalled \<Rightarrow> 3
     | LConnClosed \<Rightarrow> 4 | LJoined \<Rightarrow> 5 | LMessagesClosed \<Rightarrow> 6 | LStopped \<Rightarrow> 7)"

definition udp_flags :: "UDPListener \<Rightarrow> bool" where
  "udp_flags l =
     ((l_isRunning l \<longleftrightarrow> stop_order (l_stopping l) < 2) \<and>
      (l_stopClosed l \<longleftrightarrow> 3 \<le> stop_order (l_stopping l)) \<and>
      (conn l = Open \<longleftrightarrow> stop_order (l_stopping l) < 4) \<and>
      (closed (messagesChan l) \<longleftrightarrow> 6 \<le> stop_order (l_stopping l)) \<and>
      (closed (errorsChan l) \<longleftrightarrow> 7 \<le> stop_order (l_stopping l)) \<and>
      (5 \<le> stop_order (l_stopping l) \<longrightarrow> loop l = Rx Finished) \<and>
      (loop l = Rx Finished \<longrightarrow> 2 \<le> stop_order (l_stopping l)) \<and> \<not> panicked l \<and>
      chan_cap (errorsChan l) = 10 \<and> chan_ok (errorsChan l) \<and> chan_ok (messagesChan l))"

lemmas stop_order_simps [simp] = stop_order_def [of LNotStopping, simplified] stop_order_def [of LChecked, simplified]
  stop_order_def [of LCleared, simplified] stop_order_def [of LSignalled, simplified]
  stop_order_def [of LConnClosed, simplified] stop_order_def [of LJoined, simplified]
  stop_order_def [of LMessagesClosed, simplified] stop_order_def [of LStopped, simplified]

text \<open>The effects of an action, one by one.\<close>

lemma ingest_cases:
  obtains (rejected) e where "ParseTelemetryMessage now raw = Inl e"
      "ingest now remote raw l = (Reporting (FromRemote remote e),
        l\<lparr>messagesRejected := messagesRejected l + 1, lastErrorTime := now,
          lastErrorMessage := Some (ParseErrorFrom remote e)\<rparr>)"
  | (received) m where "ParseTelemetryMessage now raw = Inr m"
      "ingest now remote raw l = (Delivering m, l\<lparr>messagesReceived := messagesReceived l + 1\<rparr>)"
  by (cases "ParseTelemetryMessage now raw") (auto simp: ingest_def)

lemma udp_offer_cases:
  assumes "udp_offer l = Some l'"
  obtains (report) e where "loop l = Rx (Reporting e)" "\<not> closed (errorsChan l)"
      "length (buf (errorsChan l)) < chan_cap (errorsChan l)"
      "l' = l\<lparr>errorsChan := (errorsChan l)\<lparr>buf := buf (errorsChan l) @ [e]\<rparr>, loop := AtTop\<rparr>"
  | (deliver) m where "loop l = Rx (Delivering m)" "\<not> closed (messagesChan l)"
      "length (buf (messagesChan l)) < chan_cap (messagesChan l)"
      "l' = l\<lparr>messagesChan := (messagesChan l)\<lparr>buf := buf (messagesChan l) @ [m]\<rparr>, loop := AtTop,
              delivered := delivered l @ [m]\<rparr>"
  | (panic) "l' = l\<lparr>panicked := True\<rparr>"
      "(\<exists>e. loop l = Rx (Reporting e)) \<and> closed (errorsChan l) \<or> (\<exists>m. loop l = Rx (Delivering m)) \<and> closed (messagesChan l)"
proof (cases "loop l")
  case AtTop
  then show thesis using assms by (simp add: udp_offer_def)
next
  case (Rx r)
  show thesis
  proof (cases r)
    case (Reporting e)
    consider "closed (errorsChan l)" | "\<not> closed (errorsChan l)" "length (buf (errorsChan l)) < chan_cap (errorsChan l)"
      | "\<not> closed (errorsChan l)" "chan_cap (errorsChan l) \<le> length (buf (errorsChan l))" by linarith
    then show thesis
    proof cases
      case 1
      show thesis by (rule panic) (use assms Rx Reporting 1 in \<open>simp_all add: udp_offer_def offer_def chan_send_def\<close>)
    next
      case 2
      show thesis by (rule report) (use assms [symmetric] Rx Reporting 2 in \<open>simp_all add: udp_offer_def offer_def chan_send_def\<close>)
    next
      case 3
      then show thesis using assms Rx Reporting by (simp add: udp_offer_def offer_def chan_send_def)
    qed
  next
    case (Delivering m)
    consider "closed (messagesChan l)" | "\<not> closed (messagesChan l)" "length (buf (messagesChan l)) < chan_cap (messagesChan l)"
      | "\<not> closed (messagesChan l)" "chan_cap (messagesChan l) \<le> length (buf (messagesChan l))" by linarith
    then show thesis
    proof cases
      case 1
      show thesis by (rule panic) (use assms Rx Delivering 1 in \<open>simp_all add: udp_offer_def offer_def chan_send_def\<close>)
    next
      case 2
      show thesis by (rule deliver) (use assms [symmetric] Rx Delivering 2 in \<open>simp_all add: udp_offer_def offer_def chan_send_def\<close>)
    next
      case 3
      then show thesis using assms Rx Delivering by (simp add: udp_offer_def offer_def chan_send_def)
    qed
  qed (use assms Rx in \<open>simp_all add: udp_offer_def offer_def\<close>)
qed

lemma udp_stop_cases:
  assumes "udp_stop_step l = Some l'"
  obtains (enter) "l_stopping l = LNotStopping" "l' = l\<lparr>l_stopping := (if l_isRunning l then LChecked else LStopped)\<rparr>"
  | (clear) "l_stopping l = LChecked" "l' = l\<lparr>l_isRunning := False, l_stopping := LCleared\<rparr>"
  | (signal) "l_stopping l = LCleared" "\<not> l_stopClosed l" "l' = l\<lparr>l_stopClosed := True, l_stopping := LSignalled\<rparr>"
  | (signal_panic) "l_stopping l = LCleared" "l_stopClosed l" "l' = l\<lparr>panicked := True\<rparr>"
  | (close_conn) "l_stopping l = LSignalled" "l' = l\<lparr>conn := (if conn l = NoConn then NoConn else Closed), l_stopping := LConnClosed\<rparr>"
  | (join) "l_stopping l = LConnClosed" "loop l = Rx Finished" "l' = l\<lparr>l_stopping := LJoined\<rparr>"
  | (close_messages) "l_stopping l = LJoined" "\<not> closed (messagesChan l)"
      "l' = l\<lparr>messagesChan := (messagesChan l)\<lparr>closed := True\<rparr>, l_stopping := LMessagesClosed\<rparr>"
  | (messages_panic) "l_stopping l = LJoined" "closed (messagesChan l)" "l' = l\<lparr>panicked := True\<rparr>"
  | (close_errors) "l_stopping l = LMessagesClosed" "\<not> closed (errorsChan l)"
      "l' = l\<lparr>errorsChan := (errorsChan l)\<lparr>closed := True\<rparr>, l_stopping := LStopped\<rparr>"
  | (errors_panic) "l_stopping l = LMessagesClosed" "closed (errorsChan l)" "l' = l\<lparr>panicked := True\<rparr>"
proof (cases "l_stopping l")
  case LNotStopping
  then show thesis using assms enter by (simp add: udp_stop_step_def)
next
  case LChecked
  then show thesis using assms clear by (simp add: udp_stop_step_def)
next
  case LCleared
  then show thesis using assms signal signal_panic by (cases "l_stopClosed l") (simp_all add: udp_stop_step_def)
next
  case LSignalled
  then show thesis using assms close_conn by (simp add: udp_stop_step_def)
next
  case LConnClosed
  then show thesis using assms join by (cases "loop l = Rx Finished") (simp_all add: udp_stop_step_def)
next
  case LJoined
  then show thesis using assms close_messages messages_panic
    by (cases "closed (messagesChan l)") (simp_all add: udp_stop_step_def chan_close_def)
next
  case LMessagesClosed
  then show thesis using assms close_errors errors_panic
    by (cases "closed (errorsChan l)") (simp_all add: udp_stop_step_def chan_close_def)
next
  case LStopped
  then show thesis using assms by (simp add: udp_stop_step_def)
qed

definition udp_inv :: "UDPListener \<Rightarrow> bool" where
  "udp_inv l = (counts_ok l \<and> flow_of l \<and> udp_flags l)"

lemmas udp_inv_defs = udp_inv_def counts_ok_def flow_of_def udp_flags_def

lemma udp_inv_receive:
  assumes "udp_inv l" and "loop l = Rx Reading"
  shows "udp_inv (receive now remote dgram l)"
proof (cases "take (maxMessageSize l) dgram = []")
  case True
  then show ?thesis using assms by (auto simp: receive_def udp_inv_defs)
next
  case False
  show ?thesis
    by (rule ingest_cases [of now "take (maxMessageSize l) dgram" remote l])
      (use assms False in \<open>auto simp: receive_def udp_inv_defs Let_def algebra_simps\<close>)
qed

lemma udp_inv_offer:
  assumes "udp_inv l" and "udp_offer l = Some l'"
  shows "udp_inv l'"
  using assms(2)
proof (cases rule: udp_offer_cases)
  case panic
  then show ?thesis using assms(1) by (auto simp: udp_inv_defs)
qed (use assms(1) in \<open>auto simp: udp_inv_defs chan_ok_def\<close>)

lemma udp_inv_stop:
  assumes "udp_inv l" and "udp_stop_step l = Some l'"
  shows "udp_inv l'"
  using assms(2)
  by (cases rule: udp_stop_cases) (use assms(1) in \<open>auto simp: udp_inv_defs chan_ok_def\<close>)

lemma udp_takes:
  "udp_exec TakeMessage l = Some l' \<Longrightarrow> \<exists>m ms. buf (messagesChan l) = m # ms \<and>
     l' = l\<lparr>messagesChan := (messagesChan l)\<lparr>buf := ms\<rparr>, taken := taken l @ [m]\<rparr>"
  "udp_exec TakeError l = Some l' \<Longrightarrow> \<exists>e es. buf (errorsChan l) = e # es \<and>
     l' = l\<lparr>errorsChan := (errorsChan l)\<lparr>buf := es\<rparr>\<rparr>"
  by (simp_all add: udp_exec.simps chan_recv_def split: if_splits list.splits)

lemma udp_inv_step:
  assumes "udp_inv l" and "udp_exec a l = Some l'"
  shows "udp_inv l'"
proof (cases a)
  case Top
  then show ?thesis using assms by (auto simp: udp_exec.simps udp_inv_defs split: if_splits)
next
  case (Datagram now remote dgram)
  then show ?thesis using assms udp_inv_receive by (auto simp: udp_exec.simps split: if_splits)
next
  case (ReadFails now remote err)
  then show ?thesis using assms by (auto simp: udp_exec.simps read_fails_def udp_inv_defs split: if_splits)
next
  case Offer
  then show ?thesis using assms udp_inv_offer by (simp add: udp_exec.simps split: if_splits)
next
  case Abandon
  then obtain r where "loop l = Rx r" "r \<noteq> Reading" "r \<noteq> Finished" "l_stopClosed l" "l' = l\<lparr>loop := Rx Finished\<rparr>"
    using assms(2) by (auto simp: udp_exec.simps split: if_splits)
  then show ?thesis using assms(1) by (cases r) (auto simp: udp_inv_defs)
next
  case TakeMessage
  then obtain m ms where "buf (messagesChan l) = m # ms"
    "l' = l\<lparr>messagesChan := (messagesChan l)\<lparr>buf := ms\<rparr>, taken := taken l @ [m]\<rparr>"
    using assms(2) udp_takes(1) by blast
  then show ?thesis using assms(1) by (clarsimp simp: udp_inv_defs chan_ok_def)
next
  case TakeError
  then obtain e es where "buf (errorsChan l) = e # es" "l' = l\<lparr>errorsChan := (errorsChan l)\<lparr>buf := es\<rparr>\<rparr>"
    using assms(2) udp_takes(2) by blast
  then show ?thesis using assms(1) by (clarsimp simp: udp_inv_defs chan_ok_def)
next
  case UStop
  then show ?thesis using assms udp_inv_stop by (simp add: udp_exec.simps split: if_splits)
qed

lemma udp_reachable_inv: "udp_reachable l \<Longrightarrow> udp_inv l"
proof (induction rule: udp_reachable.induct)
  case (start prt n l0 l)
  then show ?case
    by (auto simp: UDP_Start_def NewUDPListener_def new_listener_def listener.extend_def UDPListener.fields_def
        udp_inv_defs chan_ok_def split: if_splits)
next
  case (step l a l')
  then show ?case using udp_inv_step by blast
qed

lemma udp_run_append: "udp_run (as @ bs) l = Option.bind (udp_run as l) (udp_run bs)"
  by (induction as arbitrary: l) (auto split: Option.bind_split)

lemma udp_run_reachable: "udp_run as l = Some l' \<Longrightarrow> udp_reachable l \<Longrightarrow> udp_reachable l'"
  by (induction as arbitrary: l) (auto intro: udp_reachable.step split: Option.bind_splits)

section \<open>Accounting\<close>

text \<open>What the datagrams of a schedule amount to: an empty one is skipped, a long one is cut.\<close>

fun outcome_of :: "udp_act \<Rightarrow> (parse_error + TelemetryMessage) list" where
  "outcome_of (Datagram now remote dgram) = (if dgram = [] then [] else [ParseTelemetryMessage now (take 65507 dgram)])"
| "outcome_of _ = []"

definition outcomes :: "udp_act list \<Rightarrow> (parse_error + TelemetryMessage) list" where
  "outcomes as = concat (map outcome_of as)"

lemma ingest_keeps [simp]: "maxMessageSize (snd (ingest now remote raw l)) = maxMessageSize l"
  by (cases rule: ingest_cases [of now raw remote l]) auto

lemma udp_inputs_step:
  assumes "udp_exec a l = Some l'"
  shows "maxMessageSize l' = maxMessageSize l \<and>
    (maxMessageSize l = 65507 \<longrightarrow> inputs l' = inputs l @ outcome_of a)"
proof (cases a)
  case (Datagram now remote dgram)
  have "l' = receive now remote dgram l" using assms Datagram by (simp add: udp_exec.simps split: if_splits)
  then show ?thesis using Datagram by (simp add: receive_def Let_def case_prod_unfold)
next
  case (ReadFails now remote err)
  then show ?thesis using assms by (auto simp: udp_exec.simps read_fails_def split: if_splits)
next
  case Offer
  then have "udp_offer l = Some l'" using assms by (simp add: udp_exec.simps split: if_splits)
  then show ?thesis using Offer by (cases rule: udp_offer_cases) auto
next
  case UStop
  then have "udp_stop_step l = Some l'" using assms by (simp add: udp_exec.simps split: if_splits)
  then show ?thesis using UStop by (cases rule: udp_stop_cases) auto
next
  case TakeMessage
  then show ?thesis using assms udp_takes(1) by fastforce
next
  case TakeError
  then show ?thesis using assms udp_takes(2) by fastforce
qed (use assms in \<open>auto simp: udp_exec.simps split: if_splits\<close>)

lemma udp_inputs_run:
  "udp_run as l = Some l' \<Longrightarrow> maxMessageSize l = 65507 \<Longrightarrow> inputs l' = inputs l @ outcomes as"
proof (induction as arbitrary: l)
  case (Cons a as)
  then obtain l1 where "udp_exec a l = Some l1" "udp_run as l1 = Some l'"
    by (auto split: Option.bind_splits)
  then show ?case using Cons udp_inputs_step [of a l l1] by (simp add: outcomes_def)
qed (simp add: outcomes_def)

text \<open>A started listener, and what it looks like.\<close>

definition udp_started :: "goint \<Rightarrow> goint \<Rightarrow> UDPListener option" where
  "udp_started prt bufferSize = Option.bind (NewUDPListener prt bufferSize)
     (\<lambda>l. case UDP_Start True l of Inr l' \<Rightarrow> Some l' | Inl e \<Rightarrow> None)"

lemma udp_started_SomeD:
  assumes "udp_started prt n = Some l"
  shows "udp_reachable l \<and> maxMessageSize l = 65507 \<and> inputs l = [] \<and> loop l = AtTop \<and>
    l_stopping l = LNotStopping \<and> messagesChan l = make_chan (nat n) \<and> errorsChan l = make_chan 10"
proof -
  obtain l0 where l0: "NewUDPListener prt n = Some l0" "UDP_Start True l0 = Inr l"
    using assms by (auto simp: udp_started_def split: Option.bind_splits sum.splits)
  then have "udp_reachable l" by (rule udp_reachable.start)
  with l0 show ?thesis
    by (auto simp: NewUDPListener_def UDP_Start_def new_listener_def listener.extend_def UDPListener.fields_def
        split: if_splits)
qed

lemma in_step_gap: "in_step ph acc del held \<Longrightarrow> \<exists>x. acc = del @ x \<and> length x \<le> 1"
proof (cases ph)
  case (Rx r)
  then show "in_step ph acc del held \<Longrightarrow> ?thesis" by (cases r) auto
qed simp

text \<open>The counters count the inputs: the accepted ones and all of them.\<close>

lemma udp_input_count:
  assumes "udp_started prt n = Some l0" and "udp_run as l0 = Some l"
  shows "messagesReceived l = of_nat (length (oks (outcomes as))) \<and>
    messagesReceived l + messagesRejected l = of_nat (length (outcomes as))"
proof -
  have l0: "udp_reachable l0" "maxMessageSize l0 = 65507" "inputs l0 = []"
    using udp_started_SomeD [OF assms(1)] by auto
  have "udp_inv l" using udp_run_reachable [OF assms(2) l0(1)] by (rule udp_reachable_inv)
  then have "messagesReceived l = of_nat (length (oks (inputs l))) \<and>
      messagesReceived l + messagesRejected l = of_nat (length (inputs l))"
    unfolding udp_inv_def counts_ok_def by blast
  moreover have "inputs l = outcomes as" using udp_inputs_run [OF assms(2) l0(2)] l0(3) by simp
  ultimately show ?thesis by metis
qed

text \<open>
  Property C29. Whatever the network, the consumers and \<open>Stop\<close> do, the two counters of the UDP
  listener are exact: the received counter is the number of non-empty datagrams whose first 65507
  bytes are an acceptable message, and both together are the number of non-empty datagrams read.
  The accepted messages leave the listener in the order of arrival, none is lost or doubled (except
  one that the loop held when \<open>Stop\<close> ended it), and nothing panics.
\<close>

theorem udp_accounts:
  assumes "udp_started prt n = Some l0" and "udp_run as l0 = Some l"
  shows "ls_MessagesReceived (UDP_Stats l) = of_nat (length (oks (outcomes as))) \<and>
    ls_MessagesReceived (UDP_Stats l) + ls_MessagesRejected (UDP_Stats l) = of_nat (length (outcomes as)) \<and>
    (\<exists>x. oks (outcomes as) = taken l @ buf (messagesChan l) @ x \<and> length x \<le> 1) \<and> \<not> panicked l"
proof -
  have l0: "udp_reachable l0" "maxMessageSize l0 = 65507" "inputs l0 = []"
    using udp_started_SomeD [OF assms(1)] by auto
  have i: "udp_inv l" using udp_run_reachable [OF assms(2) l0(1)] by (rule udp_reachable_inv)
  have o: "inputs l = outcomes as" using udp_inputs_run [OF assms(2) l0(2)] l0(3) by simp
  have "\<exists>x. oks (outcomes as) = delivered l @ x \<and> length x \<le> 1"
    using i o unfolding udp_inv_def flow_of_def by (intro in_step_gap [of "loop l"]) metis
  then show ?thesis using i o by (auto simp: udp_inv_defs UDP_Stats_def)
qed

text \<open>A good datagram, taken by the consumer, then a bad one.\<close>

lemmas udp_eval = udp_exec.simps udp_offer_def offer_def chan_send_def chan_recv_def receive_def ingest_def
  read_fails_def bad_input_rejected good_input_accepted Let_def

definition first_udp :: UDPListener where
  "first_udp = the (udp_started 5514 4)"

lemma first_udp: "udp_started 5514 4 = Some first_udp"
  by (simp add: first_udp_def udp_started_def NewUDPListener_def UDP_Start_def new_listener_def
      listener.extend_def UDPListener.fields_def)

lemma first_udp_eval:
  "first_udp = \<lparr>messagesChan = make_chan 4, errorsChan = make_chan 10, l_stopClosed = False,
     l_isRunning = True, messagesReceived = 0, messagesRejected = 0, lastErrorTime = 0,
     lastErrorMessage = None, port = 5514, maxMessageSize = 65507, conn = Open, loop = AtTop,
     l_stopping = LNotStopping, panicked = False, inputs = [], delivered = [], taken = []\<rparr>"
  by (simp add: first_udp_def udp_started_def NewUDPListener_def UDP_Start_def new_listener_def
      listener.extend_def UDPListener.fields_def)

theorem udp_accounts_witness:
  "\<exists>l. udp_run [Top, Datagram sample_now ''a'' good_input, Offer, TakeMessage, Top, Datagram sample_now ''b'' ''{''] first_udp = Some l \<and>
     ls_MessagesReceived (UDP_Stats l) = 1 \<and> ls_MessagesReceived (UDP_Stats l) + ls_MessagesRejected (UDP_Stats l) = 2"
  (is "\<exists>l. udp_run ?as _ = Some l \<and> _")
proof -
  have "udp_run ?as first_udp \<noteq> None"
    by (simp add: first_udp_eval udp_eval make_chan_def)
  then obtain l where l: "udp_run ?as first_udp = Some l" by auto
  have "outcomes ?as = [Inr sample_input_message, Inl (ParseFailed ''failed to parse JSON'')]"
    by (simp add: outcomes_def bad_input_rejected good_input_accepted)
  then have "ls_MessagesReceived (UDP_Stats l) = 1 \<and> ls_MessagesReceived (UDP_Stats l) + ls_MessagesRejected (UDP_Stats l) = 2"
  proof -
    have "ls_MessagesReceived (UDP_Stats l) = of_nat (length (oks (outcomes ?as)))"
      "ls_MessagesReceived (UDP_Stats l) + ls_MessagesRejected (UDP_Stats l) = of_nat (length (outcomes ?as))"
      using udp_accounts [OF first_udp l] by blast+
    with \<open>outcomes ?as = _\<close> show ?thesis by (simp add: oks_def)
  qed
  with l show ?thesis by blast
qed

section \<open>Unread errors\<close>

text \<open>The errors a schedule produces, and those the listener still has to get rid of.\<close>

fun errors_of :: "udp_act \<Rightarrow> nat" where
  "errors_of (ReadFails now remote err) = 1"
| "errors_of a = length (outcome_of a) - length (oks (outcome_of a))"

definition unread :: "UDPListener \<Rightarrow> nat" where
  "unread l = length (buf (errorsChan l)) + (case loop l of Rx (Reporting e) \<Rightarrow> 1 | _ \<Rightarrow> 0)"

lemma unread_step:
  assumes "udp_exec a l = Some l'" and "a \<noteq> TakeError" and "a \<noteq> UStop" and "udp_flags l"
    and "l_stopping l = LNotStopping" and "maxMessageSize l = 65507"
  shows "unread l' = unread l + errors_of a \<and> l_stopping l' = LNotStopping"
proof (cases a)
  case (Datagram now remote dgram)
  then have l': "l' = receive now remote dgram l" "loop l = Rx Reading"
    using assms(1) by (simp_all add: udp_exec.simps split: if_splits)
  then show ?thesis using Datagram assms(5,6)
    by (cases rule: ingest_cases [of now "take 65507 dgram" remote l])
      (auto simp: receive_def Let_def unread_def)
next
  case (ReadFails now remote err)
  then show ?thesis using assms by (auto simp: udp_exec.simps read_fails_def unread_def udp_flags_def split: if_splits)
next
  case Offer
  then have "udp_offer l = Some l'" using assms(1) by (simp add: udp_exec.simps split: if_splits)
  then show ?thesis using Offer assms(4,5)
    by (cases rule: udp_offer_cases) (auto simp: unread_def udp_flags_def)
next
  case TakeMessage
  then show ?thesis using assms(1,5) udp_takes(1) by (fastforce simp: unread_def)
qed (use assms in \<open>auto simp: udp_exec.simps unread_def udp_flags_def split: if_splits\<close>)

lemma unread_run:
  assumes "udp_run as l = Some l'" and "udp_reachable l" and "l_stopping l = LNotStopping"
    and "maxMessageSize l = 65507" and "TakeError \<notin> set as" and "UStop \<notin> set as"
  shows "unread l' = unread l + sum_list (map errors_of as) \<and> l_stopping l' = LNotStopping"
  using assms
proof (induction as arbitrary: l)
  case (Cons a as)
  then obtain l1 where l1: "udp_exec a l = Some l1" "udp_run as l1 = Some l'"
    by (auto split: Option.bind_splits)
  have "udp_flags l" using udp_reachable_inv [OF Cons.prems(2)] by (simp add: udp_inv_def)
  then have "unread l1 = unread l + errors_of a" "l_stopping l1 = LNotStopping"
    using unread_step [OF l1(1)] Cons.prems by auto
  then show ?case
    using Cons.IH [OF l1(2)] udp_reachable.step [OF Cons.prems(2) l1(1)] udp_inputs_step [OF l1(1)] Cons.prems
    by simp
qed simp

text \<open>
  Property C30. Nobody draining \<open>Errors()\<close>, the listener survives at most eleven errors: every run
  in which no error is taken and \<open>Stop\<close> is not called has at most eleven rejected datagrams and
  failed reads, and after the eleventh no further datagram, good or bad, is read. The loop is
  stuck offering the error to the full channel of ten.
\<close>

theorem unread_errors_stall:
  assumes "udp_started prt n = Some l0" and "udp_run as l0 = Some l"
    and "TakeError \<notin> set as" and "UStop \<notin> set as"
  shows "sum_list (map errors_of as) \<le> 11 \<and>
    (sum_list (map errors_of as) = 11 \<longrightarrow> (\<forall>a. udp_exec a l \<noteq> None \<longrightarrow> a \<in> {TakeMessage, TakeError, UStop}))"
proof -
  note s = udp_started_SomeD [OF assms(1)]
  have u: "unread l = sum_list (map errors_of as) \<and> l_stopping l = LNotStopping"
    using unread_run [OF assms(2) _ _ _ assms(3,4)] s by (simp add: unread_def)
  have f: "udp_flags l" using udp_run_reachable [OF assms(2)] s udp_reachable_inv by (simp add: udp_inv_def)
  then have "unread l \<le> 11"
    by (auto simp: unread_def udp_flags_def chan_ok_def split: udp_phase.split rx.split)
  moreover have "a \<in> {TakeMessage, TakeError, UStop}" if full: "unread l = 11" and on: "udp_exec a l \<noteq> None" for a
  proof -
    obtain e where e: "loop l = Rx (Reporting e)"
    proof (cases "\<exists>e. loop l = Rx (Reporting e)")
      case False
      then have "unread l = length (buf (errorsChan l))"
        by (auto simp: unread_def split: udp_phase.split rx.split)
      then show ?thesis using full f by (auto simp: udp_flags_def chan_ok_def)
    qed blast
    then have "length (buf (errorsChan l)) = 10" using full by (simp add: unread_def)
    then show ?thesis using f u e on
      by (cases a) (auto simp: udp_exec.simps udp_offer_def offer_def chan_send_def udp_flags_def split: if_splits)
  qed
  ultimately show ?thesis using u by simp
qed

text \<open>Eleven bad datagrams; the error channel is never read.\<close>

definition bad_burst :: "nat \<Rightarrow> udp_act list" where
  "bad_burst n = concat (replicate n [Top, Datagram 0 ''a'' ''{'', Offer])"

definition burst_ready :: "nat \<Rightarrow> UDPListener \<Rightarrow> bool" where
  "burst_ready k l = (loop l = AtTop \<and> \<not> l_stopClosed l \<and> \<not> panicked l \<and> conn l = Open \<and>
     maxMessageSize l = 65507 \<and> \<not> closed (errorsChan l) \<and> chan_cap (errorsChan l) = 10 \<and>
     length (buf (errorsChan l)) = k)"

lemma bad_burst_runs:
  "burst_ready k l \<Longrightarrow> k + n \<le> 10 \<Longrightarrow> \<exists>l'. udp_run (bad_burst n @ as) l = udp_run as l' \<and> burst_ready (k + n) l'"
proof (induction n arbitrary: k l)
  case 0
  then show ?case by (auto simp: bad_burst_def)
next
  case (Suc n)
  obtain l1 where l1: "udp_run [Top, Datagram 0 ''a'' ''{'', Offer] l = Some l1" "burst_ready (k + 1) l1"
    using Suc.prems by (simp add: burst_ready_def udp_eval)
  have "bad_burst (Suc n) @ as = [Top, Datagram 0 ''a'' ''{'', Offer] @ (bad_burst n @ as)"
    by (simp add: bad_burst_def)
  then have "udp_run (bad_burst (Suc n) @ as) l = udp_run (bad_burst n @ as) l1"
    using l1(1) by (simp only: udp_run_append bind.bind_lunit)
  then show ?case using Suc.IH [OF l1(2)] Suc.prems(2) by simp
qed

lemma bad_burst_errors: "sum_list (map errors_of (bad_burst n)) = n"
  by (induction n) (simp_all add: bad_burst_def bad_input_rejected)

theorem unread_errors_stall_witness:
  "\<exists>l. udp_run (bad_burst 10 @ [Top, Datagram 0 ''a'' ''{'']) first_udp = Some l \<and>
     udp_exec (Datagram sample_now ''b'' good_input) l = None"
  (is "\<exists>l. udp_run ?as _ = Some l \<and> _")
proof -
  have "burst_ready 0 first_udp" by (simp add: first_udp_eval burst_ready_def make_chan_def)
  then obtain l1 where "udp_run ?as first_udp = udp_run [Top, Datagram 0 ''a'' ''{''] l1" "burst_ready 10 l1"
    using bad_burst_runs [of 0 first_udp 10 "[Top, Datagram 0 ''a'' ''{'']"] by auto
  then have "udp_run ?as first_udp \<noteq> None" by (simp add: burst_ready_def udp_eval)
  then obtain l where l: "udp_run ?as first_udp = Some l" by auto
  have "sum_list (map errors_of ?as) = 11" "TakeError \<notin> set ?as" "UStop \<notin> set ?as"
    using bad_burst_errors [of 10] by (simp_all add: bad_input_rejected) (simp_all add: bad_burst_def)
  then show ?thesis using unread_errors_stall [OF first_udp l] l by blast
qed

section \<open>Stopping\<close>

text \<open>The steps left to the loop, to \<open>Stop\<close> and to the consumers once the connection is closed.\<close>

definition udp_rank :: "UDPListener \<Rightarrow> nat" where
  "udp_rank l = (7 - stop_order (l_stopping l)) + length (buf (messagesChan l)) + length (buf (errorsChan l)) +
     (case loop l of Rx Finished \<Rightarrow> 0 | Rx Reading \<Rightarrow> 1 | AtTop \<Rightarrow> 2 | Rx r \<Rightarrow> 4)"

lemma udp_rank_step:
  assumes "udp_exec a l = Some l'" and "udp_flags l" and "4 \<le> stop_order (l_stopping l)"
  shows "udp_rank l' < udp_rank l \<and> 4 \<le> stop_order (l_stopping l')"
proof (cases a)
  case Offer
  then have "udp_offer l = Some l'" using assms(1) by (simp add: udp_exec.simps split: if_splits)
  then show ?thesis using assms(2,3)
    by (cases rule: udp_offer_cases) (auto simp: udp_rank_def udp_flags_def)
next
  case UStop
  then have "udp_stop_step l = Some l'" using assms(1) by (simp add: udp_exec.simps split: if_splits)
  then show ?thesis using assms(2,3)
    by (cases rule: udp_stop_cases) (auto simp: udp_rank_def udp_flags_def)
next
  case TakeMessage
  then show ?thesis using assms(1,3) udp_takes(1) by (fastforce simp: udp_rank_def)
next
  case TakeError
  then show ?thesis using assms(1,3) udp_takes(2) by (fastforce simp: udp_rank_def)
next
  case Abandon
  then obtain r where "loop l = Rx r" "r \<noteq> Reading" "r \<noteq> Finished" "l' = l\<lparr>loop := Rx Finished\<rparr>"
    using assms(1) by (auto simp: udp_exec.simps split: if_splits)
  then show ?thesis using assms(3) by (cases r) (simp_all add: udp_rank_def)
qed (use assms in \<open>auto simp: udp_exec.simps udp_rank_def udp_flags_def read_fails_def split: if_splits\<close>)

lemma udp_rank_run:
  "udp_run as l = Some l' \<Longrightarrow> udp_reachable l \<Longrightarrow> 4 \<le> stop_order (l_stopping l) \<Longrightarrow>
     length as + udp_rank l' \<le> udp_rank l \<and> 4 \<le> stop_order (l_stopping l')"
proof (induction as arbitrary: l)
  case (Cons a as)
  then obtain l1 where l1: "udp_exec a l = Some l1" "udp_run as l1 = Some l'"
    by (auto split: Option.bind_splits)
  have "udp_flags l" using udp_reachable_inv [OF Cons.prems(2)] by (simp add: udp_inv_def)
  then have "udp_rank l1 < udp_rank l \<and> 4 \<le> stop_order (l_stopping l1)"
    using udp_rank_step [OF l1(1)] Cons.prems(3) by simp
  then show ?case using Cons.IH [OF l1(2) udp_reachable.step [OF Cons.prems(2) l1(1)]] by simp
qed simp

lemma loop_cases:
  "loop l = AtTop \<or> loop l = Rx Reading \<or> loop l = Rx Finished \<or> (\<exists>e. loop l = Rx (Reporting e)) \<or>
   (\<exists>m. loop l = Rx (Delivering m))"
  by (metis udp_phase.exhaust rx.exhaust)

text \<open>
  \<open>Stop\<close> of the UDP listener returns. Before it has closed the connection its next
  step is always possible; afterwards the listener, its consumers and \<open>Stop\<close> together take at most
  \<open>17\<close> steps plus the capacity of the message channel, and until \<open>Stop\<close> has returned one of
  \<open>Stop\<close> and the loop can always step, whether or not anybody reads the channels.
\<close>

theorem udp_stop_completes:
  assumes "udp_reachable l"
  shows "(stop_order (l_stopping l) < 4 \<longrightarrow> udp_exec UStop l \<noteq> None) \<and>
    (4 \<le> stop_order (l_stopping l) \<and> udp_run as l = Some l' \<longrightarrow>
       length as \<le> 17 + chan_cap (messagesChan l) \<and>
       (l_stopping l' \<noteq> LStopped \<longrightarrow>
          (\<exists>a\<in>{UStop, Top, ReadFails now remote err, Abandon}. udp_exec a l' \<noteq> None)))"
proof -
  have inv: "udp_flags k" if "udp_reachable k" for k using udp_reachable_inv [OF that] by (simp add: udp_inv_def)
  have "udp_exec UStop l \<noteq> None" if "stop_order (l_stopping l) < 4"
    using that inv [OF assms] by (cases "l_stopping l") (auto simp: udp_exec.simps udp_stop_step_def udp_flags_def)
  moreover have "length as \<le> 17 + chan_cap (messagesChan l)"
    if "4 \<le> stop_order (l_stopping l)" "udp_run as l = Some l'"
  proof -
    have "udp_rank l \<le> 17 + chan_cap (messagesChan l)"
      using that(1) inv [OF assms]
      by (auto simp: udp_rank_def udp_flags_def chan_ok_def split: udp_phase.split rx.split)
    then show ?thesis using udp_rank_run [OF that(2) assms that(1)] by simp
  qed
  moreover have "\<exists>a\<in>{UStop, Top, ReadFails now remote err, Abandon}. udp_exec a l' \<noteq> None"
    if "4 \<le> stop_order (l_stopping l)" "udp_run as l = Some l'" "l_stopping l' \<noteq> LStopped"
  proof -
    have "4 \<le> stop_order (l_stopping l')" using udp_rank_run [OF that(2) assms that(1)] by simp
    moreover have "udp_flags l'" using inv udp_run_reachable [OF that(2) assms] by simp
    ultimately show ?thesis using that(3)
      using loop_cases [of l'] by (cases "l_stopping l'") (auto simp: udp_exec.simps udp_stop_step_def udp_flags_def)
  qed
  ultimately show ?thesis by blast
qed

theorem udp_stop_completes_witness:
  "\<exists>l l'. udp_run [Top, UStop, UStop, UStop, UStop] first_udp = Some l \<and>
     udp_run [ReadFails 0 ''x'' ''closed'', UStop, UStop, UStop] l = Some l' \<and> l_stopping l' = LStopped \<and>
     length [ReadFails 0 ''x'' ''closed'', UStop, UStop, UStop] \<le> 17 + chan_cap (messagesChan l)"
proof -
  obtain l where l: "udp_run [Top, UStop, UStop, UStop, UStop] first_udp = Some l"
    "stop_order (l_stopping l) = 4" "\<exists>l'. udp_run [ReadFails 0 ''x'' ''closed'', UStop, UStop, UStop] l = Some l' \<and> l_stopping l' = LStopped"
    by (simp add: first_udp_eval udp_eval udp_stop_step_def make_chan_def chan_close_def)
  have "udp_reachable l" using udp_run_reachable [OF l(1)] udp_started_SomeD [OF first_udp] by simp
  moreover obtain l' where l': "udp_run [ReadFails 0 ''x'' ''closed'', UStop, UStop, UStop] l = Some l'"
    "l_stopping l' = LStopped" using l(3) by blast
  ultimately have "length [ReadFails 0 ''x'' ''closed'', UStop, UStop, UStop] \<le> 17 + chan_cap (messagesChan l)"
    using udp_stop_completes [THEN conjunct2, THEN mp, THEN conjunct1] l(2) by (metis le_refl)
  with l(1) l' show ?thesis by blast
qed

end
