(* ===== verification/Tcp.thy ===== *)
theory Tcp
  imports Ingestion Go_Scan
begin

text \<open>
  internal/ingestion/tcp.go: the TCP listener. The accept loop, one handler per connection, the
  clients, the consumers of the two channels and \<open>Stop\<close> take their steps in any order. A
  connection is known by its position in the list of accepted ones; a handler scans the bytes it
  has read with a \<open>bufio.Scanner\<close> and reads more only when the scanner asks for it.
\<close>

section \<open>State\<close>

definition maxTCPLineSize :: nat where "maxTCPLineSize = 2 ^ 20"

text \<open>Where a handler is: in \<open>Scan\<close>, handing a result on, past its loop with an error to record,
  or in its deferred calls.\<close>

datatype tcp_phase = Unstarted | Scanning | Offering rx | Recording io_error | Closing | Removing | Uncounting | Exited

text \<open>
  \<open>c_ended\<close> is what ended the stream: nothing yet, the end of the file, or an error.
  \<open>c_read\<close> and \<open>c_lines\<close> are ghost history: the bytes read, and the lines the scanner
  delivered with the time each was handled.
\<close>

record tconn =
  c_remote :: addr
  unscanned :: bytes
  c_ended :: "io_error option option"
  c_closed :: bool
  handler :: tcp_phase
  c_read :: bytes
  c_lines :: "(time \<times> bytes) list"

definition new_conn :: "addr \<Rightarrow> tconn" where
  "new_conn remote = \<lparr>c_remote = remote, unscanned = [], c_ended = None, c_closed = False,
     handler = Unstarted, c_read = [], c_lines = []\<rparr>"

datatype accept_phase = Accepting | Register nat | CountActive nat | CountTotal nat | Spawn nat
  | AcceptReporting io_error | AcceptDone

datatype t_stop = TNotStopping | TChecked | TCleared | TSignalled | TListenerClosed | TConnsClosed
  | TJoined | TMessagesClosed | TStopped

text \<open>The active count is an \<open>int64\<close> in two's complement. \<open>conns\<close> holds every connection ever
  accepted, and the last two fields are ghost history.\<close>

record TCPListener = listener +
  t_port :: goint
  t_listener :: conn_state
  connections :: "nat set"
  activeConnections :: u64
  totalConnections :: u64
  accepting :: accept_phase
  conns :: "tconn list"
  t_stopping :: t_stop
  t_panicked :: bool
  t_delivered :: "(nat \<times> TelemetryMessage) list"
  t_taken :: "TelemetryMessage list"

definition NewTCPListener :: "goint \<Rightarrow> goint \<Rightarrow> TCPListener option" where
  "NewTCPListener prt bufferSize =
     (if bufferSize < 0 then None
      else Some (listener.extend (new_listener (nat bufferSize))
        (TCPListener.fields prt NoConn {} 0 0 AcceptDone [] TNotStopping False [] [])))"

definition TCP_Start :: "bool \<Rightarrow> TCPListener \<Rightarrow> bytes + TCPListener" where
  "TCP_Start bound l =
     (if l_isRunning l then Inl ''listener already running''
      else if \<not> bound then Inl ''failed to listen on TCP''
      else Inr (l\<lparr>t_listener := Open, l_isRunning := True, accepting := Accepting\<rparr>))"

section \<open>Steps\<close>

subsection \<open>The accept loop\<close>

definition accept :: "addr \<Rightarrow> TCPListener \<Rightarrow> TCPListener option" where
  "accept remote l =
     (if accepting l = Accepting \<and> t_listener l = Open
      then Some (l\<lparr>conns := conns l @ [new_conn remote], accepting := Register (length (conns l))\<rparr>)
      else None)"

definition accept_fails :: "time \<Rightarrow> io_error \<Rightarrow> TCPListener \<Rightarrow> TCPListener option" where
  "accept_fails now err l =
     (if accepting l \<noteq> Accepting then None
      else if \<not> l_isRunning l then Some (l\<lparr>accepting := AcceptDone\<rparr>)
      else Some (l\<lparr>lastErrorTime := now, lastErrorMessage := Some (AcceptError err),
                   accepting := AcceptReporting err\<rparr>))"

definition set_handler :: "nat \<Rightarrow> tcp_phase \<Rightarrow> TCPListener \<Rightarrow> TCPListener" where
  "set_handler i p l = l\<lparr>conns := (conns l)[i := (conns l ! i)\<lparr>handler := p\<rparr>]\<rparr>"

definition accept_step :: "TCPListener \<Rightarrow> TCPListener option" where
  "accept_step l = (case accepting l of
       Register i \<Rightarrow> Some (l\<lparr>connections := insert i (connections l), accepting := CountActive i\<rparr>)
     | CountActive i \<Rightarrow> Some (l\<lparr>activeConnections := activeConnections l + 1, accepting := CountTotal i\<rparr>)
     | CountTotal i \<Rightarrow> Some (l\<lparr>totalConnections := totalConnections l + 1, accepting := Spawn i\<rparr>)
     | Spawn i \<Rightarrow> Some (set_handler i Scanning l\<lparr>accepting := Accepting\<rparr>)
     | _ \<Rightarrow> None)"

definition accept_offer :: "TCPListener \<Rightarrow> TCPListener option" where
  "accept_offer l = (case accepting l of
       AcceptReporting err \<Rightarrow> map_option (\<lambda>res. case res of
           Offered l' \<Rightarrow> l'\<lparr>accepting := Accepting\<rparr>
         | Panics \<Rightarrow> l\<lparr>t_panicked := True\<rparr>) (offer (Reporting (IoError err)) l)
     | _ \<Rightarrow> None)"

definition accept_abandon :: "TCPListener \<Rightarrow> TCPListener option" where
  "accept_abandon l = (case accepting l of
       AcceptReporting err \<Rightarrow> if l_stopClosed l then Some (l\<lparr>accepting := AcceptDone\<rparr>) else None
     | _ \<Rightarrow> None)"

subsection \<open>A connection handler\<close>

datatype conn_act = CRead bytes | CEnd "io_error option" | CScan time | COffer | CAbandon | CExit time

definition wants_data :: "tconn \<Rightarrow> bool" where
  "wants_data c = (handler c = Scanning \<and>
     scan_step maxTCPLineSize (unscanned c) (c_ended c \<noteq> None) = NeedData)"

text \<open>A read returns some bytes, no more than the scanner's buffer has room for; or it ends the
  stream, which on a connection the listener has closed is an error.\<close>

definition conn_read :: "bytes \<Rightarrow> tconn \<Rightarrow> tconn option" where
  "conn_read bs c =
     (if wants_data c \<and> \<not> c_closed c \<and> bs \<noteq> [] \<and> length (unscanned c) + length bs \<le> maxTCPLineSize
      then Some (c\<lparr>unscanned := unscanned c @ bs, c_read := c_read c @ bs\<rparr>) else None)"

definition conn_end :: "io_error option \<Rightarrow> tconn \<Rightarrow> tconn option" where
  "conn_end e c =
     (if wants_data c \<and> (c_closed c \<longrightarrow> e \<noteq> None) then Some (c\<lparr>c_ended := Some e\<rparr>) else None)"

definition set_conn :: "nat \<Rightarrow> tconn \<Rightarrow> TCPListener \<Rightarrow> TCPListener" where
  "set_conn i c l = l\<lparr>conns := (conns l)[i := c]\<rparr>"

definition conn_scan :: "time \<Rightarrow> nat \<Rightarrow> tconn \<Rightarrow> TCPListener \<Rightarrow> TCPListener option" where
  "conn_scan now i c l =
     (if handler c \<noteq> Scanning then None
      else case scan_step maxTCPLineSize (unscanned c) (c_ended c \<noteq> None) of
          NeedData \<Rightarrow> None
        | TooLong \<Rightarrow> Some (set_conn i (c\<lparr>handler := Recording ''bufio.Scanner: token too long''\<rparr>) l)
        | NoMore \<Rightarrow> Some (set_conn i (c\<lparr>handler :=
              (case c_ended c of Some (Some err) \<Rightarrow> Recording err | _ \<Rightarrow> Closing)\<rparr>) l)
        | Token line rest \<Rightarrow>
            (let c' = c\<lparr>unscanned := rest, c_lines := c_lines c @ [(now, line)]\<rparr>
             in if length line = 0 then Some (set_conn i c' l)
                else (let (r, l') = ingest now (c_remote c) line l
                      in Some (set_conn i (c'\<lparr>handler := Offering r\<rparr>) l'))))"

definition conn_offer :: "nat \<Rightarrow> tconn \<Rightarrow> TCPListener \<Rightarrow> TCPListener option" where
  "conn_offer i c l = (case handler c of
       Offering r \<Rightarrow> map_option (\<lambda>res. case res of
           Offered l' \<Rightarrow> (set_conn i (c\<lparr>handler := Scanning\<rparr>) l')\<lparr>
             t_delivered := t_delivered l @ (case r of Delivering m \<Rightarrow> [(i, m)] | _ \<Rightarrow> [])\<rparr>
         | Panics \<Rightarrow> l\<lparr>t_panicked := True\<rparr>) (offer r l)
     | _ \<Rightarrow> None)"

definition conn_abandon :: "nat \<Rightarrow> tconn \<Rightarrow> TCPListener \<Rightarrow> TCPListener option" where
  "conn_abandon i c l = (case handler c of
       Offering r \<Rightarrow> if l_stopClosed l then Some (set_conn i (c\<lparr>handler := Closing\<rparr>) l) else None
     | _ \<Rightarrow> None)"

text \<open>After the loop: record the scanner's error; then close, remove and uncount the connection.\<close>

definition conn_exit :: "time \<Rightarrow> nat \<Rightarrow> tconn \<Rightarrow> TCPListener \<Rightarrow> TCPListener option" where
  "conn_exit now i c l = (case handler c of
       Recording err \<Rightarrow> Some ((set_conn i (c\<lparr>handler := Closing\<rparr>) l)\<lparr>lastErrorTime := now,
         lastErrorMessage := Some (ReadErrorFrom (c_remote c) err)\<rparr>)
     | Closing \<Rightarrow> Some (set_conn i (c\<lparr>handler := Removing, c_closed := True\<rparr>) l)
     | Removing \<Rightarrow> Some ((set_conn i (c\<lparr>handler := Uncounting\<rparr>) l)\<lparr>connections := connections l - {i}\<rparr>)
     | Uncounting \<Rightarrow> Some ((set_conn i (c\<lparr>handler := Exited\<rparr>) l)\<lparr>activeConnections := activeConnections l - 1\<rparr>)
     | _ \<Rightarrow> None)"

definition conn_exec :: "nat \<Rightarrow> conn_act \<Rightarrow> TCPListener \<Rightarrow> TCPListener option" where
  "conn_exec i a l =
     (if length (conns l) \<le> i then None
      else let c = conns l ! i in case a of
          CRead bs \<Rightarrow> map_option (\<lambda>c'. set_conn i c' l) (conn_read bs c)
        | CEnd e \<Rightarrow> map_option (\<lambda>c'. set_conn i c' l) (conn_end e c)
        | CScan now \<Rightarrow> conn_scan now i c l
        | COffer \<Rightarrow> conn_offer i c l
        | CAbandon \<Rightarrow> conn_abandon i c l
        | CExit now \<Rightarrow> conn_exit now i c l)"

subsection \<open>Stopping\<close>

text \<open>The connections registered at that moment are closed, and no others.\<close>

definition close_registered :: "nat set \<Rightarrow> tconn list \<Rightarrow> tconn list" where
  "close_registered is cs = map (\<lambda>(i, c). if i \<in> is then c\<lparr>c_closed := True\<rparr> else c) (enumerate 0 cs)"

text \<open>\<open>wg.Wait\<close> waits for the accept loop and for every handler it has spawned.\<close>

definition all_exited :: "TCPListener \<Rightarrow> bool" where
  "all_exited l = (accepting l = AcceptDone \<and> list_all (\<lambda>c. handler c = Exited) (conns l))"

definition tcp_stop_step :: "TCPListener \<Rightarrow> TCPListener option" where
  "tcp_stop_step l = (case t_stopping l of
       TNotStopping \<Rightarrow> Some (l\<lparr>t_stopping := (if l_isRunning l then TChecked else TStopped)\<rparr>)
     | TChecked \<Rightarrow> Some (l\<lparr>l_isRunning := False, t_stopping := TCleared\<rparr>)
     | TCleared \<Rightarrow> Some (if l_stopClosed l then l\<lparr>t_panicked := True\<rparr>
                         else l\<lparr>l_stopClosed := True, t_stopping := TSignalled\<rparr>)
     | TSignalled \<Rightarrow> Some (l\<lparr>t_listener := (if t_listener l = NoConn then NoConn else Closed),
                             t_stopping := TListenerClosed\<rparr>)
     | TListenerClosed \<Rightarrow> Some (l\<lparr>conns := close_registered (connections l) (conns l), t_stopping := TConnsClosed\<rparr>)
     | TConnsClosed \<Rightarrow> if all_exited l then Some (l\<lparr>t_stopping := TJoined\<rparr>) else None
     | TJoined \<Rightarrow> Some (case chan_close (messagesChan l) of
           None \<Rightarrow> l\<lparr>t_panicked := True\<rparr>
         | Some c \<Rightarrow> l\<lparr>messagesChan := c, t_stopping := TMessagesClosed\<rparr>)
     | TMessagesClosed \<Rightarrow> Some (case chan_close (errorsChan l) of
           None \<Rightarrow> l\<lparr>t_panicked := True\<rparr>
         | Some c \<Rightarrow> l\<lparr>errorsChan := c, t_stopping := TStopped\<rparr>)
     | TStopped \<Rightarrow> None)"

subsection \<open>Runs\<close>

datatype tcp_act = Accept addr | AcceptFails time io_error | AcceptStep | AcceptOffer | AcceptAbandon
  | Conn nat conn_act | TTakeMessage | TTakeError | TStop

definition tcp_exec :: "tcp_act \<Rightarrow> TCPListener \<Rightarrow> TCPListener option" where
  "tcp_exec a l =
     (if t_panicked l then None
      else case a of
          Accept remote \<Rightarrow> accept remote l
        | AcceptFails now err \<Rightarrow> accept_fails now err l
        | AcceptStep \<Rightarrow> accept_step l
        | AcceptOffer \<Rightarrow> accept_offer l
        | AcceptAbandon \<Rightarrow> accept_abandon l
        | Conn i ca \<Rightarrow> conn_exec i ca l
        | TTakeMessage \<Rightarrow> (case chan_recv (messagesChan l) of
              Received m c \<Rightarrow> Some (l\<lparr>messagesChan := c, t_taken := t_taken l @ [m]\<rparr>)
            | _ \<Rightarrow> None)
        | TTakeError \<Rightarrow> (case chan_recv (errorsChan l) of
              Received e c \<Rightarrow> Some (l\<lparr>errorsChan := c\<rparr>)
            | _ \<Rightarrow> None)
        | TStop \<Rightarrow> tcp_stop_step l)"

fun tcp_run :: "tcp_act list \<Rightarrow> TCPListener \<Rightarrow> TCPListener option" where
  "tcp_run [] l = Some l"
| "tcp_run (a # as) l = Option.bind (tcp_exec a l) (tcp_run as)"

definition tcp_started :: "goint \<Rightarrow> goint \<Rightarrow> TCPListener option" where
  "tcp_started prt bufferSize = Option.bind (NewTCPListener prt bufferSize)
     (\<lambda>l. case TCP_Start True l of Inr l' \<Rightarrow> Some l' | Inl e \<Rightarrow> None)"

inductive tcp_reachable :: "TCPListener \<Rightarrow> bool" where
  start: "tcp_started prt n = Some l \<Longrightarrow> tcp_reachable l"
| step: "tcp_reachable l \<Longrightarrow> tcp_exec a l = Some l' \<Longrightarrow> tcp_reachable l'"

record TCPListenerStats = ListenerStats +
  ls_ActiveConnections :: u64
  ls_TotalConnections :: u64

definition TCP_Stats :: "TCPListener \<Rightarrow> TCPListenerStats" where
  "TCP_Stats l = ListenerStats.extend (UDP_Stats l)
     (TCPListenerStats.fields (activeConnections l) (totalConnections l))"

section \<open>The effects of the steps\<close>

lemma offer_cases:
  assumes "offer r l = Some res"
  obtains (report) e where "r = Reporting e" "\<not> closed (errorsChan l)"
      "length (buf (errorsChan l)) < chan_cap (errorsChan l)"
      "res = Offered (l\<lparr>errorsChan := (errorsChan l)\<lparr>buf := buf (errorsChan l) @ [e]\<rparr>\<rparr>)"
  | (deliver) m where "r = Delivering m" "\<not> closed (messagesChan l)"
      "length (buf (messagesChan l)) < chan_cap (messagesChan l)"
      "res = Offered (l\<lparr>messagesChan := (messagesChan l)\<lparr>buf := buf (messagesChan l) @ [m]\<rparr>\<rparr>)"
  | (panic) "res = Panics" "(\<exists>e. r = Reporting e) \<and> closed (errorsChan l) \<or> (\<exists>m. r = Delivering m) \<and> closed (messagesChan l)"
proof (cases r)
  case (Reporting e)
  then show thesis using assms report panic by (simp add: offer_def chan_send_def split: if_splits)
next
  case (Delivering m)
  then show thesis using assms deliver panic by (simp add: offer_def chan_send_def split: if_splits)
qed (use assms in \<open>simp_all add: offer_def\<close>)

lemma conn_scan_cases:
  assumes "conn_scan now i c l = Some l'"
  obtains (too_long) "handler c = Scanning" "scan_step maxTCPLineSize (unscanned c) (c_ended c \<noteq> None) = TooLong"
      "l' = set_conn i (c\<lparr>handler := Recording ''bufio.Scanner: token too long''\<rparr>) l"
  | (no_more) p where "handler c = Scanning" "scan_step maxTCPLineSize (unscanned c) (c_ended c \<noteq> None) = NoMore"
      "p = Closing \<or> (\<exists>err. c_ended c = Some (Some err) \<and> p = Recording err)"
      "l' = set_conn i (c\<lparr>handler := p\<rparr>) l"
  | (blank) rest where "handler c = Scanning" "scan_step maxTCPLineSize (unscanned c) (c_ended c \<noteq> None) = Token [] rest"
      "l' = set_conn i (c\<lparr>unscanned := rest, c_lines := c_lines c @ [(now, [])]\<rparr>) l"
  | (rejected) line rest e where "handler c = Scanning"
      "scan_step maxTCPLineSize (unscanned c) (c_ended c \<noteq> None) = Token line rest" "line \<noteq> []"
      "ParseTelemetryMessage now line = Inl e"
      "l' = set_conn i (c\<lparr>unscanned := rest, c_lines := c_lines c @ [(now, line)],
                         handler := Offering (Reporting (FromRemote (c_remote c) e))\<rparr>)
             (l\<lparr>messagesRejected := messagesRejected l + 1, lastErrorTime := now,
                lastErrorMessage := Some (ParseErrorFrom (c_remote c) e)\<rparr>)"
  | (received) line rest m where "handler c = Scanning"
      "scan_step maxTCPLineSize (unscanned c) (c_ended c \<noteq> None) = Token line rest" "line \<noteq> []"
      "ParseTelemetryMessage now line = Inr m"
      "l' = set_conn i (c\<lparr>unscanned := rest, c_lines := c_lines c @ [(now, line)],
                         handler := Offering (Delivering m)\<rparr>)
             (l\<lparr>messagesReceived := messagesReceived l + 1\<rparr>)"
proof -
  have sc: "handler c = Scanning" using assms by (simp add: conn_scan_def split: if_splits)
  show thesis
  proof (cases "scan_step maxTCPLineSize (unscanned c) (c_ended c \<noteq> None)")
    case (Token line rest)
    show thesis
    proof (cases "line = []")
      case True
      then show thesis using assms sc Token blank by (simp add: conn_scan_def Let_def)
    next
      case False
      then show thesis using assms sc Token rejected received
        by (cases "ParseTelemetryMessage now line") (auto simp: conn_scan_def ingest_def Let_def)
    qed
  next
    case NoMore
    then show thesis using assms sc no_more
      by (auto simp: conn_scan_def split: option.splits)
  qed (use assms sc too_long in \<open>simp_all add: conn_scan_def\<close>)
qed

lemma conn_offer_cases:
  assumes "conn_offer i c l = Some l'"
  obtains (report) e where "handler c = Offering (Reporting e)" "\<not> closed (errorsChan l)"
      "length (buf (errorsChan l)) < chan_cap (errorsChan l)"
      "l' = set_conn i (c\<lparr>handler := Scanning\<rparr>) (l\<lparr>errorsChan := (errorsChan l)\<lparr>buf := buf (errorsChan l) @ [e]\<rparr>\<rparr>)"
  | (deliver) m where "handler c = Offering (Delivering m)" "\<not> closed (messagesChan l)"
      "length (buf (messagesChan l)) < chan_cap (messagesChan l)"
      "l' = (set_conn i (c\<lparr>handler := Scanning\<rparr>) (l\<lparr>messagesChan := (messagesChan l)\<lparr>buf := buf (messagesChan l) @ [m]\<rparr>\<rparr>))
         \<lparr>t_delivered := t_delivered l @ [(i, m)]\<rparr>"
  | (panic) r where "handler c = Offering r" "l' = l\<lparr>t_panicked := True\<rparr>"
      "(\<exists>e. r = Reporting e) \<and> closed (errorsChan l) \<or> (\<exists>m. r = Delivering m) \<and> closed (messagesChan l)"
proof -
  obtain r where r: "handler c = Offering r" using assms by (simp add: conn_offer_def split: tcp_phase.splits)
  then obtain res where res: "offer r l = Some res" using assms by (auto simp: conn_offer_def)
  from res show thesis
  proof (cases rule: offer_cases)
    case (report e)
    then show thesis using that(1) assms r res by (auto simp: conn_offer_def set_conn_def)
  next
    case (deliver m)
    then show thesis using that(2) assms r res by (auto simp: conn_offer_def set_conn_def)
  next
    case panic
    then show thesis using that(3) assms r res by (auto simp: conn_offer_def)
  qed
qed

lemma conn_exit_cases:
  assumes "conn_exit now i c l = Some l'"
  obtains (recorded) err where "handler c = Recording err"
      "l' = (set_conn i (c\<lparr>handler := Closing\<rparr>) l)\<lparr>lastErrorTime := now,
         lastErrorMessage := Some (ReadErrorFrom (c_remote c) err)\<rparr>"
  | (closed_conn) "handler c = Closing" "l' = set_conn i (c\<lparr>handler := Removing, c_closed := True\<rparr>) l"
  | (removed) "handler c = Removing" "l' = (set_conn i (c\<lparr>handler := Uncounting\<rparr>) l)\<lparr>connections := connections l - {i}\<rparr>"
  | (uncounted) "handler c = Uncounting"
      "l' = (set_conn i (c\<lparr>handler := Exited\<rparr>) l)\<lparr>activeConnections := activeConnections l - 1\<rparr>"
  using assms that by (simp add: conn_exit_def split: tcp_phase.splits)

lemma accept_offer_cases:
  assumes "accept_offer l = Some l'"
  obtains (report) err where "accepting l = AcceptReporting err" "\<not> closed (errorsChan l)"
      "length (buf (errorsChan l)) < chan_cap (errorsChan l)"
      "l' = l\<lparr>errorsChan := (errorsChan l)\<lparr>buf := buf (errorsChan l) @ [IoError err]\<rparr>, accepting := Accepting\<rparr>"
  | (panic) err where "accepting l = AcceptReporting err" "closed (errorsChan l)" "l' = l\<lparr>t_panicked := True\<rparr>"
proof -
  obtain err where r: "accepting l = AcceptReporting err" using assms by (simp add: accept_offer_def split: accept_phase.splits)
  then obtain res where res: "offer (Reporting (IoError err)) l = Some res" using assms by (auto simp: accept_offer_def)
  from res show thesis by (cases rule: offer_cases) (use that assms r res in \<open>auto simp: accept_offer_def\<close>)
qed

lemma tcp_stop_cases:
  assumes "tcp_stop_step l = Some l'"
  obtains (enter) "t_stopping l = TNotStopping" "l' = l\<lparr>t_stopping := (if l_isRunning l then TChecked else TStopped)\<rparr>"
  | (clear) "t_stopping l = TChecked" "l' = l\<lparr>l_isRunning := False, t_stopping := TCleared\<rparr>"
  | (signal) "t_stopping l = TCleared" "\<not> l_stopClosed l" "l' = l\<lparr>l_stopClosed := True, t_stopping := TSignalled\<rparr>"
  | (signal_panic) "t_stopping l = TCleared" "l_stopClosed l" "l' = l\<lparr>t_panicked := True\<rparr>"
  | (close_listener) "t_stopping l = TSignalled"
      "l' = l\<lparr>t_listener := (if t_listener l = NoConn then NoConn else Closed), t_stopping := TListenerClosed\<rparr>"
  | (close_conns) "t_stopping l = TListenerClosed"
      "l' = l\<lparr>conns := close_registered (connections l) (conns l), t_stopping := TConnsClosed\<rparr>"
  | (join) "t_stopping l = TConnsClosed" "all_exited l" "l' = l\<lparr>t_stopping := TJoined\<rparr>"
  | (close_messages) "t_stopping l = TJoined" "\<not> closed (messagesChan l)"
      "l' = l\<lparr>messagesChan := (messagesChan l)\<lparr>closed := True\<rparr>, t_stopping := TMessagesClosed\<rparr>"
  | (messages_panic) "t_stopping l = TJoined" "closed (messagesChan l)" "l' = l\<lparr>t_panicked := True\<rparr>"
  | (close_errors) "t_stopping l = TMessagesClosed" "\<not> closed (errorsChan l)"
      "l' = l\<lparr>errorsChan := (errorsChan l)\<lparr>closed := True\<rparr>, t_stopping := TStopped\<rparr>"
  | (errors_panic) "t_stopping l = TMessagesClosed" "closed (errorsChan l)" "l' = l\<lparr>t_panicked := True\<rparr>"
proof (cases "t_stopping l")
  case TNotStopping
  then show thesis using assms enter by (simp add: tcp_stop_step_def)
next
  case TChecked
  then show thesis using assms clear by (simp add: tcp_stop_step_def)
next
  case TCleared
  then show thesis using assms signal signal_panic by (cases "l_stopClosed l") (simp_all add: tcp_stop_step_def)
next
  case TSignalled
  then show thesis using assms close_listener by (simp add: tcp_stop_step_def)
next
  case TListenerClosed
  then show thesis using assms close_conns by (simp add: tcp_stop_step_def)
next
  case TConnsClosed
  then show thesis using assms join by (simp add: tcp_stop_step_def split: if_splits)
next
  case TJoined
  then show thesis using assms close_messages messages_panic
    by (cases "closed (messagesChan l)") (simp_all add: tcp_stop_step_def chan_close_def)
next
  case TMessagesClosed
  then show thesis using assms close_errors errors_panic
    by (cases "closed (errorsChan l)") (simp_all add: tcp_stop_step_def chan_close_def)
next
  case TStopped
  then show thesis using assms by (simp add: tcp_stop_step_def)
qed

lemma conn_exec_i: "conn_exec i a l = Some l' \<Longrightarrow> i < length (conns l)"
  by (simp add: conn_exec_def split: if_splits)

lemma tcp_takes:
  "tcp_exec TTakeMessage l = Some l' \<Longrightarrow> \<exists>m ms. buf (messagesChan l) = m # ms \<and>
     l' = l\<lparr>messagesChan := (messagesChan l)\<lparr>buf := ms\<rparr>, t_taken := t_taken l @ [m]\<rparr>"
  "tcp_exec TTakeError l = Some l' \<Longrightarrow> \<exists>e es. buf (errorsChan l) = e # es \<and>
     l' = l\<lparr>errorsChan := (errorsChan l)\<lparr>buf := es\<rparr>\<rparr>"
  by (simp_all add: tcp_exec_def chan_recv_def split: if_splits list.splits)

lemma tcp_exec_cases:
  assumes "tcp_exec a l = Some l'"
  obtains (accepted) remote where "accepting l = Accepting" "t_listener l = Open"
      "l' = l\<lparr>conns := conns l @ [new_conn remote], accepting := Register (length (conns l))\<rparr>"
  | (accept_done) "accepting l = Accepting" "\<not> l_isRunning l" "l' = l\<lparr>accepting := AcceptDone\<rparr>"
  | (accept_error) now err where "accepting l = Accepting" "l_isRunning l"
      "l' = l\<lparr>lastErrorTime := now, lastErrorMessage := Some (AcceptError err), accepting := AcceptReporting err\<rparr>"
  | (registered) i where "accepting l = Register i"
      "l' = l\<lparr>connections := insert i (connections l), accepting := CountActive i\<rparr>"
  | (count_active) i where "accepting l = CountActive i"
      "l' = l\<lparr>activeConnections := activeConnections l + 1, accepting := CountTotal i\<rparr>"
  | (count_total) i where "accepting l = CountTotal i"
      "l' = l\<lparr>totalConnections := totalConnections l + 1, accepting := Spawn i\<rparr>"
  | (spawned) i where "accepting l = Spawn i"
      "l' = l\<lparr>conns := (conns l)[i := (conns l ! i)\<lparr>handler := Scanning\<rparr>], accepting := Accepting\<rparr>"
  | (accept_report) err where "accepting l = AcceptReporting err" "\<not> closed (errorsChan l)"
      "length (buf (errorsChan l)) < chan_cap (errorsChan l)"
      "l' = l\<lparr>errorsChan := (errorsChan l)\<lparr>buf := buf (errorsChan l) @ [IoError err]\<rparr>, accepting := Accepting\<rparr>"
  | (accept_panic) err where "accepting l = AcceptReporting err" "closed (errorsChan l)" "l' = l\<lparr>t_panicked := True\<rparr>"
  | (accept_abandoned) err where "accepting l = AcceptReporting err" "l_stopClosed l" "l' = l\<lparr>accepting := AcceptDone\<rparr>"
  | (conn) i ca where "a = Conn i ca" "conn_exec i ca l = Some l'" "i < length (conns l)"
  | (took) m ms where "a = TTakeMessage" "buf (messagesChan l) = m # ms"
      "l' = l\<lparr>messagesChan := (messagesChan l)\<lparr>buf := ms\<rparr>, t_taken := t_taken l @ [m]\<rparr>"
  | (took_error) e es where "a = TTakeError" "buf (errorsChan l) = e # es"
      "l' = l\<lparr>errorsChan := (errorsChan l)\<lparr>buf := es\<rparr>\<rparr>"
  | (stop) "a = TStop" "tcp_stop_step l = Some l'"
proof (cases a)
  case (Accept remote)
  then show thesis using assms [symmetric] accepted by (simp add: tcp_exec_def accept_def split: if_splits)
next
  case (AcceptFails now err)
  then show thesis using assms [symmetric] accept_done accept_error by (simp add: tcp_exec_def accept_fails_def split: if_splits)
next
  case AcceptStep
  then have "Some l' = accept_step l" using assms by (simp add: tcp_exec_def split: if_splits)
  then have st: "l' = the (accept_step l)" "accept_step l \<noteq> None" by (metis option.sel, metis option.distinct(1))
  show thesis
  proof (cases "accepting l")
    case (Register i)
    then show thesis using st by (intro registered) (simp_all add: accept_step_def)
  next
    case (CountActive i)
    then show thesis using st by (intro count_active) (simp_all add: accept_step_def)
  next
    case (CountTotal i)
    then show thesis using st by (intro count_total) (simp_all add: accept_step_def)
  next
    case (Spawn i)
    then show thesis using st by (intro spawned) (simp_all add: accept_step_def set_handler_def)
  qed (use st in \<open>simp_all add: accept_step_def\<close>)
next
  case AcceptOffer
  then have "accept_offer l = Some l'" using assms by (simp add: tcp_exec_def split: if_splits)
  then show thesis by (cases rule: accept_offer_cases) (use accept_report accept_panic in blast)+
next
  case AcceptAbandon
  then show thesis using assms [symmetric] accept_abandoned
    by (simp add: tcp_exec_def accept_abandon_def split: if_splits accept_phase.splits)
next
  case (Conn i ca)
  then have "conn_exec i ca l = Some l'" using assms by (simp add: tcp_exec_def split: if_splits)
  then show thesis using conn [OF Conn] conn_exec_i by blast
next
  case TTakeMessage
  then show thesis using assms tcp_takes(1) took by blast
next
  case TTakeError
  then show thesis using assms tcp_takes(2) took_error by blast
next
  case TStop
  then show thesis using assms stop by (simp add: tcp_exec_def split: if_splits)
qed

lemma conn_exec_unfold [simp]:
  assumes "i < length (conns l)"
  shows "conn_exec i (CRead bs) l = map_option (\<lambda>c'. set_conn i c' l) (conn_read bs (conns l ! i))"
    "conn_exec i (CEnd e) l = map_option (\<lambda>c'. set_conn i c' l) (conn_end e (conns l ! i))"
    "conn_exec i (CScan now) l = conn_scan now i (conns l ! i) l"
    "conn_exec i COffer l = conn_offer i (conns l ! i) l"
    "conn_exec i CAbandon l = conn_abandon i (conns l ! i) l"
    "conn_exec i (CExit now) l = conn_exit now i (conns l ! i) l"
  using assms by (simp_all add: conn_exec_def)

lemma conn_read_Some:
  "conn_read bs c = Some c' \<longleftrightarrow> wants_data c \<and> \<not> c_closed c \<and> bs \<noteq> [] \<and>
     length (unscanned c) + length bs \<le> maxTCPLineSize \<and>
     c' = c\<lparr>unscanned := unscanned c @ bs, c_read := c_read c @ bs\<rparr>"
  by (auto simp: conn_read_def)

lemma conn_end_Some:
  "conn_end e c = Some c' \<longleftrightarrow> wants_data c \<and> (c_closed c \<longrightarrow> e \<noteq> None) \<and> c' = c\<lparr>c_ended := Some e\<rparr>"
  by (auto simp: conn_end_def)

lemma tcp_started_eval:
  assumes "tcp_started prt n = Some l"
  shows "l = \<lparr>messagesChan = make_chan (nat n), errorsChan = make_chan 10, l_stopClosed = False,
     l_isRunning = True, messagesReceived = 0, messagesRejected = 0, lastErrorTime = 0,
     lastErrorMessage = None, t_port = prt, t_listener = Open, connections = {},
     activeConnections = 0, totalConnections = 0, accepting = Accepting, conns = [],
     t_stopping = TNotStopping, t_panicked = False, t_delivered = [], t_taken = []\<rparr>"
  using assms
  by (auto simp: tcp_started_def NewTCPListener_def TCP_Start_def new_listener_def listener.extend_def
      TCPListener.fields_def split: if_splits)

section \<open>One connection\<close>

text \<open>What scanning has done so far agrees with the whole stream, whatever is still to come.\<close>

definition scanned_ok :: "tconn \<Rightarrow> bool" where
  "scanned_ok c = (\<forall>d. (c_ended c \<noteq> None \<longrightarrow> d = []) \<longrightarrow>
     scan_lines maxTCPLineSize (c_read c @ d) =
       (map snd (c_lines c) @ fst (scan_lines maxTCPLineSize (unscanned c @ d)),
        snd (scan_lines maxTCPLineSize (unscanned c @ d))))"

definition past_loop :: "tcp_phase \<Rightarrow> bool" where
  "past_loop p = (p \<in> {Closing, Removing, Uncounting, Exited} \<or> (\<exists>e. p = Recording e))"

lemma past_loop_simps [simp]:
  "\<not> past_loop Unstarted" "\<not> past_loop Scanning" "\<not> past_loop (Offering r)" "past_loop (Recording e)"
  "past_loop Closing" "past_loop Removing" "past_loop Uncounting" "past_loop Exited"
  by (simp_all add: past_loop_def)

definition scan_done :: "tconn \<Rightarrow> bool" where
  "scan_done c = (scan_step maxTCPLineSize (unscanned c) (c_ended c \<noteq> None) \<in> {TooLong, NoMore})"

definition conn_inv :: "bool \<Rightarrow> tconn \<Rightarrow> bool" where
  "conn_inv stop c = (scanned_ok c \<and> (handler c = Unstarted \<longrightarrow> c_read c = [] \<and> c_lines c = []) \<and>
     (past_loop (handler c) \<longrightarrow> stop \<or> scan_done c))"

lemma scanned_ok_token:
  assumes "scanned_ok c" and "scan_step maxTCPLineSize (unscanned c) (c_ended c \<noteq> None) = Token line rest"
  shows "scanned_ok (c\<lparr>unscanned := rest, c_lines := c_lines c @ [(now, line)], handler := p\<rparr>)"
    and "scanned_ok (c\<lparr>unscanned := rest, c_lines := c_lines c @ [(now, line)]\<rparr>)"
  using assms scan_step_Token [OF assms(2)] by (simp_all add: scanned_ok_def)

lemma scanned_ok_simps [simp]:
  "scanned_ok (c\<lparr>handler := p\<rparr>) = scanned_ok c" "scanned_ok (c\<lparr>handler := p, c_closed := b\<rparr>) = scanned_ok c"
  "scanned_ok (c\<lparr>c_closed := b\<rparr>) = scanned_ok c"
  "scan_done (c\<lparr>handler := p\<rparr>) = scan_done c" "scan_done (c\<lparr>handler := p, c_closed := b\<rparr>) = scan_done c"
  "scan_done (c\<lparr>c_closed := b\<rparr>) = scan_done c"
  by (simp_all add: scanned_ok_def scan_done_def)

definition conns_inv :: "TCPListener \<Rightarrow> bool" where
  "conns_inv l = (\<forall>c\<in>set (conns l). conn_inv (l_stopClosed l) c)"

lemma conns_inv_update:
  assumes "conns_inv l" and "conn_inv (l_stopClosed l) c" and "conns l' = (conns l)[i := c]"
    and "l_stopClosed l' = l_stopClosed l"
  shows "conns_inv l'"
  using assms set_update_subset_insert [of "conns l" i c] by (auto simp: conns_inv_def)

lemma set_conn_simps [simp]:
  "conns (set_conn i c l) = (conns l)[i := c]" "l_stopClosed (set_conn i c l) = l_stopClosed l"
  "messagesChan (set_conn i c l) = messagesChan l" "errorsChan (set_conn i c l) = errorsChan l"
  "connections (set_conn i c l) = connections l" "accepting (set_conn i c l) = accepting l"
  "activeConnections (set_conn i c l) = activeConnections l" "totalConnections (set_conn i c l) = totalConnections l"
  "messagesReceived (set_conn i c l) = messagesReceived l" "messagesRejected (set_conn i c l) = messagesRejected l"
  "t_delivered (set_conn i c l) = t_delivered l" "t_taken (set_conn i c l) = t_taken l"
  "t_stopping (set_conn i c l) = t_stopping l" "t_panicked (set_conn i c l) = t_panicked l"
  "l_isRunning (set_conn i c l) = l_isRunning l" "t_listener (set_conn i c l) = t_listener l"
  by (simp_all add: set_conn_def)

lemma scanned_ok_read:
  assumes "scanned_ok c" and "wants_data c"
  shows "scanned_ok (c\<lparr>unscanned := unscanned c @ bs, c_read := c_read c @ bs\<rparr>)"
proof -
  have "c_ended c = None"
    using assms(2) scan_step_ended [of maxTCPLineSize "unscanned c"] by (cases "c_ended c") (auto simp: wants_data_def)
  then show ?thesis using assms(1) by (simp add: scanned_ok_def)
qed

lemma scanned_ok_end: "scanned_ok c \<Longrightarrow> scanned_ok (c\<lparr>c_ended := Some e\<rparr>)"
  by (auto simp: scanned_ok_def)

lemma conn_exec_conns_inv:
  assumes "conns_inv l" and "conn_exec i a l = Some l'"
  shows "conns_inv l'"
proof -
  have i: "i < length (conns l)" using assms(2) by (rule conn_exec_i)
  let ?c = "conns l ! i"
  have c: "conn_inv (l_stopClosed l) ?c" using assms(1) i by (simp add: conns_inv_def)
  note upd = conns_inv_update [OF assms(1)]
  show ?thesis
  proof (cases a)
    case (CRead bs)
    then have "wants_data ?c" "l' = set_conn i (?c\<lparr>unscanned := unscanned ?c @ bs, c_read := c_read ?c @ bs\<rparr>) l"
      using assms(2) i by (auto simp: conn_read_Some)
    then show ?thesis using c scanned_ok_read by (intro upd) (auto simp: conn_inv_def wants_data_def)
  next
    case (CEnd e)
    then have "wants_data ?c" "l' = set_conn i (?c\<lparr>c_ended := Some e\<rparr>) l"
      using assms(2) i by (auto simp: conn_end_Some)
    then show ?thesis using c scanned_ok_end by (intro upd) (auto simp: conn_inv_def wants_data_def)
  next
    case (CScan now)
    then have "conn_scan now i ?c l = Some l'" using assms(2) i by simp
    then show ?thesis
    proof (cases rule: conn_scan_cases)
      case too_long
      then show ?thesis using c by (intro upd) (auto simp: conn_inv_def scan_done_def)
    next
      case no_more
      then show ?thesis using c by (intro upd) (auto simp: conn_inv_def scan_done_def)
    next
      case blank
      then show ?thesis using c scanned_ok_token by (intro upd) (auto simp: conn_inv_def)
    next
      case rejected
      then show ?thesis using c scanned_ok_token by (intro upd) (auto simp: conn_inv_def)
    next
      case received
      then show ?thesis using c scanned_ok_token by (intro upd) (auto simp: conn_inv_def)
    qed
  next
    case COffer
    then have "conn_offer i ?c l = Some l'" using assms(2) i by simp
    then show ?thesis
    proof (cases rule: conn_offer_cases)
      case panic
      then show ?thesis using assms(1) by (simp add: conns_inv_def)
    qed (use c in \<open>(intro upd, auto simp: conn_inv_def)+\<close>)
  next
    case CAbandon
    then have "conn_abandon i ?c l = Some l'" using assms(2) i by simp
    then have "l_stopClosed l" "l' = set_conn i (?c\<lparr>handler := Closing\<rparr>) l"
      by (simp_all add: conn_abandon_def split: tcp_phase.splits if_splits)
    then show ?thesis using c by (intro upd) (auto simp: conn_inv_def)
  next
    case (CExit now)
    then have "conn_exit now i ?c l = Some l'" using assms(2) i by simp
    then show ?thesis
      by (cases rule: conn_exit_cases) (use c in \<open>(intro upd, auto simp: conn_inv_def)+\<close>)
  qed
qed

lemma close_registered_length [simp]: "length (close_registered is cs) = length cs"
  by (simp add: close_registered_def)

lemma close_registered_nth:
  "i < length cs \<Longrightarrow> close_registered is cs ! i = (if i \<in> is then (cs ! i)\<lparr>c_closed := True\<rparr> else cs ! i)"
  by (simp add: close_registered_def nth_enumerate_eq)

lemma close_registered_fields [simp]:
  assumes "i < length cs"
  shows "handler (close_registered is cs ! i) = handler (cs ! i)" "c_lines (close_registered is cs ! i) = c_lines (cs ! i)"
  using assms by (simp_all add: close_registered_nth)

lemma close_registered_in:
  assumes "c \<in> set (close_registered is cs)"
  shows "\<exists>c0\<in>set cs. c = c0 \<or> c = c0\<lparr>c_closed := True\<rparr>"
  using assms by (fastforce simp: in_set_conv_nth close_registered_nth)

section \<open>The accept loop and its connections\<close>

text \<open>The connection the accept loop is still setting up, and how far it is.\<close>

fun fresh :: "accept_phase \<Rightarrow> nat option" where
  "fresh (Register i) = Some i"
| "fresh (CountActive i) = Some i"
| "fresh (CountTotal i) = Some i"
| "fresh (Spawn i) = Some i"
| "fresh _ = None"

definition unregistered :: "accept_phase \<Rightarrow> nat option" where
  "unregistered p = (case p of Register i \<Rightarrow> Some i | _ \<Rightarrow> None)"

definition accept_inv :: "TCPListener \<Rightarrow> bool" where
  "accept_inv l = ((\<forall>j<length (conns l). handler (conns l ! j) = Unstarted \<longleftrightarrow> fresh (accepting l) = Some j) \<and>
     (\<forall>i. fresh (accepting l) = Some i \<longrightarrow> Suc i = length (conns l)))"

lemma conn_handler_cases:
  assumes "conn_exec i a l = Some l'" and "handler (conns l ! i) \<noteq> Unstarted"
  obtains (same) "conns l' = conns l" "connections l' = connections l" "activeConnections l' = activeConnections l"
  | (loop) c where "conns l' = (conns l)[i := c]" "handler c \<notin> {Unstarted, Uncounting, Exited}"
      "handler (conns l ! i) \<notin> {Unstarted, Uncounting, Exited}"
      "connections l' = connections l" "activeConnections l' = activeConnections l"
  | (remove) "conns l' = (conns l)[i := (conns l ! i)\<lparr>handler := Uncounting\<rparr>]" "handler (conns l ! i) = Removing"
      "connections l' = connections l - {i}" "activeConnections l' = activeConnections l"
  | (uncount) "conns l' = (conns l)[i := (conns l ! i)\<lparr>handler := Exited\<rparr>]" "handler (conns l ! i) = Uncounting"
      "connections l' = connections l" "activeConnections l' = activeConnections l - 1"
proof (cases a)
  case (CRead bs)
  then show thesis using assms conn_exec_i [OF assms(1)] by (intro loop) (auto simp: conn_read_Some wants_data_def)
next
  case (CEnd e)
  then show thesis using assms conn_exec_i [OF assms(1)] by (intro loop) (auto simp: conn_end_Some wants_data_def)
next
  case (CScan now)
  then have "conn_scan now i (conns l ! i) l = Some l'" using assms conn_exec_i [OF assms(1)] by simp
  then show thesis by (cases rule: conn_scan_cases) (intro loop, auto)+
next
  case COffer
  then have "conn_offer i (conns l ! i) l = Some l'" using assms conn_exec_i [OF assms(1)] by simp
  then show thesis
  proof (cases rule: conn_offer_cases)
    case panic
    then show thesis by (intro same) auto
  qed (intro loop, auto)+
next
  case CAbandon
  then show thesis using assms conn_exec_i [OF assms(1)]
    by (intro loop [of "(conns l ! i)\<lparr>handler := Closing\<rparr>"])
      (auto simp: conn_abandon_def split: tcp_phase.splits if_splits)
next
  case (CExit now)
  then have "conn_exit now i (conns l ! i) l = Some l'" using assms conn_exec_i [OF assms(1)] by simp
  then show thesis
  proof (cases rule: conn_exit_cases)
    case removed
    then show thesis by (intro remove) auto
  next
    case uncounted
    then show thesis by (intro uncount) auto
  qed (intro loop, auto)+
qed

lemma conn_exec_accepting: "conn_exec i a l = Some l' \<Longrightarrow> accepting l' = accepting l \<and> l_stopClosed l' = l_stopClosed l \<and>
    t_stopping l' = t_stopping l \<and> totalConnections l' = totalConnections l \<and> t_taken l' = t_taken l \<and>
    l_isRunning l' = l_isRunning l \<and> t_listener l' = t_listener l"
proof -
  assume l': "conn_exec i a l = Some l'"
  have i: "i < length (conns l)" using l' by (rule conn_exec_i)
  show ?thesis
  proof (cases a)
    case (CScan now)
    then have "conn_scan now i (conns l ! i) l = Some l'" using l' i by simp
    then show ?thesis by (cases rule: conn_scan_cases) (auto simp: set_conn_def)
  next
    case COffer
    then have "conn_offer i (conns l ! i) l = Some l'" using l' i by simp
    then show ?thesis by (cases rule: conn_offer_cases) (auto simp: set_conn_def)
  next
    case (CExit now)
    then have "conn_exit now i (conns l ! i) l = Some l'" using l' i by simp
    then show ?thesis by (cases rule: conn_exit_cases) auto
  qed (use l' i in \<open>auto simp: conn_read_Some conn_end_Some conn_abandon_def split: tcp_phase.splits if_splits\<close>)
qed

lemma conn_exec_started:
  assumes "conn_exec i a l = Some l'"
  shows "handler (conns l ! i) \<noteq> Unstarted"
  using assms conn_exec_i [OF assms]
  by (cases a) (auto simp: conn_read_Some conn_end_Some conn_abandon_def conn_scan_def conn_offer_def
      conn_exit_def wants_data_def split: tcp_phase.splits if_splits)

lemma accept_inv_step:
  assumes "accept_inv l" and "tcp_exec a l = Some l'"
  shows "accept_inv l'"
  using assms(2)
proof (cases rule: tcp_exec_cases)
  case (accepted remote)
  then show ?thesis using assms(1) by (auto simp: accept_inv_def nth_append new_conn_def)
next
  case (spawned i)
  then show ?thesis using assms(1) by (auto simp: accept_inv_def nth_list_update)
next
  case (conn i ca)
  note eq = conn_exec_accepting [OF conn(2)]
  from conn(2) conn_exec_started [OF conn(2)] show ?thesis
  proof (cases rule: conn_handler_cases)
    case same
    then show ?thesis using assms(1) eq by (simp add: accept_inv_def)
  next
    case (loop c)
    then have "handler (conns l' ! j) = Unstarted \<longleftrightarrow> handler (conns l ! j) = Unstarted" if "j < length (conns l)" for j
      using that by (cases "j = i") auto
    then show ?thesis using assms(1) eq loop by (simp add: accept_inv_def)
  next
    case remove
    then have "handler (conns l' ! j) = Unstarted \<longleftrightarrow> handler (conns l ! j) = Unstarted" if "j < length (conns l)" for j
      using that by (cases "j = i") auto
    then show ?thesis using assms(1) eq remove by (simp add: accept_inv_def)
  next
    case uncount
    then have "handler (conns l' ! j) = Unstarted \<longleftrightarrow> handler (conns l ! j) = Unstarted" if "j < length (conns l)" for j
      using that by (cases "j = i") auto
    then show ?thesis using assms(1) eq uncount by (simp add: accept_inv_def)
  qed
next
  case stop
  from stop(2) show ?thesis by (cases rule: tcp_stop_cases) (use assms(1) in \<open>auto simp: accept_inv_def\<close>)
qed (use assms(1) in \<open>auto simp: accept_inv_def\<close>)

text \<open>The counts and the registered set, up to what the accept loop has not done yet.\<close>

fun uncounted :: "accept_phase \<Rightarrow> u64" where
  "uncounted (Register i) = 1"
| "uncounted (CountActive i) = 1"
| "uncounted _ = 0"

fun untotalled :: "accept_phase \<Rightarrow> u64" where
  "untotalled (CountTotal i) = 1"
| "untotalled p = uncounted p"

definition registered_set :: "accept_phase \<Rightarrow> tconn list \<Rightarrow> nat set" where
  "registered_set p cs = {j. j < length cs \<and> unregistered p \<noteq> Some j \<and> handler (cs ! j) \<notin> {Uncounting, Exited}}"

definition live_count :: "tconn list \<Rightarrow> u64" where
  "live_count cs = sum_list (map (\<lambda>c. if handler c = Exited then 0 else 1) cs)"

definition count_inv :: "TCPListener \<Rightarrow> bool" where
  "count_inv l = (connections l = registered_set (accepting l) (conns l) \<and>
     activeConnections l = live_count (conns l) - uncounted (accepting l) \<and>
     totalConnections l = of_nat (length (conns l)) - untotalled (accepting l))"

lemma live_count_update:
  assumes "i < length cs"
  shows "live_count (cs[i := c]) = live_count cs - (if handler (cs ! i) = Exited then 0 else 1) + (if handler c = Exited then 0 else 1)"
  unfolding live_count_def by (rule sum_list_update_add [OF assms])

lemma live_count_eq: "live_count cs = of_nat (length (filter (\<lambda>c. handler c \<noteq> Exited) cs))"
  by (induction cs) (simp_all add: live_count_def)

lemma registered_set_update:
  assumes "i < length cs" and "(handler c \<in> {Uncounting, Exited}) = (handler (cs ! i) \<in> {Uncounting, Exited})"
  shows "registered_set p (cs[i := c]) = registered_set p cs"
  using assms by (auto simp: registered_set_def nth_list_update)

lemma registered_set_close [simp]: "registered_set p (close_registered is cs) = registered_set p cs"
  by (auto simp: registered_set_def)

lemma live_count_close [simp]: "live_count (close_registered is cs) = live_count cs"
proof -
  have "map (\<lambda>c. if handler c = Exited then 0 else (1::u64)) (close_registered is cs) =
      map (\<lambda>c. if handler c = Exited then 0 else 1) cs"
    by (rule nth_equalityI) auto
  then show ?thesis by (simp add: live_count_def)
qed

lemma accepted_counts [simp]:
  "live_count (cs @ [new_conn remote]) = live_count cs + 1"
  "registered_set (Register (length cs)) (cs @ [new_conn remote]) = registered_set Accepting cs"
  by (auto simp: live_count_def registered_set_def unregistered_def nth_append new_conn_def less_Suc_eq)

lemma registered_set_phase [simp]:
  "registered_set (CountActive i) cs = registered_set Accepting cs"
  "registered_set (CountTotal i) cs = registered_set Accepting cs"
  "registered_set (Spawn i) cs = registered_set Accepting cs"
  "registered_set (AcceptReporting e) cs = registered_set Accepting cs"
  "registered_set AcceptDone cs = registered_set Accepting cs"
  by (simp_all add: registered_set_def unregistered_def)

lemma registered_set_insert:
  assumes "i < length cs" and "handler (cs ! i) = Unstarted"
  shows "registered_set Accepting cs = insert i (registered_set (Register i) cs)"
  using assms by (auto simp: registered_set_def unregistered_def)

lemma count_inv_conn:
  assumes "count_inv l" and "conn_exec i a l = Some l'"
  shows "count_inv l'"
proof -
  note eq = conn_exec_accepting [OF assms(2)] and i = conn_exec_i [OF assms(2)]
  from assms(2) conn_exec_started [OF assms(2)] show ?thesis
  proof (cases rule: conn_handler_cases)
    case same
    then show ?thesis using assms(1) eq by (simp add: count_inv_def)
  next
    case (loop c)
    then show ?thesis using assms(1) eq i registered_set_update [OF i, of c] live_count_update [OF i, of c]
      by (simp add: count_inv_def)
  next
    case remove
    then have "registered_set p (conns l') = registered_set p (conns l) - {i}" for p
      using i by (auto simp: registered_set_def nth_list_update)
    then show ?thesis using assms(1) eq i remove live_count_update [OF i] by (simp add: count_inv_def)
  next
    case uncount
    then have "live_count (conns l') = live_count (conns l) - 1"
      using i live_count_update [OF i, of "(conns l ! i)\<lparr>handler := Exited\<rparr>"] by simp
    moreover have "registered_set p (conns l') = registered_set p (conns l)" for p
      using uncount i by (auto simp: registered_set_def nth_list_update)
    ultimately show ?thesis using assms(1) eq i uncount by (simp add: count_inv_def)
  qed
qed

lemma count_inv_step:
  assumes "count_inv l" and "accept_inv l" and "tcp_exec a l = Some l'"
  shows "count_inv l'"
  using assms(3)
proof (cases rule: tcp_exec_cases)
  case (accepted remote)
  then show ?thesis using assms(1) by (simp add: count_inv_def)
next
  case (registered i)
  then have "i < length (conns l)" "handler (conns l ! i) = Unstarted"
    using assms(2) by (auto simp: accept_inv_def)
  then show ?thesis using registered assms(1) registered_set_insert by (simp add: count_inv_def)
next
  case (spawned i)
  then have i: "i < length (conns l)" "handler (conns l ! i) = Unstarted"
    using assms(2) by (auto simp: accept_inv_def)
  then have "registered_set Accepting (conns l') = registered_set Accepting (conns l)"
    using spawned registered_set_update [OF i(1)] by simp
  then show ?thesis using spawned assms(1) i live_count_update [OF i(1)] by (simp add: count_inv_def)
next
  case (conn i ca)
  then show ?thesis using assms(1) count_inv_conn by blast
next
  case stop
  from stop(2) show ?thesis by (cases rule: tcp_stop_cases) (use assms(1) in \<open>auto simp: count_inv_def\<close>)
qed (use assms(1) in \<open>simp_all add: count_inv_def\<close>)

section \<open>Flags\<close>

fun t_order :: "t_stop \<Rightarrow> nat" where
  "t_order TNotStopping = 0" | "t_order TChecked = 1" | "t_order TCleared = 2" | "t_order TSignalled = 3"
| "t_order TListenerClosed = 4" | "t_order TConnsClosed = 5" | "t_order TJoined = 6"
| "t_order TMessagesClosed = 7" | "t_order TStopped = 8"

definition tcp_flags :: "TCPListener \<Rightarrow> bool" where
  "tcp_flags l =
     ((l_isRunning l \<longleftrightarrow> t_order (t_stopping l) < 2) \<and>
      (l_stopClosed l \<longleftrightarrow> 3 \<le> t_order (t_stopping l)) \<and>
      (t_listener l = Open \<longleftrightarrow> t_order (t_stopping l) < 4) \<and>
      (closed (messagesChan l) \<longleftrightarrow> 7 \<le> t_order (t_stopping l)) \<and>
      (closed (errorsChan l) \<longleftrightarrow> 8 \<le> t_order (t_stopping l)) \<and>
      (6 \<le> t_order (t_stopping l) \<longrightarrow> all_exited l) \<and> \<not> t_panicked l \<and>
      chan_cap (errorsChan l) = 10 \<and> chan_ok (errorsChan l) \<and> chan_ok (messagesChan l))"

lemma all_exited_not:
  "all_exited l \<Longrightarrow> i < length (conns l) \<Longrightarrow> handler (conns l ! i) = Exited"
  by (auto simp: all_exited_def list_all_length)

lemma conn_exec_exited:
  assumes "conn_exec i a l = Some l'"
  shows "handler (conns l ! i) \<noteq> Exited"
  using assms conn_exec_i [OF assms]
  by (cases a) (auto simp: conn_read_Some conn_end_Some conn_abandon_def conn_scan_def conn_offer_def
      conn_exit_def wants_data_def split: tcp_phase.splits if_splits)

lemma tcp_flags_conn:
  assumes "tcp_flags l" and "conn_exec i a l = Some l'"
  shows "tcp_flags l'"
proof -
  note eq = conn_exec_accepting [OF assms(2)] and i = conn_exec_i [OF assms(2)]
  have ne: "\<not> all_exited l" using conn_exec_exited [OF assms(2)] all_exited_not i by blast
  then have o: "t_order (t_stopping l) < 6" using assms(1) by (auto simp: tcp_flags_def)
  have "messagesChan l' = messagesChan l \<and> errorsChan l' = errorsChan l \<and> t_panicked l' = t_panicked l \<or>
      conn_offer i (conns l ! i) l = Some l'"
  proof (cases a)
    case (CScan now)
    then have "conn_scan now i (conns l ! i) l = Some l'" using assms(2) i by simp
    then show ?thesis by (cases rule: conn_scan_cases) auto
  next
    case (CExit now)
    then have "conn_exit now i (conns l ! i) l = Some l'" using assms(2) i by simp
    then show ?thesis by (cases rule: conn_exit_cases) auto
  qed (use assms(2) i in \<open>auto simp: conn_read_Some conn_end_Some conn_abandon_def split: tcp_phase.splits if_splits\<close>)
  then show ?thesis
  proof
    assume "conn_offer i (conns l ! i) l = Some l'"
    then show ?thesis
      by (cases rule: conn_offer_cases) (use assms(1) eq o in \<open>auto simp: tcp_flags_def chan_ok_def\<close>)
  qed (use assms(1) eq o in \<open>auto simp: tcp_flags_def\<close>)
qed

lemma tcp_flags_step:
  assumes "tcp_flags l" and "tcp_exec a l = Some l'"
  shows "tcp_flags l'"
proof -
  have o: "t_order (t_stopping l) < 6" if "accepting l \<noteq> AcceptDone"
    using assms(1) that by (auto simp: tcp_flags_def all_exited_def)
  from assms(2) show ?thesis
  proof (cases rule: tcp_exec_cases)
    case (conn i ca)
    then show ?thesis using assms(1) tcp_flags_conn by blast
  next
    case (took m ms)
    then show ?thesis using assms(1) by (auto simp: tcp_flags_def chan_ok_def all_exited_def)
  next
    case (took_error e es)
    then show ?thesis using assms(1) by (auto simp: tcp_flags_def chan_ok_def all_exited_def)
  next
    case stop
    from stop(2) show ?thesis
      by (cases rule: tcp_stop_cases) (use assms(1) in \<open>auto simp: tcp_flags_def all_exited_def chan_ok_def\<close>)
  qed (use assms(1) o in \<open>auto simp: tcp_flags_def chan_ok_def\<close>)
qed

section \<open>Messages and counters\<close>

text \<open>The outcomes of the lines a connection's handler has read, blank ones skipped.\<close>

definition outs :: "tconn \<Rightarrow> (parse_error + TelemetryMessage) list" where
  "outs c = map (\<lambda>(now, line). ParseTelemetryMessage now line) (filter (\<lambda>(now, line). line \<noteq> []) (c_lines c))"

definition sent_by :: "nat \<Rightarrow> (nat \<times> 'm) list \<Rightarrow> 'm list" where
  "sent_by i ps = map snd (filter (\<lambda>p. fst p = i) ps)"

fun tcp_in_step :: "tcp_phase \<Rightarrow> TelemetryMessage list \<Rightarrow> TelemetryMessage list \<Rightarrow> bool" where
  "tcp_in_step Unstarted acc sent = (acc = sent)"
| "tcp_in_step Scanning acc sent = (acc = sent)"
| "tcp_in_step (Offering r) acc sent = (acc = sent @ held r)"
| "tcp_in_step p acc sent = (\<exists>x. acc = sent @ x \<and> length x \<le> 1)"

definition conn_flow :: "(nat \<times> TelemetryMessage) list \<Rightarrow> nat \<Rightarrow> tconn \<Rightarrow> bool" where
  "conn_flow dl i c = tcp_in_step (handler c) (oks (outs c)) (sent_by i dl)"

definition received_sum :: "tconn list \<Rightarrow> u64" where
  "received_sum cs = sum_list (map (\<lambda>c. of_nat (length (oks (outs c)))) cs)"

definition outcome_sum :: "tconn list \<Rightarrow> u64" where
  "outcome_sum cs = sum_list (map (\<lambda>c. of_nat (length (outs c))) cs)"

definition flow_inv :: "TCPListener \<Rightarrow> bool" where
  "flow_inv l = (map snd (t_delivered l) = t_taken l @ buf (messagesChan l) \<and>
     (\<forall>p\<in>set (t_delivered l). fst p < length (conns l)) \<and>
     (\<forall>i<length (conns l). conn_flow (t_delivered l) i (conns l ! i)) \<and>
     messagesReceived l = received_sum (conns l) \<and>
     messagesReceived l + messagesRejected l = outcome_sum (conns l))"

lemma sent_by_simps [simp]:
  "sent_by i [] = []" "sent_by i (ps @ [(j, m)]) = (if i = j then sent_by i ps @ [m] else sent_by i ps)"
  by (simp_all add: sent_by_def)

lemma outs_simps [simp]:
  "outs (c\<lparr>handler := p\<rparr>) = outs c" "outs (c\<lparr>handler := p, c_closed := b\<rparr>) = outs c"
  "outs (c\<lparr>unscanned := u, c_read := rd\<rparr>) = outs c" "outs (c\<lparr>c_ended := e\<rparr>) = outs c"
  "outs (c\<lparr>unscanned := u, c_lines := c_lines c @ [(now, [])]\<rparr>) = outs c"
  "line \<noteq> [] \<Longrightarrow> outs (c\<lparr>unscanned := u, c_lines := c_lines c @ [(now, line)]\<rparr>) =
     outs c @ [ParseTelemetryMessage now line]"
  "outs (new_conn remote) = []"
  by (simp_all add: outs_def new_conn_def)

lemma sums_update:
  assumes "i < length cs"
  shows "received_sum (cs[i := c]) = received_sum cs - of_nat (length (oks (outs (cs ! i)))) + of_nat (length (oks (outs c)))"
    and "outcome_sum (cs[i := c]) = outcome_sum cs - of_nat (length (outs (cs ! i))) + of_nat (length (outs c))"
  unfolding received_sum_def outcome_sum_def by (rule sum_list_update_add [OF assms])+

lemma sums_close [simp]:
  "received_sum (close_registered is cs) = received_sum cs" "outcome_sum (close_registered is cs) = outcome_sum cs"
proof -
  have "map f (close_registered is cs) = map f cs" if "\<And>c. f (c\<lparr>c_closed := True\<rparr>) = f c" for f :: "tconn \<Rightarrow> u64"
    using that by (intro nth_equalityI) (auto simp: close_registered_nth)
  then show "received_sum (close_registered is cs) = received_sum cs" "outcome_sum (close_registered is cs) = outcome_sum cs"
    by (simp_all add: received_sum_def outcome_sum_def outs_def)
qed

text \<open>One connection changes, with at most one message sent.\<close>

lemma flow_inv_update:
  assumes "flow_inv l" and "i < length (conns l)" and "conns l' = (conns l)[i := c]"
    and "t_delivered l' = t_delivered l @ map (Pair i) ms"
    and "t_taken l' = t_taken l" and "buf (messagesChan l') = buf (messagesChan l) @ ms" and "length ms \<le> 1"
    and "tcp_in_step (handler c) (oks (outs c)) (sent_by i (t_delivered l) @ ms)"
    and "outs c = outs (conns l ! i) @ new"
    and "messagesReceived l' = messagesReceived l + of_nat (length (oks new))"
    and "messagesReceived l' + messagesRejected l' = messagesReceived l + messagesRejected l + of_nat (length new)"
  shows "flow_inv l'"
proof -
  have sent: "sent_by j (t_delivered l') = sent_by j (t_delivered l) @ (if j = i then ms else [])" for j
    using assms(4) by (auto simp: sent_by_def filter_map o_def)
  have "conn_flow (t_delivered l') j (conns l' ! j)" if "j < length (conns l)" for j
    using assms(1,2,3,8) that by (auto simp: flow_inv_def conn_flow_def sent nth_list_update)
  moreover have "messagesReceived l' = received_sum (conns l')"
    using assms(1,3,9,10) sums_update(1) [OF assms(2), of c] by (simp add: flow_inv_def)
  moreover have "messagesReceived l' + messagesRejected l' = outcome_sum (conns l')"
  proof -
    have "messagesReceived l + messagesRejected l = outcome_sum (conns l)"
      using assms(1) unfolding flow_inv_def by blast
    moreover have "outcome_sum (conns l') = outcome_sum (conns l) + of_nat (length new)"
      using assms(3,9) sums_update(2) [OF assms(2), of c] by simp
    ultimately show ?thesis using assms(11) by presburger
  qed
  moreover have "map snd (t_delivered l') = t_taken l' @ buf (messagesChan l')"
    using assms(1,4,5,6) by (simp add: flow_inv_def o_def)
  moreover have "\<forall>p\<in>set (t_delivered l'). fst p < length (conns l')"
    using assms(1,2,3,4) by (auto simp: flow_inv_def)
  ultimately show ?thesis using assms(3) unfolding flow_inv_def by (intro conjI) simp_all
qed

lemma conn_flow_at: "flow_inv l \<Longrightarrow> i < length (conns l) \<Longrightarrow>
    tcp_in_step (handler (conns l ! i)) (oks (outs (conns l ! i))) (sent_by i (t_delivered l))"
  by (simp add: flow_inv_def conn_flow_def)

lemma flow_inv_conn:
  assumes "flow_inv l" and "tcp_flags l" and "conn_exec i a l = Some l'"
  shows "flow_inv l'"
proof -
  note i = conn_exec_i [OF assms(3)]
  note f = conn_flow_at [OF assms(1) i]
  note upd = flow_inv_update [OF assms(1) i, where l' = l' and c = "conns l' ! i"]
  let ?c = "conns l ! i"
  show ?thesis
  proof (cases a)
    case (CRead bs)
    then show ?thesis using assms(3) i f
      by (intro upd [where ms = "[]" and new = "[]"])
        (auto simp: conn_read_Some wants_data_def)
  next
    case (CEnd e)
    then show ?thesis using assms(3) i f
      by (intro upd [where ms = "[]" and new = "[]"])
        (auto simp: conn_end_Some wants_data_def)
  next
    case (CScan now)
    then have "conn_scan now i ?c l = Some l'" using assms(3) i by simp
    then show ?thesis
    proof (cases rule: conn_scan_cases)
      case (rejected line rest e)
      then show ?thesis using f i
        by (intro upd [where ms = "[]" and new = "[Inl e]"]) (auto simp: set_conn_def)
    next
      case (received line rest m)
      then show ?thesis using f i
        by (intro upd [where ms = "[]" and new = "[Inr m]"]) (auto simp: set_conn_def)
    next
      case no_more
      then show ?thesis using f i by (intro upd [where ms = "[]" and new = "[]"]) (auto simp: set_conn_def)
    next
      case blank
      then show ?thesis using f i by (intro upd [where ms = "[]" and new = "[]"]) (auto simp: set_conn_def)
    next
      case too_long
      then show ?thesis using f i by (intro upd [where ms = "[]" and new = "[]"]) (auto simp: set_conn_def)
    qed
  next
    case COffer
    then have "conn_offer i ?c l = Some l'" using assms(3) i by simp
    then show ?thesis
    proof (cases rule: conn_offer_cases)
      case (deliver m)
      then show ?thesis using f i by (intro upd [where ms = "[m]" and new = "[]"]) (auto simp: set_conn_def)
    next
      case (report e)
      then show ?thesis using f i by (intro upd [where ms = "[]" and new = "[]"]) (auto simp: set_conn_def)
    next
      case panic
      then show ?thesis using assms(1) by (auto simp: flow_inv_def)
    qed
  next
    case CAbandon
    then obtain r where "handler ?c = Offering r" "l' = set_conn i (?c\<lparr>handler := Closing\<rparr>) l"
      using assms(3) i by (auto simp: conn_abandon_def split: tcp_phase.splits if_splits)
    then show ?thesis using f i
      by (intro upd [where ms = "[]" and new = "[]"]) (cases r, auto simp: set_conn_def)+
  next
    case (CExit now)
    then have "conn_exit now i ?c l = Some l'" using assms(3) i by simp
    then show ?thesis
    proof (cases rule: conn_exit_cases)
      case recorded
      then show ?thesis using f i by (intro upd [where ms = "[]" and new = "[]"]) (auto simp: set_conn_def)
    next
      case closed_conn
      then show ?thesis using f i by (intro upd [where ms = "[]" and new = "[]"]) (auto simp: set_conn_def)
    next
      case removed
      then show ?thesis using f i by (intro upd [where ms = "[]" and new = "[]"]) (auto simp: set_conn_def)
    next
      case uncounted
      then show ?thesis using f i by (intro upd [where ms = "[]" and new = "[]"]) (auto simp: set_conn_def)
    qed
  qed
qed

lemma flow_inv_step:
  assumes "flow_inv l" and "accept_inv l" and "tcp_flags l" and "tcp_exec a l = Some l'"
  shows "flow_inv l'"
  using assms(4)
proof (cases rule: tcp_exec_cases)
  case (accepted remote)
  have none: "sent_by (length (conns l)) (t_delivered l) = []"
    using assms(1) by (auto simp: flow_inv_def sent_by_def filter_empty_conv)
  have "conn_flow (t_delivered l') j (conns l' ! j)" if "j < length (conns l')" for j
    using that accepted assms(1) none
    by (cases "j = length (conns l)") (auto simp: flow_inv_def conn_flow_def nth_append, simp add: new_conn_def outs_def)
  moreover have "received_sum (conns l') = received_sum (conns l)" "outcome_sum (conns l') = outcome_sum (conns l)"
    using accepted by (simp_all add: received_sum_def outcome_sum_def)
  ultimately show ?thesis using accepted assms(1) by (fastforce simp: flow_inv_def)
next
  case (spawned i)
  then have i: "i < length (conns l)" "handler (conns l ! i) = Unstarted"
    using assms(2) by (auto simp: accept_inv_def)
  then show ?thesis using spawned conn_flow_at [OF assms(1) i(1)]
    by (intro flow_inv_update [OF assms(1) i(1), where ms = "[]" and new = "[]" and c = "conns l' ! i"]) auto
next
  case (conn i ca)
  then show ?thesis using assms(1,3) flow_inv_conn by blast
next
  case stop
  from stop(2) show ?thesis
    by (cases rule: tcp_stop_cases) (use assms(1) in \<open>auto simp: flow_inv_def conn_flow_def outs_def\<close>)
qed (use assms(1) in \<open>auto simp: flow_inv_def\<close>)

definition tcp_inv :: "TCPListener \<Rightarrow> bool" where
  "tcp_inv l = (accept_inv l \<and> count_inv l \<and> conns_inv l \<and> tcp_flags l \<and> flow_inv l)"

lemma conns_inv_step:
  assumes "conns_inv l" and "accept_inv l" and "tcp_exec a l = Some l'"
  shows "conns_inv l'"
  using assms(3)
proof (cases rule: tcp_exec_cases)
  case (accepted remote)
  then show ?thesis using assms(1) by (auto simp: conns_inv_def conn_inv_def scanned_ok_def new_conn_def)
next
  case (spawned i)
  then have i: "i < length (conns l)" "handler (conns l ! i) = Unstarted"
    using assms(2) by (auto simp: accept_inv_def)
  then have "conn_inv (l_stopClosed l) (conns l ! i)" using assms(1) by (simp add: conns_inv_def)
  then show ?thesis using spawned by (intro conns_inv_update [OF assms(1)]) (auto simp: conn_inv_def)
next
  case (conn i ca)
  then show ?thesis using assms(1) conn_exec_conns_inv by blast
next
  case stop
  from stop(2) show ?thesis
  proof (cases rule: tcp_stop_cases)
    case close_conns
    then show ?thesis using assms(1) close_registered_in [of _ "connections l" "conns l"]
      by (fastforce simp: conns_inv_def conn_inv_def)
  qed (use assms(1) in \<open>auto simp: conns_inv_def conn_inv_def\<close>)
qed (use assms(1) in \<open>auto simp: conns_inv_def\<close>)

lemma tcp_inv_step: "tcp_inv l \<Longrightarrow> tcp_exec a l = Some l' \<Longrightarrow> tcp_inv l'"
  unfolding tcp_inv_def
  using accept_inv_step count_inv_step conns_inv_step tcp_flags_step flow_inv_step by blast

lemma tcp_reachable_inv: "tcp_reachable l \<Longrightarrow> tcp_inv l"
proof (induction rule: tcp_reachable.induct)
  case (start prt n l)
  show ?case
    by (subst tcp_started_eval [OF start])
      (simp add: tcp_inv_def accept_inv_def count_inv_def conns_inv_def tcp_flags_def flow_inv_def
        registered_set_def live_count_def received_sum_def outcome_sum_def)
next
  case (step l a l')
  then show ?case using tcp_inv_step by blast
qed

lemma tcp_run_reachable: "tcp_run as l = Some l' \<Longrightarrow> tcp_reachable l \<Longrightarrow> tcp_reachable l'"
  by (induction as arbitrary: l) (auto intro: tcp_reachable.step split: Option.bind_splits)

lemma tcp_run_append: "tcp_run (as @ bs) l = Option.bind (tcp_run as l) (tcp_run bs)"
  by (induction as arbitrary: l) (auto split: Option.bind_split)

lemma sums_concat:
  "received_sum cs = of_nat (length (oks (concat (map outs cs))))"
  "outcome_sum cs = of_nat (length (concat (map outs cs)))"
  by (induction cs) (simp_all add: received_sum_def outcome_sum_def)

lemma tcp_line_count:
  assumes "tcp_reachable l"
  shows "messagesReceived l = of_nat (length (oks (concat (map outs (conns l))))) \<and>
    messagesReceived l + messagesRejected l = of_nat (length (concat (map outs (conns l))))"
proof -
  have "flow_inv l" using tcp_reachable_inv [OF assms] by (simp add: tcp_inv_def)
  then show ?thesis unfolding flow_inv_def sums_concat by blast
qed

lemma tcp_active_count:
  assumes "tcp_reachable l" and "fresh (accepting l) = None"
  shows "activeConnections l = of_nat (length (filter (\<lambda>c. handler c \<noteq> Exited) (conns l)))"
proof -
  have "count_inv l" using tcp_reachable_inv [OF assms(1)] by (simp add: tcp_inv_def)
  moreover have "uncounted (accepting l) = 0" using assms(2) by (cases "accepting l") simp_all
  ultimately show ?thesis by (simp add: count_inv_def live_count_eq)
qed

section \<open>A sample run\<close>

text \<open>A client sends one good line in two pieces and disconnects.\<close>

definition first_tcp :: TCPListener where
  "first_tcp = the (tcp_started 5515 4)"

lemma first_tcp: "tcp_started 5515 4 = Some first_tcp"
  by (simp add: first_tcp_def tcp_started_def NewTCPListener_def TCP_Start_def new_listener_def
      listener.extend_def TCPListener.fields_def)

lemmas first_tcp_eval = tcp_started_eval [OF first_tcp]

definition piece1 :: bytes where "piece1 = take 10 good_input"
definition piece2 :: bytes where "piece2 = drop 10 good_input @ [newline]"

lemma pieces:
  "piece1 @ piece2 = good_input @ [newline]" "newline \<notin> set piece1" "newline \<notin> set good_input"
  "length piece1 = 10" "length piece2 < 200" "length good_input < 200" "drop_cr good_input = good_input" "piece1 \<noteq> []" "piece2 \<noteq> []"
  by (simp_all add: piece1_def piece2_def) (simp_all add: good_input_def drop_cr_def)

definition sample_conn_run :: "tcp_act list" where
  "sample_conn_run = [Accept ''a'', AcceptStep, AcceptStep, AcceptStep, AcceptStep,
     Conn 0 (CRead piece1), Conn 0 (CRead piece2), Conn 0 (CScan sample_now), Conn 0 COffer,
     Conn 0 (CEnd None), Conn 0 (CScan sample_now)]"

lemmas tcp_eval = tcp_exec_def accept_def accept_step_def set_handler_def set_conn_def conn_exec_def
  conn_read_def conn_end_def wants_data_def conn_scan_def conn_offer_def ingest_def offer_def chan_send_def
  tcp_stop_step_def close_registered_def all_exited_def new_conn_def Let_def

lemma sample_conn_final:
  "\<exists>l. tcp_run sample_conn_run first_tcp = Some l \<and>
     conns l = [\<lparr>c_remote = ''a'', unscanned = [], c_ended = Some None, c_closed = False, handler = Closing,
       c_read = good_input @ [newline], c_lines = [(sample_now, good_input)]\<rparr>] \<and>
     \<not> l_stopClosed l \<and> accepting l = Accepting"
proof -
  have M: "maxTCPLineSize = 2 ^ 20" by (rule maxTCPLineSize_def)
  have s: "scan_step maxTCPLineSize [] False = NeedData" "scan_step maxTCPLineSize piece1 False = NeedData"
    "scan_step maxTCPLineSize (good_input @ [newline]) False = Token good_input []"
    "scan_step maxTCPLineSize [] True = NoMore"
    using scan_step_partial [of piece1] scan_step_line [of good_input _ "[]"] pieces
    by (simp_all add: M scan_step_partial scan_step_end)
  show ?thesis
    using s pieces
    by (simp add: sample_conn_run_def first_tcp_eval tcp_eval good_input_accepted make_chan_def M)
qed

section \<open>Properties\<close>

text \<open>
  Property C31. Whenever the accept loop is not in the middle of setting up a connection, the
  numbers the TCP listener reports are exact: the active count is the number of handlers that have
  not exited, the total is the number of connections ever accepted, and the set of connections
  holds exactly those whose handler has not yet removed its own.
\<close>

theorem tcp_connection_counts:
  assumes "tcp_reachable l" and "fresh (accepting l) = None"
  shows "ls_ActiveConnections (TCP_Stats l) = of_nat (length (filter (\<lambda>c. handler c \<noteq> Exited) (conns l))) \<and>
    ls_TotalConnections (TCP_Stats l) = of_nat (length (conns l)) \<and>
    connections l = {i. i < length (conns l) \<and> handler (conns l ! i) \<notin> {Uncounting, Exited}}"
proof -
  have c: "count_inv l" using tcp_reachable_inv [OF assms(1)] by (simp add: tcp_inv_def)
  have p: "uncounted (accepting l) = 0" "untotalled (accepting l) = 0" "unregistered (accepting l) = None"
    using assms(2) by (cases "accepting l"; simp add: unregistered_def)+
  show ?thesis using c p
    by (simp add: count_inv_def live_count_eq registered_set_def TCP_Stats_def ListenerStats.extend_def
        TCPListenerStats.fields_def UDP_Stats_def)
qed

lemma first_tcp_run_reachable: "tcp_run as first_tcp = Some l \<Longrightarrow> tcp_reachable l"
  using tcp_run_reachable tcp_reachable.start [OF first_tcp] by blast

theorem tcp_connection_counts_witness:
  "\<exists>l. tcp_run sample_conn_run first_tcp = Some l \<and> ls_ActiveConnections (TCP_Stats l) = 1 \<and>
     ls_TotalConnections (TCP_Stats l) = 1 \<and> connections l = {0}"
proof -
  obtain l where l: "tcp_run sample_conn_run first_tcp = Some l" "accepting l = Accepting"
    "conns l = [\<lparr>c_remote = ''a'', unscanned = [], c_ended = Some None, c_closed = False, handler = Closing,
       c_read = good_input @ [newline], c_lines = [(sample_now, good_input)]\<rparr>]"
    using sample_conn_final by blast
  have "fresh (accepting l) = None" by (simp add: l(2))
  note counts = tcp_connection_counts [OF first_tcp_run_reachable [OF l(1)] this]
  have "length (conns l) = 1" "handler (conns l ! 0) = Closing" by (simp_all add: l(3))
  then have "{i. i < length (conns l) \<and> handler (conns l ! i) \<notin> {Uncounting, Exited}} = {0}" by auto
  moreover have "filter (\<lambda>c. handler c \<noteq> Exited) (conns l) = conns l" by (simp add: l(3))
  ultimately have "ls_ActiveConnections (TCP_Stats l) = 1" "ls_TotalConnections (TCP_Stats l) = 1" "connections l = {0}"
    using counts by (simp_all add: l(3))
  with l(1) show ?thesis by - (rule exI [of _ l], simp only: simp_thms)
qed

text \<open>The lines a handler has seen, and has seen all of when it left its loop by itself.\<close>

lemma tcp_lines_split:
  assumes "tcp_reachable l" and "i < length (conns l)"
  shows "scan_lines maxTCPLineSize (c_read (conns l ! i)) = (map snd (c_lines (conns l ! i)) @
      fst (scan_lines maxTCPLineSize (unscanned (conns l ! i))), snd (scan_lines maxTCPLineSize (unscanned (conns l ! i))))"
  using tcp_reachable_inv [OF assms(1)] assms(2)
  by (simp add: tcp_inv_def conns_inv_def conn_inv_def scanned_ok_def) (metis append_Nil2 nth_mem)

lemma tcp_lines_complete:
  assumes "tcp_reachable l" and "i < length (conns l)" and "past_loop (handler (conns l ! i))" and "\<not> l_stopClosed l"
  shows "map snd (c_lines (conns l ! i)) = fst (scan_lines maxTCPLineSize (c_read (conns l ! i)))"
proof -
  let ?c = "conns l ! i"
  have "conn_inv (l_stopClosed l) ?c"
    using tcp_reachable_inv [OF assms(1)] assms(2) by (simp add: tcp_inv_def conns_inv_def)
  then have "scan_step maxTCPLineSize (unscanned ?c) (c_ended ?c \<noteq> None) \<in> {TooLong, NoMore}"
    using assms(3,4) by (simp add: conn_inv_def scan_done_def)
  then have "fst (scan_lines maxTCPLineSize (unscanned ?c)) = []"
    using scan_step_NoMore [of maxTCPLineSize "unscanned ?c"]
      scan_step_TooLong [of maxTCPLineSize "unscanned ?c" _ "[]"] by fastforce
  then show ?thesis using tcp_lines_split [OF assms(1,2)] by simp
qed

text \<open>
  Property C32. However the network cuts a connection's bytes into pieces, the handler sees the lines
  a scanner over the whole stream would deliver: at any moment those it has seen are a prefix of
  them, and once it has left its loop without \<open>Stop\<close> having been called it has seen all of them,
  up to the end of the stream or the first line of a mebibyte or more.
\<close>

theorem tcp_lines_any_chunking:
  assumes "tcp_reachable l" and "i < length (conns l)"
  shows "\<exists>rest. fst (scan_lines maxTCPLineSize (c_read (conns l ! i))) = map snd (c_lines (conns l ! i)) @ rest \<and>
    (past_loop (handler (conns l ! i)) \<and> \<not> l_stopClosed l \<longrightarrow> rest = [])"
  using tcp_lines_split [OF assms] tcp_lines_complete [OF assms] by fastforce

theorem tcp_lines_any_chunking_witness:
  "\<exists>l. tcp_run sample_conn_run first_tcp = Some l \<and> c_read (conns l ! 0) = piece1 @ piece2 \<and>
     fst (scan_lines maxTCPLineSize (c_read (conns l ! 0))) = [good_input]"
proof -
  obtain l where l: "tcp_run sample_conn_run first_tcp = Some l" "\<not> l_stopClosed l"
    "conns l = [\<lparr>c_remote = ''a'', unscanned = [], c_ended = Some None, c_closed = False, handler = Closing,
       c_read = good_input @ [newline], c_lines = [(sample_now, good_input)]\<rparr>]"
    using sample_conn_final by blast
  note lines = tcp_lines_any_chunking [OF first_tcp_run_reachable [OF l(1)], of 0, unfolded l(3)]
  have "c_read (conns l ! 0) = piece1 @ piece2" "fst (scan_lines maxTCPLineSize (c_read (conns l ! 0))) = [good_input]"
    using lines l(2) pieces(1) by (simp_all add: l(3))
  with l(1) show ?thesis by - (rule exI [of _ l], simp only: simp_thms)
qed

text \<open>
  Property C33. Over all connections the counters of the TCP listener are exact: the received counter
  is the number of acceptable lines handled so far and both counters together are the number of
  non-blank lines. Each connection's accepted messages leave in the order it sent them, none lost or
  doubled except one its handler still holds or has dropped when stopped, and nothing panics.
\<close>

theorem tcp_accounts:
  assumes "tcp_reachable l" and "i < length (conns l)"
  shows "ls_MessagesReceived (TCP_Stats l) = of_nat (length (oks (concat (map outs (conns l))))) \<and>
    ls_MessagesReceived (TCP_Stats l) + ls_MessagesRejected (TCP_Stats l) = of_nat (length (concat (map outs (conns l)))) \<and>
    map snd (t_delivered l) = t_taken l @ buf (messagesChan l) \<and>
    (\<exists>x. oks (outs (conns l ! i)) = sent_by i (t_delivered l) @ x \<and> length x \<le> 1) \<and> \<not> t_panicked l"
proof -
  have f: "flow_inv l" "tcp_flags l" using tcp_reachable_inv [OF assms(1)] by (auto simp: tcp_inv_def)
  have "\<exists>x. oks (outs (conns l ! i)) = sent_by i (t_delivered l) @ x \<and> length x \<le> 1"
    using conn_flow_at [OF f(1) assms(2)]
  proof (cases "handler (conns l ! i)")
    case (Offering r)
    then show ?thesis using conn_flow_at [OF f(1) assms(2)] by (cases r) auto
  qed auto
  moreover have "messagesReceived l = received_sum (conns l)" "messagesReceived l + messagesRejected l = outcome_sum (conns l)"
    "map snd (t_delivered l) = t_taken l @ buf (messagesChan l)" "\<not> t_panicked l"
    using f unfolding flow_inv_def tcp_flags_def by blast+
  ultimately show ?thesis
    unfolding sums_concat by (simp add: TCP_Stats_def ListenerStats.extend_def TCPListenerStats.fields_def UDP_Stats_def)
qed

theorem tcp_accounts_witness:
  "\<exists>l. tcp_run sample_conn_run first_tcp = Some l \<and> ls_MessagesReceived (TCP_Stats l) = 1 \<and>
     t_taken l @ buf (messagesChan l) = map snd (t_delivered l)"
proof -
  obtain l where l: "tcp_run sample_conn_run first_tcp = Some l"
    "conns l = [\<lparr>c_remote = ''a'', unscanned = [], c_ended = Some None, c_closed = False, handler = Closing,
       c_read = good_input @ [newline], c_lines = [(sample_now, good_input)]\<rparr>]"
    using sample_conn_final by blast
  have "good_input \<noteq> []" by simp
  then have o: "oks (concat (map outs (conns l))) = [sample_input_message]" "0 < length (conns l)"
    by (simp_all add: l(2) outs_def good_input_accepted)
  have "ls_MessagesReceived (TCP_Stats l) = 1" "t_taken l @ buf (messagesChan l) = map snd (t_delivered l)"
    using tcp_accounts [OF first_tcp_run_reachable [OF l(1)] o(2), unfolded o(1)] by simp_all
  with l(1) show ?thesis by - (rule exI [of _ l], simp only: simp_thms)
qed

section \<open>A connection that Stop misses\<close>

text \<open>\<open>Stop\<close> waits, and the one connection is open, registered too late and silent.\<close>

definition missed :: "TCPListener \<Rightarrow> bool" where
  "missed l = (t_stopping l = TConnsClosed \<and> accepting l = AcceptDone \<and> connections l = {0} \<and>
     (\<exists>c. conns l = [c] \<and> handler c = Scanning \<and> \<not> c_closed c \<and> c_ended c = None \<and> unscanned c = []))"

text \<open>Steps other than the client of that connection sending something or hanging up.\<close>

definition silent :: "tcp_act \<Rightarrow> bool" where
  "silent a = (case a of Conn i (CRead bs) \<Rightarrow> False | Conn i (CEnd e) \<Rightarrow> False | _ \<Rightarrow> True)"

lemma missed_step:
  assumes "missed l" and "silent a" and "tcp_exec a l = Some l'"
  shows "missed l'"
proof -
  obtain c where c: "conns l = [c]" "handler c = Scanning" "c_ended c = None" "unscanned c = []"
    and st: "t_stopping l = TConnsClosed" "accepting l = AcceptDone"
    using assms(1) unfolding missed_def by blast
  from assms(3) show ?thesis
  proof (cases rule: tcp_exec_cases)
    case (conn i ca)
    have "i = 0" using conn(3) c(1) by simp
    have "scan_step maxTCPLineSize [] False = NeedData"
      using scan_step_partial [of "[]" maxTCPLineSize] by (simp add: maxTCPLineSize_def)
    then have False using conn c \<open>i = 0\<close> assms(2)
      by (cases ca) (auto simp: silent_def conn_scan_def conn_offer_def conn_abandon_def conn_exit_def)
    then show ?thesis ..
  next
    case stop
    have "\<not> all_exited l" using c by (simp add: all_exited_def)
    then show ?thesis using stop(2) st by (simp add: tcp_stop_step_def)
  next
    case (took m ms)
    then show ?thesis using assms(1) by (simp add: missed_def)
  next
    case (took_error e es)
    then show ?thesis using assms(1) by (simp add: missed_def)
  qed (simp_all add: st(2))
qed

lemma missed_run: "tcp_run as l = Some l' \<Longrightarrow> list_all silent as \<Longrightarrow> missed l \<Longrightarrow> missed l'"
  by (induction as arbitrary: l) (auto intro: missed_step split: Option.bind_splits)

text \<open>
  Property C34. \<open>Stop\<close> of the TCP listener can wait forever, although its comment says it closes
  every open connection: a connection accepted before the listening socket was closed but
  registered after \<open>Stop\<close> went over the registered ones stays open, and unless its client sends
  something or hangs up, no schedule lets \<open>Stop\<close> get past its wait.
\<close>

theorem tcp_stop_misses_connection:
  "\<exists>as l. tcp_run as first_tcp = Some l \<and> connections l = {0} \<and>
     {t_stopping l' |l' bs. tcp_run bs l = Some l' \<and> list_all silent bs} = {TConnsClosed}"
proof -
  let ?as = "[Accept ''a'', TStop, TStop, TStop, TStop, TStop, AcceptStep, AcceptStep, AcceptStep, AcceptStep,
    AcceptFails 0 ''use of closed network connection'']"
  have "\<exists>l. tcp_run ?as first_tcp = Some l \<and> missed l"
    by (simp add: first_tcp_eval tcp_eval accept_fails_def missed_def)
  then obtain l where l: "tcp_run ?as first_tcp = Some l" "missed l" by blast
  have "{t_stopping l' |l' bs. tcp_run bs l = Some l' \<and> list_all silent bs} = {TConnsClosed}" (is "?S = _")
  proof
    show "?S \<subseteq> {TConnsClosed}" using missed_run [OF _ _ l(2)] by (auto simp: missed_def)
    have "t_stopping l \<in> ?S" by (intro CollectI exI [of _ l] exI [of _ "[]"]) simp
    then show "{TConnsClosed} \<subseteq> ?S" using l(2) by (simp add: missed_def)
  qed
  moreover have "connections l = {0}" using l(2) by (simp add: missed_def)
  ultimately show ?thesis using l(1) by - (rule exI [of _ ?as], rule exI [of _ l], simp only: simp_thms)
qed

end
