(* ===== verification/Health.thy ===== *)
theory Health
  imports State_Store
begin

text \<open>
  internal/health/monitor.go: the goroutine that scans the store for silent sensors at every tick.
  Its steps are interleaved with the store operations of the workers; a tick gives the clock
  reading and the order in which the scan visits the store's map.
\<close>

section \<open>The monitor\<close>

record MonitorConfig =
  StaleTimeout :: duration
  CheckInterval :: duration

text \<open>The scan goroutine, and a call of \<open>Stop\<close>, which closes the channel and waits.\<close>

datatype m_loop = NotStarted | Waiting | Returned
datatype m_stop = MNotStopping | MSignalled | MStopped

record Monitor =
  m_config :: MonitorConfig
  m_store :: StateStore
  m_stopClosed :: bool
  m_loop :: m_loop

definition NewMonitor :: "MonitorConfig \<Rightarrow> StateStore \<Rightarrow> Monitor" where
  "NewMonitor config store =
     (let c1 = (if StaleTimeout config \<le> 0 then config\<lparr>StaleTimeout := 5 * second\<rparr> else config);
          c2 = (if CheckInterval c1 \<le> 0 then c1\<lparr>CheckInterval := 1 * second\<rparr> else c1)
      in \<lparr>m_config = c2, m_store = store, m_stopClosed = False, m_loop = NotStarted\<rparr>)"

definition Monitor_Start :: "'a Monitor_scheme \<Rightarrow> 'a Monitor_scheme" where
  "Monitor_Start m = m\<lparr>m_loop := Waiting\<rparr>"

text \<open>The monitor in operation, with its log of warnings. The other goroutines' calls on the
  store are the last three actions.\<close>

record monitor_run = Monitor +
  m_ctxDone :: bool
  m_stopping :: m_stop
  m_panicked :: bool
  warned :: "(time \<times> bytes) list"

datatype m_act = Tick "bytes list" time | SeeDone | SeeStop | Cancel | CallStop
  | Message time TelemetryMessage | Error bytes | Anomaly bytes

definition tick :: "bytes list \<Rightarrow> time \<Rightarrow> monitor_run \<Rightarrow> monitor_run" where
  "tick ids now m =
     (let (stale, store) = CheckStale ids now (StaleTimeout (m_config m)) (m_store m)
      in m\<lparr>m_store := store, warned := warned m @ map (Pair now) stale\<rparr>)"

definition monitor_stop_step :: "monitor_run \<Rightarrow> monitor_run option" where
  "monitor_stop_step m = (case m_stopping m of
       MSignalled \<Rightarrow> if m_loop m = Waiting then None else Some (m\<lparr>m_stopping := MStopped\<rparr>)
     | _ \<Rightarrow> Some (if m_stopClosed m then m\<lparr>m_panicked := True\<rparr>
                 else m\<lparr>m_stopClosed := True, m_stopping := MSignalled\<rparr>))"

definition m_exec :: "m_act \<Rightarrow> monitor_run \<Rightarrow> monitor_run option" where
  "m_exec a m =
     (if m_panicked m then None
      else case a of
          Tick ids now \<Rightarrow> if m_loop m = Waiting \<and> map_order ids (m_store m) then Some (tick ids now m) else None
        | SeeDone \<Rightarrow> if m_loop m = Waiting \<and> m_ctxDone m then Some (m\<lparr>m_loop := Returned\<rparr>) else None
        | SeeStop \<Rightarrow> if m_loop m = Waiting \<and> m_stopClosed m then Some (m\<lparr>m_loop := Returned\<rparr>) else None
        | Cancel \<Rightarrow> Some (m\<lparr>m_ctxDone := True\<rparr>)
        | CallStop \<Rightarrow> monitor_stop_step m
        | Message now msg \<Rightarrow> Some (m\<lparr>m_store := snd (Update now msg (m_store m))\<rparr>)
        | Error sid \<Rightarrow> Some (m\<lparr>m_store := RecordError sid (m_store m)\<rparr>)
        | Anomaly sid \<Rightarrow> Some (m\<lparr>m_store := RecordAnomaly sid (m_store m)\<rparr>))"

fun m_run :: "m_act list \<Rightarrow> monitor_run \<Rightarrow> monitor_run option" where
  "m_run [] m = Some m"
| "m_run (a # as) m = Option.bind (m_exec a m) (m_run as)"

definition monitor_started :: "MonitorConfig \<Rightarrow> monitor_run" where
  "monitor_started config = Monitor_Start (Monitor.extend (NewMonitor config NewStateStore)
     (monitor_run.fields False MNotStopping False []))"

section \<open>What should be reported\<close>

text \<open>
  The specification follows one sensor: the time of its last message as long as it has not been
  reported since, and the times of the ticks that should report it.
\<close>

fun silences :: "duration \<Rightarrow> bytes \<Rightarrow> time option \<Rightarrow> m_act list \<Rightarrow> time list" where
  "silences timeout sid alive [] = []"
| "silences timeout sid alive (Message now msg # as) =
     silences timeout sid (if SensorID msg = sid then Some now else alive) as"
| "silences timeout sid alive (Tick ids now # as) =
     (case alive of
        Some t \<Rightarrow> if Sub now t > timeout then now # silences timeout sid None as
                  else silences timeout sid alive as
      | None \<Rightarrow> silences timeout sid alive as)"
| "silences timeout sid alive (a # as) = silences timeout sid alive as"

text \<open>What the store knows of it.\<close>

definition alive_in :: "StateStore \<Rightarrow> bytes \<Rightarrow> time option" where
  "alive_in s sid = (case sensors s sid of
       None \<Rightarrow> None
     | Some e \<Rightarrow> if st_Status (entry_state e) = StatusStale then None else Some (st_LastSeen (entry_state e)))"

lemma alive_Update:
  "alive_in (snd (Update now msg s)) sid = (if SensorID msg = sid then Some now else alive_in s sid)"
proof (cases "sensors s (SensorID msg)")
  case None
  then show ?thesis by (auto simp: alive_in_def Update_def new_entry_def StatusHealthy_def StatusStale_def)
next
  case (Some e)
  have "st_Status (entry_state (snd (update_known now msg e))) = StatusHealthy \<and>
      st_LastSeen (entry_state (snd (update_known now msg e))) = now"
    by (cases rule: update_known_split [of msg e])
      (auto simp: update_known_duplicate update_known_ahead update_known_late)
  then show ?thesis using Some
    by (auto simp: alive_in_def sensors_Update StatusHealthy_def StatusStale_def)
qed

lemma alive_other [simp]:
  "alive_in (RecordError i s) sid = alive_in s sid" "alive_in (RecordAnomaly i s) sid = alive_in s sid"
  by (auto simp: alive_in_def RecordError_def RecordAnomaly_def split: option.split)

lemma alive_CheckStale:
  assumes "map_order ids s"
  shows "alive_in (snd (CheckStale ids now t s)) sid =
    (case alive_in s sid of Some u \<Rightarrow> if Sub now u > t then None else Some u | None \<Rightarrow> None)"
  using assms
  by (auto simp: alive_in_def sensors_CheckStale mark_stale_def stale_entry_def map_order_def split: option.split)

lemma reports_CheckStale:
  assumes "store_ok s" and "map_order ids s"
  shows "filter (\<lambda>i. i = sid) (fst (CheckStale ids now t s)) =
    (case alive_in s sid of Some u \<Rightarrow> if Sub now u > t then [sid] else [] | None \<Rightarrow> [])"
proof -
  have ids: "\<And>i e. sensors s i = Some e \<Longrightarrow> st_SensorID (entry_state e) = i"
    using assms(1) by (auto simp: store_ok_def entry_ok_def)
  have d: "distinct ids" "set ids = dom (sensors s)" using assms(2) by (auto simp: map_order_def)
  have one: "filter (\<lambda>i. i = sid \<and> P i) ids = (if sid \<in> set ids \<and> P sid then [sid] else [])" for P
    using d(1) by (induction ids) auto
  show ?thesis
    using fst_CheckStale [of ids s now t, OF d(1) ids] d(2)
    by (auto simp: one alive_in_def stale_entry_def conj_commute split: option.splits)
qed

lemma tick_fields [simp]:
  "m_store (tick ids now m) = snd (CheckStale ids now (StaleTimeout (m_config m)) (m_store m))"
  "warned (tick ids now m) = warned m @ map (Pair now) (fst (CheckStale ids now (StaleTimeout (m_config m)) (m_store m)))"
  "m_config (tick ids now m) = m_config m"
  by (simp_all add: tick_def case_prod_unfold Let_def)

text \<open>Actions that concern neither the status of a sensor nor the log.\<close>

lemma m_exec_cases:
  assumes "m_exec a m = Some m'"
  obtains (ticked) ids now where "a = Tick ids now" "map_order ids (m_store m)" "m' = tick ids now m"
  | (message) now msg where "a = Message now msg" "m' = m\<lparr>m_store := snd (Update now msg (m_store m))\<rparr>"
  | (other) "\<And>sid. alive_in (m_store m') sid = alive_in (m_store m) sid" "store_ok (m_store m) \<Longrightarrow> store_ok (m_store m')"
      "warned m' = warned m" "m_config m' = m_config m" "\<And>timeout sid alive as. silences timeout sid alive (a # as) = silences timeout sid alive as"
proof (cases a)
  case (Tick ids now)
  then show thesis using assms ticked by (simp add: m_exec_def split: if_splits)
next
  case (Message now msg)
  then show thesis using assms message by (simp add: m_exec_def split: if_splits)
next
  case (Error sid)
  then show thesis using assms store_ok_op [of "m_store m" "OpError sid"]
    by (intro other) (auto simp: m_exec_def split: if_splits)
next
  case (Anomaly sid)
  then show thesis using assms store_ok_op [of "m_store m" "OpAnomaly sid"]
    by (intro other) (auto simp: m_exec_def split: if_splits)
next
  case CallStop
  then show thesis using assms
    by (intro other) (auto simp: m_exec_def monitor_stop_step_def split: if_splits m_stop.splits)
qed (use assms other in \<open>auto simp: m_exec_def split: if_splits\<close>)

lemma reports_run:
  assumes "m_run as m = Some m'" and "store_ok (m_store m)"
  shows "filter (\<lambda>w. snd w = sid) (warned m') = filter (\<lambda>w. snd w = sid) (warned m) @
    map (\<lambda>t. (t, sid)) (silences (StaleTimeout (m_config m)) sid (alive_in (m_store m) sid) as)"
  using assms
proof (induction as arbitrary: m)
  case (Cons a as)
  then obtain m1 where m1: "m_exec a m = Some m1" "m_run as m1 = Some m'" by (auto split: Option.bind_splits)
  note IH = Cons.IH [OF m1(2)]
  from m1(1) show ?case
  proof (cases rule: m_exec_cases)
    case (ticked ids now)
    let ?T = "StaleTimeout (m_config m)"
    have ok: "store_ok (m_store m1)"
      using store_ok_op [OF Cons.prems(2), of "OpStale ids now ?T"] ticked by simp
    have "filter (\<lambda>w. snd w = sid) (map (Pair now) (fst (CheckStale ids now ?T (m_store m)))) =
        map (Pair now) (filter (\<lambda>i. i = sid) (fst (CheckStale ids now ?T (m_store m))))"
      by (simp add: filter_map o_def)
    then show ?thesis
      using IH [OF ok] reports_CheckStale [OF Cons.prems(2) ticked(2)] alive_CheckStale [OF ticked(2)] ticked
      by (simp split: option.split)
  next
    case (message now msg)
    have "store_ok (m_store m1)" using store_ok_op [OF Cons.prems(2), of "OpUpdate now msg"] message by simp
    then show ?thesis using IH message by (simp add: alive_Update)
  next
    case other
    then show ?thesis using IH Cons.prems(2) by simp
  qed
qed simp

section \<open>Properties\<close>

text \<open>
  Property C35. The monitor's warnings about a sensor are exactly those of the specification,
  whatever else happens to the store in between: the first tick that finds the sensor silent for
  longer than the timeout reports it, with the time of that tick, and it is not reported again
  before it has sent another message. A timeout that is not positive counts as five seconds.
\<close>

theorem monitor_reports_each_silence_once:
  assumes "m_run as (monitor_started config) = Some m"
  shows "filter (\<lambda>w. snd w = sid) (warned m) = map (\<lambda>t. (t, sid))
    (silences (if StaleTimeout config \<le> 0 then 5 * second else StaleTimeout config) sid None as)"
proof -
  have "m_store (monitor_started config) = NewStateStore" "warned (monitor_started config) = []"
    "StaleTimeout (m_config (monitor_started config)) = (if StaleTimeout config \<le> 0 then 5 * second else StaleTimeout config)"
    by (simp_all add: monitor_started_def Monitor_Start_def NewMonitor_def Let_def Monitor.extend_def monitor_run.fields_def)
  moreover have "alive_in NewStateStore sid = None" by (simp add: alive_in_def NewStateStore_def)
  ultimately show ?thesis using reports_run [OF assms, of sid] by simp
qed

definition one_sensor :: "bytes \<Rightarrow> m_act \<Rightarrow> bool" where
  "one_sensor sid a = (case a of Tick ids now \<Rightarrow> ids = [sid] | Message now msg \<Rightarrow> SensorID msg = sid | _ \<Rightarrow> False)"

lemma one_sensor_runs:
  "list_all (one_sensor sid) as \<Longrightarrow> \<not> m_panicked m \<Longrightarrow> m_loop m = Waiting \<Longrightarrow> dom (sensors (m_store m)) = {sid} \<Longrightarrow>
     m_run as m \<noteq> None"
proof (induction as arbitrary: m)
  case (Cons a as)
  show ?case
  proof (cases a)
    case (Tick ids now)
    then have "m_exec a m = Some (tick ids now m)" "\<not> m_panicked (tick ids now m)" "m_loop (tick ids now m) = Waiting"
      using Cons.prems by (simp_all add: m_exec_def one_sensor_def map_order_def tick_def case_prod_unfold Let_def)
    then show ?thesis using Cons by (simp add: dom_CheckStale)
  next
    case (Message now msg)
    then have "m_exec a m = Some (m\<lparr>m_store := snd (Update now msg (m_store m))\<rparr>)"
      using Cons.prems by (simp add: m_exec_def)
    moreover have "dom (sensors (snd (Update now msg (m_store m)))) = {sid}"
      using Cons.prems Message by (auto simp: sensors_Update one_sensor_def)
    ultimately show ?thesis using Cons by simp
  qed (use Cons.prems in \<open>simp_all add: one_sensor_def\<close>)
qed simp

text \<open>A sensor is silent for two ticks, speaks, and is silent again.\<close>

theorem monitor_reports_each_silence_once_witness:
  "\<exists>m. m_run [Message 0 (gps_msg ''g'' 1), Tick [''g''] 4000000000, Tick [''g''] 6000000000,
       Tick [''g''] 7000000000, Message 8000000000 (gps_msg ''g'' 2), Tick [''g''] 14000000000]
     (monitor_started \<lparr>StaleTimeout = 0, CheckInterval = 0\<rparr>) = Some m \<and>
     filter (\<lambda>w. snd w = ''g'') (warned m) = [(6000000000, ''g''), (14000000000, ''g'')]"
  (is "\<exists>m. m_run ?as ?m0 = Some m \<and> _")
proof -
  have "m_run ?as ?m0 \<noteq> None"
    using one_sensor_runs [of "''g''" "tl ?as" "the (m_exec (hd ?as) ?m0)"]
    by (simp del: m_run.simps(2) add: m_run.simps(2) [of "Message 0 m" for m] m_exec_def one_sensor_def monitor_started_def
        Monitor_Start_def NewMonitor_def Let_def Monitor.extend_def monitor_run.fields_def NewStateStore_def Update_def)
  then obtain m where m: "m_run ?as ?m0 = Some m" by blast
  have "silences (5 * second) ''g'' None ?as = [6000000000, 14000000000]"
    by (simp add: second_def Sub_def)
  then show ?thesis using monitor_reports_each_silence_once [OF m, of "''g''"] m by simp
qed

end
