(* ===== verification/Server.thy ===== *)
theory Server
  imports Pool_Calls Recorder Udp Tcp Health
begin

text \<open>
  cmd/server/main.go: the server program. \<open>main\<close> builds the parts, starts them and, after a signal,
  runs its deferred calls; one goroutine per listener forwards the listener's messages, first into
  the record file, then into the processor. The state is the product of the parts' states, an action
  is an action of one part or a step of a forwarder or of \<open>main\<close>, and the process is over when a
  goroutine panics or \<open>main\<close> returns. Nobody reads the listeners' error channels.
\<close>

section \<open>Starting\<close>

record server_flags =
  udpPort :: goint
  tcpPort :: goint
  apiAddr :: bytes
  bufferSize :: goint
  numWorkers :: goint
  staleTimeout :: duration
  healthCheckInterval :: duration
  recordFile :: bytes

text \<open>The defaults of the command line.\<close>

definition default_flags :: server_flags where
  "default_flags = \<lparr>udpPort = 9000, tcpPort = 9001, apiAddr = '':8080'', bufferSize = 1000, numWorkers = 8,
     staleTimeout = 5 * second, healthCheckInterval = 1 * second, recordFile = []\<rparr>"

datatype source = FromUDP | FromTCP

text \<open>A forwarder waits for a message, has one to record, has one to enqueue, or is in \<open>Enqueue\<close>.\<close>

datatype forwarder = FWaiting | FRecording TelemetryMessage | FEnqueueing TelemetryMessage
  | FCalling nat TelemetryMessage | FDone

text \<open>What \<open>main\<close> is at: blocked on the signal, or in one of its deferred calls, last to first.\<close>

datatype main_phase = Serving | ClosingRecorder | StoppingAPI | StoppingTCP | StoppingUDP | StoppingMonitor
  | StoppingProcessor | Gone

text \<open>
  The last three fields are ghost history: the messages given to the recorder while it was open,
  whether a write to the record file failed, and the messages the forwarders are done with, with the
  result of \<open>Enqueue\<close>.
\<close>

record Server =
  sv_proc :: system
  sv_monitor :: monitor_run
  sv_udp :: UDPListener
  sv_tcp :: TCPListener
  sv_recorder :: "EventRecorder option"
  sv_files :: file_system
  sv_fwd :: "source \<Rightarrow> forwarder"
  sv_main :: main_phase
  sv_recorded :: "(source \<times> int \<times> TelemetryMessage) list"
  sv_torn :: bool
  sv_log :: "(source \<times> TelemetryMessage \<times> enqueue_error option) list"

text \<open>What the environment makes of the system calls at the start.\<close>

record startup =
  udpBound :: bool
  tcpBound :: bool
  apiBound :: bool
  recordOpenErr :: "unit option"

datatype start_result = Started Server | Exits bytes | StartPanics

definition open_recorder :: "server_flags \<Rightarrow> startup \<Rightarrow> file_system \<Rightarrow> (unit record_error + EventRecorder option) \<times> file_system" where
  "open_recorder fl env fs =
     (if recordFile fl = [] then (Inr None, fs)
      else case NewEventRecorder (recordFile fl) (recordOpenErr env) fs of
          (Inl err, fs') \<Rightarrow> (Inl err, fs')
        | (Inr r, fs') \<Rightarrow> (Inr (Some r), fs'))"

definition main_start :: "server_flags \<Rightarrow> startup \<Rightarrow> file_system \<Rightarrow> start_result" where
  "main_start fl env fs =
     (let proc = started \<lparr>NumWorkers = numWorkers fl, QueueSize = bufferSize fl\<rparr>;
          monitor = monitor_started \<lparr>StaleTimeout = staleTimeout fl, CheckInterval = healthCheckInterval fl\<rparr>
      in case NewUDPListener (udpPort fl) (bufferSize fl) of
          None \<Rightarrow> StartPanics
        | Some udp0 \<Rightarrow> (case UDP_Start (udpBound env) udp0 of
            Inl err \<Rightarrow> Exits ''Failed to start UDP listener''
          | Inr udp \<Rightarrow> (case NewTCPListener (tcpPort fl) (bufferSize fl) of
              None \<Rightarrow> StartPanics
            | Some tcp0 \<Rightarrow> (case TCP_Start (tcpBound env) tcp0 of
                Inl err \<Rightarrow> Exits ''Failed to start TCP listener''
              | Inr tcp \<Rightarrow>
                  if \<not> apiBound env then Exits ''Failed to start API server''
                  else (case open_recorder fl env fs of
                      (Inl err, fs') \<Rightarrow> Exits ''Failed to open record file''
                    | (Inr recorder, fs') \<Rightarrow> Started \<lparr>sv_proc = proc, sv_monitor = monitor, sv_udp = udp,
                        sv_tcp = tcp, sv_recorder = recorder, sv_files = fs', sv_fwd = (\<lambda>_. FWaiting),
                        sv_main = Serving, sv_recorded = [], sv_torn = False, sv_log = []\<rparr>)))))"

section \<open>Running\<close>

text \<open>\<open>for msg := range listener.Messages()\<close>: the next message, or the end of the loop.\<close>

definition take_next :: "source \<Rightarrow> Server \<Rightarrow> Server option" where
  "take_next src s = (case src of
       FromUDP \<Rightarrow> (case chan_recv (messagesChan (sv_udp s)) of
           Received m c \<Rightarrow> map_option (\<lambda>l. s\<lparr>sv_udp := l, sv_fwd := (sv_fwd s)(src := FRecording m)\<rparr>)
             (udp_exec TakeMessage (sv_udp s))
         | RecvClosed \<Rightarrow> Some (s\<lparr>sv_fwd := (sv_fwd s)(src := FDone)\<rparr>)
         | RecvBlocks \<Rightarrow> None)
     | FromTCP \<Rightarrow> (case chan_recv (messagesChan (sv_tcp s)) of
           Received m c \<Rightarrow> map_option (\<lambda>l. s\<lparr>sv_tcp := l, sv_fwd := (sv_fwd s)(src := FRecording m)\<rparr>)
             (tcp_exec TTakeMessage (sv_tcp s))
         | RecvClosed \<Rightarrow> Some (s\<lparr>sv_fwd := (sv_fwd s)(src := FDone)\<rparr>)
         | RecvBlocks \<Rightarrow> None))"

text \<open>The recording half of \<open>forward\<close>; an error is only logged.\<close>

definition forward_record :: "source \<Rightarrow> int \<Rightarrow> unit write_result \<Rightarrow> TelemetryMessage \<Rightarrow> Server \<Rightarrow> Server" where
  "forward_record src zone io m s = (case sv_recorder s of
       None \<Rightarrow> s\<lparr>sv_fwd := (sv_fwd s)(src := FEnqueueing m)\<rparr>
     | Some r \<Rightarrow> (let (err, fs) = Recorder_Record io r zone m (sv_files s)
         in s\<lparr>sv_files := fs, sv_fwd := (sv_fwd s)(src := FEnqueueing m),
              sv_recorded := sv_recorded s @ (if EventRecorder.closed r then [] else [(src, zone, m)]),
              sv_torn := (sv_torn s \<or> io \<noteq> None)\<rparr>))"

text \<open>One step of a forwarder. A message comes with the zone of its timestamp.\<close>

definition forward_step :: "source \<Rightarrow> int \<Rightarrow> unit write_result \<Rightarrow> Server \<Rightarrow> Server option" where
  "forward_step src zone io s = (case sv_fwd s src of
       FWaiting \<Rightarrow> take_next src s
     | FRecording m \<Rightarrow> Some (forward_record src zone io m s)
     | FEnqueueing m \<Rightarrow> map_option
         (\<lambda>p. s\<lparr>sv_proc := p, sv_fwd := (sv_fwd s)(src := FCalling (length (calls (sv_proc s))) m)\<rparr>)
         (exec (Call Enqueue (Some m)) (sv_proc s))
     | FCalling i m \<Rightarrow> (case calls (sv_proc s) ! i of
           call.Returned r \<Rightarrow> Some (s\<lparr>sv_fwd := (sv_fwd s)(src := FWaiting), sv_log := sv_log s @ [(src, m, r)]\<rparr>)
         | _ \<Rightarrow> None)
     | FDone \<Rightarrow> None)"

text \<open>The deferred calls of \<open>main\<close>, each \<open>Stop\<close> one statement at a time.\<close>

definition main_step :: "Server \<Rightarrow> Server option" where
  "main_step s = (case sv_main s of
       Serving \<Rightarrow> None
     | ClosingRecorder \<Rightarrow> Some (s\<lparr>sv_main := StoppingAPI,
         sv_recorder := map_option (\<lambda>r. snd (Recorder_Close r :: unit os_error option \<times> EventRecorder)) (sv_recorder s)\<rparr>)
     | StoppingAPI \<Rightarrow> Some (s\<lparr>sv_main := StoppingTCP\<rparr>)
     | StoppingTCP \<Rightarrow> if t_stopping (sv_tcp s) = TStopped then Some (s\<lparr>sv_main := StoppingUDP\<rparr>)
         else map_option (\<lambda>l. s\<lparr>sv_tcp := l\<rparr>) (tcp_exec TStop (sv_tcp s))
     | StoppingUDP \<Rightarrow> if l_stopping (sv_udp s) = LStopped then Some (s\<lparr>sv_main := StoppingMonitor\<rparr>)
         else map_option (\<lambda>l. s\<lparr>sv_udp := l\<rparr>) (udp_exec UStop (sv_udp s))
     | StoppingMonitor \<Rightarrow> if m_stopping (sv_monitor s) = MStopped then Some (s\<lparr>sv_main := StoppingProcessor\<rparr>)
         else map_option (\<lambda>m. s\<lparr>sv_monitor := m\<rparr>) (m_exec CallStop (sv_monitor s))
     | StoppingProcessor \<Rightarrow> if stopping (sv_proc s) = Stopped then Some (s\<lparr>sv_main := Gone\<rparr>)
         else map_option (\<lambda>p. s\<lparr>sv_proc := p\<rparr>) (exec StopStep (sv_proc s))
     | Gone \<Rightarrow> None)"

text \<open>The monitor works on the processor's store.\<close>

definition monitor_step :: "m_act \<Rightarrow> Server \<Rightarrow> Server option" where
  "monitor_step a s = Option.bind (m_exec a ((sv_monitor s)\<lparr>m_store := p_store (sv_proc s)\<rparr>)) (\<lambda>m. case a of
       Tick ids now \<Rightarrow> map_option (\<lambda>p. s\<lparr>sv_monitor := m, sv_proc := p\<rparr>)
         (exec (Scan ids now (StaleTimeout (m_config (sv_monitor s)))) (sv_proc s))
     | SeeStop \<Rightarrow> Some (s\<lparr>sv_monitor := m\<rparr>)
     | _ \<Rightarrow> None)"

text \<open>The actions that the network and the listeners' own goroutines take; the others are steps of a
  forwarder or of \<open>main\<close>.\<close>

fun udp_own :: "udp_act \<Rightarrow> bool" where
  "udp_own TakeMessage = False"
| "udp_own TakeError = False"
| "udp_own UStop = False"
| "udp_own _ = True"

fun tcp_own :: "tcp_act \<Rightarrow> bool" where
  "tcp_own TTakeMessage = False"
| "tcp_own TTakeError = False"
| "tcp_own TStop = False"
| "tcp_own _ = True"

datatype server_act = SPool act | SMonitor m_act | SUdp udp_act | STcp tcp_act
  | SForward source int "unit write_result" | SSignal | SMain

definition over :: "Server \<Rightarrow> bool" where
  "over s = (crashed (sv_proc s) \<or> m_panicked (sv_monitor s) \<or> panicked (sv_udp s) \<or> t_panicked (sv_tcp s) \<or> sv_main s = Gone)"

definition server_exec :: "server_act \<Rightarrow> Server \<Rightarrow> Server option" where
  "server_exec a s =
     (if over s then None
      else case a of
          SPool b \<Rightarrow> if pool_own b then map_option (\<lambda>p. s\<lparr>sv_proc := p\<rparr>) (exec b (sv_proc s)) else None
        | SUdp b \<Rightarrow> if udp_own b then map_option (\<lambda>l. s\<lparr>sv_udp := l\<rparr>) (udp_exec b (sv_udp s)) else None
        | STcp b \<Rightarrow> if tcp_own b then map_option (\<lambda>l. s\<lparr>sv_tcp := l\<rparr>) (tcp_exec b (sv_tcp s)) else None
        | SMonitor b \<Rightarrow> monitor_step b s
        | SForward src zone io \<Rightarrow> forward_step src zone io s
        | SSignal \<Rightarrow> if sv_main s = Serving then Some (s\<lparr>sv_main := ClosingRecorder\<rparr>) else None
        | SMain \<Rightarrow> main_step s)"

fun server_run :: "server_act list \<Rightarrow> Server \<Rightarrow> Server option" where
  "server_run [] s = Some s"
| "server_run (a # as) s = Option.bind (server_exec a s) (server_run as)"

inductive server_reachable :: "server_flags \<Rightarrow> file_system \<Rightarrow> Server \<Rightarrow> bool" for fl fs where
  start: "main_start fl env fs = Started s \<Longrightarrow> server_reachable fl fs s"
| step: "server_reachable fl fs s \<Longrightarrow> server_exec a s = Some s' \<Longrightarrow> server_reachable fl fs s'"

section \<open>The effects of the steps\<close>

lemma server_exec_cases:
  assumes "server_exec a s = Some s'"
  obtains (pool) b p where "pool_own b" "exec b (sv_proc s) = Some p" "s' = s\<lparr>sv_proc := p\<rparr>"
  | (udp) b l where "udp_own b" "udp_exec b (sv_udp s) = Some l" "s' = s\<lparr>sv_udp := l\<rparr>"
  | (tcp) b l where "tcp_own b" "tcp_exec b (sv_tcp s) = Some l" "s' = s\<lparr>sv_tcp := l\<rparr>"
  | (scan) ids now m p where "m_exec (Tick ids now) ((sv_monitor s)\<lparr>m_store := p_store (sv_proc s)\<rparr>) = Some m"
      "exec (Scan ids now (StaleTimeout (m_config (sv_monitor s)))) (sv_proc s) = Some p"
      "s' = s\<lparr>sv_monitor := m, sv_proc := p\<rparr>"
  | (monitor_ends) m where "m_exec SeeStop ((sv_monitor s)\<lparr>m_store := p_store (sv_proc s)\<rparr>) = Some m" "s' = s\<lparr>sv_monitor := m\<rparr>"
  | (take_udp) l m where "sv_fwd s FromUDP = FWaiting" "udp_exec TakeMessage (sv_udp s) = Some l"
      "taken l = taken (sv_udp s) @ [m]" "s' = s\<lparr>sv_udp := l, sv_fwd := (sv_fwd s)(FromUDP := FRecording m)\<rparr>"
  | (take_tcp) l m where "sv_fwd s FromTCP = FWaiting" "tcp_exec TTakeMessage (sv_tcp s) = Some l"
      "t_taken l = t_taken (sv_tcp s) @ [m]" "s' = s\<lparr>sv_tcp := l, sv_fwd := (sv_fwd s)(FromTCP := FRecording m)\<rparr>"
  | (ends) src where "sv_fwd s src = FWaiting" "s' = s\<lparr>sv_fwd := (sv_fwd s)(src := FDone)\<rparr>"
  | (rec) src zone io m where "sv_fwd s src = FRecording m" "s' = forward_record src zone io m s"
  | (call) src m p where "sv_fwd s src = FEnqueueing m" "exec (Call Enqueue (Some m)) (sv_proc s) = Some p"
      "s' = s\<lparr>sv_proc := p, sv_fwd := (sv_fwd s)(src := FCalling (length (calls (sv_proc s))) m)\<rparr>"
  | (ret) src i m r where "sv_fwd s src = FCalling i m" "calls (sv_proc s) ! i = call.Returned r"
      "s' = s\<lparr>sv_fwd := (sv_fwd s)(src := FWaiting), sv_log := sv_log s @ [(src, m, r)]\<rparr>"
  | (signal) "sv_main s = Serving" "s' = s\<lparr>sv_main := ClosingRecorder\<rparr>"
  | (main) "main_step s = Some s'"
proof (cases a)
  case (SPool b)
  then show thesis using assms pool by (auto simp: server_exec_def split: if_splits)
next
  case (SUdp b)
  then show thesis using assms udp by (auto simp: server_exec_def split: if_splits)
next
  case (STcp b)
  then show thesis using assms tcp by (auto simp: server_exec_def split: if_splits)
next
  case (SMonitor b)
  then have "monitor_step b s = Some s'" using assms by (simp add: server_exec_def split: if_splits)
  then show thesis using scan monitor_ends by (cases b) (auto simp: monitor_step_def split: bind_splits)
next
  case (SForward src zone io)
  then have f: "forward_step src zone io s = Some s'" using assms by (simp add: server_exec_def split: if_splits)
  show thesis
  proof (cases "sv_fwd s src")
    case FWaiting
    then have t: "take_next src s = Some s'" using f by (simp add: forward_step_def)
    show thesis
    proof (cases src)
      case FromUDP
      show thesis
      proof (cases "chan_recv (messagesChan (sv_udp s))")
        case (Received m c)
        then obtain l where l: "udp_exec TakeMessage (sv_udp s) = Some l" "s' = s\<lparr>sv_udp := l, sv_fwd := (sv_fwd s)(FromUDP := FRecording m)\<rparr>"
          using t FromUDP by (auto simp: take_next_def)
        have "taken l = taken (sv_udp s) @ [m]" using l(1) Received by (auto simp: udp_exec.simps split: if_splits)
        then show thesis using take_udp l FWaiting FromUDP by blast
      qed (use t FromUDP FWaiting ends [of src] in \<open>simp_all add: take_next_def\<close>)
    next
      case FromTCP
      show thesis
      proof (cases "chan_recv (messagesChan (sv_tcp s))")
        case (Received m c)
        then obtain l where l: "tcp_exec TTakeMessage (sv_tcp s) = Some l" "s' = s\<lparr>sv_tcp := l, sv_fwd := (sv_fwd s)(FromTCP := FRecording m)\<rparr>"
          using t FromTCP by (auto simp: take_next_def)
        have "t_taken l = t_taken (sv_tcp s) @ [m]" using l(1) Received by (auto simp: tcp_exec_def split: if_splits)
        then show thesis using take_tcp l FWaiting FromTCP by blast
      qed (use t FromTCP FWaiting ends [of src] in \<open>simp_all add: take_next_def\<close>)
    qed
  next
    case (FRecording m)
    then show thesis using f rec by (auto simp: forward_step_def)
  next
    case (FEnqueueing m)
    then show thesis using f call by (auto simp: forward_step_def)
  next
    case (FCalling i m)
    then show thesis using f ret by (auto simp: forward_step_def split: call.splits)
  next
    case FDone
    then show thesis using f by (simp add: forward_step_def)
  qed
next
  case SSignal
  then show thesis using assms signal by (simp add: server_exec_def split: if_splits)
next
  case SMain
  then show thesis using assms main by (simp add: server_exec_def split: if_splits)
qed

lemma main_step_cases:
  assumes "main_step s = Some s'"
  obtains (close_recorder) "sv_main s = ClosingRecorder"
      "s' = s\<lparr>sv_main := StoppingAPI, sv_recorder := map_option (\<lambda>r. snd (Recorder_Close r :: unit os_error option \<times> EventRecorder)) (sv_recorder s)\<rparr>"
  | (stop_api) "sv_main s = StoppingAPI" "s' = s\<lparr>sv_main := StoppingTCP\<rparr>"
  | (tcp_stopped) "sv_main s = StoppingTCP" "t_stopping (sv_tcp s) = TStopped" "s' = s\<lparr>sv_main := StoppingUDP\<rparr>"
  | (stop_tcp) l where "sv_main s = StoppingTCP" "t_stopping (sv_tcp s) \<noteq> TStopped" "tcp_exec TStop (sv_tcp s) = Some l" "s' = s\<lparr>sv_tcp := l\<rparr>"
  | (udp_stopped) "sv_main s = StoppingUDP" "l_stopping (sv_udp s) = LStopped" "s' = s\<lparr>sv_main := StoppingMonitor\<rparr>"
  | (stop_udp) l where "sv_main s = StoppingUDP" "l_stopping (sv_udp s) \<noteq> LStopped" "udp_exec UStop (sv_udp s) = Some l" "s' = s\<lparr>sv_udp := l\<rparr>"
  | (monitor_stopped) "sv_main s = StoppingMonitor" "m_stopping (sv_monitor s) = MStopped" "s' = s\<lparr>sv_main := StoppingProcessor\<rparr>"
  | (stop_monitor) m where "sv_main s = StoppingMonitor" "m_stopping (sv_monitor s) \<noteq> MStopped" "m_exec CallStop (sv_monitor s) = Some m" "s' = s\<lparr>sv_monitor := m\<rparr>"
  | (proc_stopped) "sv_main s = StoppingProcessor" "stopping (sv_proc s) = Stopped" "s' = s\<lparr>sv_main := Gone\<rparr>"
  | (stop_proc) p where "sv_main s = StoppingProcessor" "stopping (sv_proc s) \<noteq> Stopped" "exec StopStep (sv_proc s) = Some p" "s' = s\<lparr>sv_proc := p\<rparr>"
  using assms by (auto simp: main_step_def split: main_phase.splits if_splits)

text \<open>What an action of its own leaves alone in a part.\<close>

lemma udp_own_keeps:
  assumes "udp_exec b l = Some l'" and "udp_own b"
  shows "taken l' = taken l \<and> l_stopping l' = l_stopping l"
proof (cases b)
  case (Datagram now remote dgram)
  then have "l' = receive now remote dgram l" using assms by (simp add: udp_exec.simps split: if_splits)
  then show ?thesis
    by (cases rule: ingest_cases [of now "take (maxMessageSize l) dgram" remote l]) (auto simp: receive_def Let_def)
next
  case (ReadFails now remote err)
  then show ?thesis using assms by (auto simp: udp_exec.simps read_fails_def split: if_splits)
next
  case Offer
  then have "udp_offer l = Some l'" using assms by (simp add: udp_exec.simps split: if_splits)
  then show ?thesis by (cases rule: udp_offer_cases) auto
qed (use assms in \<open>auto simp: udp_exec.simps split: if_splits\<close>)

lemma tcp_own_keeps:
  assumes "tcp_exec b l = Some l'" and "tcp_own b"
  shows "t_taken l' = t_taken l \<and> t_stopping l' = t_stopping l"
  using assms(1)
proof (cases rule: tcp_exec_cases)
  case (conn i ca)
  show ?thesis
  proof (cases ca)
    case (CScan now)
    then have "conn_scan now i (conns l ! i) l = Some l'" using conn by simp
    then show ?thesis by (cases rule: conn_scan_cases) auto
  next
    case COffer
    then have "conn_offer i (conns l ! i) l = Some l'" using conn by simp
    then show ?thesis by (cases rule: conn_offer_cases) auto
  next
    case (CExit now)
    then have "conn_exit now i (conns l ! i) l = Some l'" using conn by simp
    then show ?thesis by (cases rule: conn_exit_cases) auto
  qed (use conn in \<open>auto simp: conn_read_Some conn_end_Some conn_abandon_def split: tcp_phase.splits if_splits\<close>)
qed (use assms(2) in auto)

section \<open>Invariants\<close>

text \<open>The parts run as they do alone.\<close>

definition proc_config :: "server_flags \<Rightarrow> ProcessorConfig" where
  "proc_config fl = \<lparr>NumWorkers = numWorkers fl, QueueSize = bufferSize fl\<rparr>"

definition parts_ok :: "server_flags \<Rightarrow> Server \<Rightarrow> bool" where
  "parts_ok fl s = (reachable (proc_config fl) (sv_proc s) \<and> udp_reachable (sv_udp s) \<and> tcp_reachable (sv_tcp s))"

lemma main_start_Started:
  assumes "main_start fl env fs = Started s"
  obtains r fs' udp tcp where "open_recorder fl env fs = (Inr r, fs')" "udp_reachable udp" "tcp_reachable tcp"
    "taken udp = []" "t_taken tcp = []" "l_stopping udp = LNotStopping" "t_stopping tcp = TNotStopping"
    "s = \<lparr>sv_proc = started (proc_config fl),
       sv_monitor = monitor_started \<lparr>StaleTimeout = staleTimeout fl, CheckInterval = healthCheckInterval fl\<rparr>,
       sv_udp = udp, sv_tcp = tcp, sv_recorder = r, sv_files = fs', sv_fwd = (\<lambda>_. FWaiting),
       sv_main = Serving, sv_recorded = [], sv_torn = False, sv_log = []\<rparr>"
proof -
  obtain udp0 udp tcp0 tcp r fs' where p: "NewUDPListener (udpPort fl) (bufferSize fl) = Some udp0"
    "UDP_Start (udpBound env) udp0 = Inr udp" "NewTCPListener (tcpPort fl) (bufferSize fl) = Some tcp0"
    "TCP_Start (tcpBound env) tcp0 = Inr tcp" "open_recorder fl env fs = (Inr r, fs')"
    "s = \<lparr>sv_proc = started (proc_config fl),
       sv_monitor = monitor_started \<lparr>StaleTimeout = staleTimeout fl, CheckInterval = healthCheckInterval fl\<rparr>,
       sv_udp = udp, sv_tcp = tcp, sv_recorder = r, sv_files = fs', sv_fwd = (\<lambda>_. FWaiting),
       sv_main = Serving, sv_recorded = [], sv_torn = False, sv_log = []\<rparr>"
    using assms by (auto simp: main_start_def Let_def proc_config_def split: option.splits sum.splits prod.splits if_splits)
  have "udpBound env" "tcpBound env" using p(2,4) by (auto simp: UDP_Start_def TCP_Start_def split: if_splits)
  then have u: "udp_started (udpPort fl) (bufferSize fl) = Some udp" and t: "tcp_started (tcpPort fl) (bufferSize fl) = Some tcp"
    using p(1-4) by (simp_all add: udp_started_def tcp_started_def)
  have "udp_reachable udp" "l_stopping udp = LNotStopping" using udp_started_SomeD [OF u] by auto
  moreover have "taken udp = []" using u
    by (auto simp: udp_started_def NewUDPListener_def UDP_Start_def new_listener_def listener.extend_def UDPListener.fields_def
        split: if_splits)
  moreover have "tcp_reachable tcp" "t_taken tcp = []" "t_stopping tcp = TNotStopping"
    using tcp_reachable.start [OF t] tcp_started_eval [OF t] by auto
  ultimately show thesis using that p(5,6) by blast
qed

lemma parts_ok_step:
  assumes "parts_ok fl s" and "server_exec a s = Some s'"
  shows "parts_ok fl s'"
  using assms(2)
proof (cases rule: server_exec_cases)
  case (pool b p)
  then show ?thesis using assms(1) no_nil_own by (auto simp: parts_ok_def intro: reachable.step)
next
  case (udp b l)
  then show ?thesis using assms(1) by (auto simp: parts_ok_def intro: udp_reachable.step)
next
  case (tcp b l)
  then show ?thesis using assms(1) by (auto simp: parts_ok_def intro: tcp_reachable.step)
next
  case (scan ids now m p)
  have "no_nil (Scan ids now (StaleTimeout (m_config (sv_monitor s))))" by (simp add: no_nil_def)
  with scan show ?thesis using assms(1) by (auto simp: parts_ok_def intro: reachable.step)
next
  case (take_udp l m)
  then show ?thesis using assms(1) by (auto simp: parts_ok_def intro: udp_reachable.step)
next
  case (take_tcp l m)
  then show ?thesis using assms(1) by (auto simp: parts_ok_def intro: tcp_reachable.step)
next
  case (rec src zone io m)
  then show ?thesis using assms(1) by (auto simp: parts_ok_def forward_record_def case_prod_unfold Let_def split: option.split)
next
  case (call src m p)
  have "no_nil (Call Enqueue (Some m))" by (simp add: no_nil_def)
  with call show ?thesis using assms(1) by (auto simp: parts_ok_def intro: reachable.step)
next
  case main
  then show ?thesis
  proof (cases rule: main_step_cases)
    case (stop_proc p)
    have "no_nil StopStep" by (simp add: no_nil_def)
    with stop_proc show ?thesis using assms(1) by (auto simp: parts_ok_def intro: reachable.step)
  qed (use assms(1) in \<open>auto simp: parts_ok_def intro: udp_reachable.step tcp_reachable.step\<close>)
qed (use assms(1) in \<open>auto simp: parts_ok_def\<close>)

text \<open>The order of the deferred calls.\<close>

fun main_order :: "main_phase \<Rightarrow> nat" where
  "main_order Serving = 0" | "main_order ClosingRecorder = 1" | "main_order StoppingAPI = 2" | "main_order StoppingTCP = 3"
| "main_order StoppingUDP = 4" | "main_order StoppingMonitor = 5" | "main_order StoppingProcessor = 6" | "main_order Gone = 7"

definition phases_ok :: "Server \<Rightarrow> bool" where
  "phases_ok s =
     ((main_order (sv_main s) < 3 \<longrightarrow> t_stopping (sv_tcp s) = TNotStopping) \<and>
      (3 < main_order (sv_main s) \<longrightarrow> t_stopping (sv_tcp s) = TStopped) \<and>
      (main_order (sv_main s) < 4 \<longrightarrow> l_stopping (sv_udp s) = LNotStopping) \<and>
      (4 < main_order (sv_main s) \<longrightarrow> l_stopping (sv_udp s) = LStopped) \<and>
      (main_order (sv_main s) < 5 \<longrightarrow> m_stopping (sv_monitor s) = MNotStopping) \<and>
      (m_stopClosed (sv_monitor s) \<longleftrightarrow> m_stopping (sv_monitor s) \<noteq> MNotStopping) \<and> \<not> m_panicked (sv_monitor s) \<and>
      (main_order (sv_main s) < 6 \<longrightarrow> stopping (sv_proc s) = NotStopping) \<and>
      (sv_main s = Gone \<longrightarrow> stopping (sv_proc s) = Stopped))"

lemma monitor_keeps:
  assumes "m_exec a m = Some m'" and "a \<noteq> CallStop"
  shows "m_stopping m' = m_stopping m \<and> m_stopClosed m' = m_stopClosed m \<and> m_panicked m' = m_panicked m"
  using assms by (cases a) (auto simp: m_exec_def tick_def case_prod_unfold Let_def split: if_splits)

lemma monitor_stops:
  assumes "m_exec CallStop m = Some m'" and "m_stopping m \<noteq> MStopped" and "m_stopClosed m \<longleftrightarrow> m_stopping m \<noteq> MNotStopping"
    and "\<not> m_panicked m"
  shows "(m_stopClosed m' \<longleftrightarrow> m_stopping m' \<noteq> MNotStopping) \<and> \<not> m_panicked m'"
  using assms by (cases "m_stopping m") (auto simp: m_exec_def monitor_stop_step_def split: if_splits)

lemma phases_ok_step:
  assumes "phases_ok s" and "server_exec a s = Some s'"
  shows "phases_ok s'"
  using assms(2)
proof (cases rule: server_exec_cases)
  case (pool b p)
  then show ?thesis using assms(1) pool_own_keeps by (simp add: phases_ok_def)
next
  case (udp b l)
  then show ?thesis using assms(1) udp_own_keeps by (simp add: phases_ok_def)
next
  case (tcp b l)
  then show ?thesis using assms(1) tcp_own_keeps by (simp add: phases_ok_def)
next
  case (scan ids now m p)
  have "stopping p = stopping (sv_proc s)" using scan(2) by (auto simp: exec.simps split: if_splits)
  then show ?thesis using assms(1) monitor_keeps [OF scan(1)] scan(3) by (simp add: phases_ok_def)
next
  case (monitor_ends m)
  then show ?thesis using assms(1) monitor_keeps [OF monitor_ends(1)] by (simp add: phases_ok_def)
next
  case (take_udp l m)
  then have "l_stopping l = l_stopping (sv_udp s)" using udp_takes(1) by fastforce
  then show ?thesis using assms(1) take_udp by (simp add: phases_ok_def)
next
  case (take_tcp l m)
  then have "t_stopping l = t_stopping (sv_tcp s)" using tcp_takes(1) by fastforce
  then show ?thesis using assms(1) take_tcp by (simp add: phases_ok_def)
next
  case (rec src zone io m)
  then show ?thesis using assms(1) by (simp add: phases_ok_def forward_record_def case_prod_unfold Let_def split: option.split)
next
  case (call src m p)
  have "stopping p = stopping (sv_proc s)" using call(2) by (auto simp: exec.simps split: if_splits)
  then show ?thesis using assms(1) call by (simp add: phases_ok_def)
next
  case main
  then show ?thesis
  proof (cases rule: main_step_cases)
    case (stop_monitor m)
    then show ?thesis using assms(1) monitor_stops [OF stop_monitor(3)] by (simp add: phases_ok_def)
  qed (use assms(1) in \<open>auto simp: phases_ok_def\<close>)
qed (use assms(1) in \<open>auto simp: phases_ok_def\<close>)

end
