(* ===== verification/Server_Calls.thy ===== *)
theory Server_Calls
  imports Server
begin

text \<open>
  The calls of \<open>Enqueue\<close> in the server program: every call in progress is the call of one
  forwarder, and none fails before \<open>main\<close> is stopping the processor.
\<close>

section \<open>Calls in progress\<close>

text \<open>Every call in progress is the call of one forwarder, and no call fails before the processor
  is being stopped.\<close>

definition owned :: "(source \<Rightarrow> forwarder) \<Rightarrow> call list \<Rightarrow> bool" where
  "owned fwd cs = (\<forall>src i m. fwd src = FCalling i m \<longrightarrow> i < length cs \<and> in_call m (cs ! i))"

definition one_owner :: "(source \<Rightarrow> forwarder) \<Rightarrow> bool" where
  "one_owner fwd = (\<forall>src src' i m m'. fwd src = FCalling i m \<longrightarrow> fwd src' = FCalling i m' \<longrightarrow> src = src')"

definition others_over :: "(source \<Rightarrow> forwarder) \<Rightarrow> call list \<Rightarrow> bool" where
  "others_over fwd cs = (\<forall>j<length cs. (\<exists>r. cs ! j = call.Returned r) \<or> (\<exists>src m. fwd src = FCalling j m))"

definition fails_late :: "bool \<Rightarrow> call list \<Rightarrow> (source \<times> TelemetryMessage \<times> enqueue_error option) list \<Rightarrow> bool" where
  "fails_late late cs lg = (late \<or> (\<forall>e. call.Returned (Some e) \<notin> set cs) \<and> (\<forall>(src, m, r)\<in>set lg. r = None))"

abbreviation stop_begun :: "Server \<Rightarrow> bool" where
  "stop_begun s \<equiv> 6 \<le> main_order (sv_main s)"

definition calls_ok :: "Server \<Rightarrow> bool" where
  "calls_ok s = (owned (sv_fwd s) (calls (sv_proc s)) \<and> one_owner (sv_fwd s) \<and>
     others_over (sv_fwd s) (calls (sv_proc s)) \<and> fails_late (stop_begun s) (calls (sv_proc s)) (sv_log s))"

lemma ownedD: "owned fwd cs \<Longrightarrow> fwd src = FCalling i m \<Longrightarrow> i < length cs \<and> in_call m (cs ! i)"
  by (simp add: owned_def)

lemma one_ownerD: "one_owner fwd \<Longrightarrow> fwd src = FCalling i m \<Longrightarrow> fwd src' = FCalling i m' \<Longrightarrow> src' = src"
  unfolding one_owner_def by blast

text \<open>A call that is not over belongs to a forwarder.\<close>

lemma caller:
  assumes "others_over fwd cs" and "owned fwd cs" and "j < length cs" and "\<And>r. cs ! j \<noteq> call.Returned r"
  obtains src m where "fwd src = FCalling j m" "in_call m (cs ! j)"
  using assms(1,3,4) ownedD [OF assms(2)] unfolding others_over_def by blast

text \<open>A forwarder that makes no call moves on without making one.\<close>

lemma fwd_idle_move:
  assumes "\<And>i m. fwd src \<noteq> FCalling i m" and "\<And>i m. f \<noteq> FCalling i m"
  shows "owned fwd cs \<Longrightarrow> owned (fwd(src := f)) cs" and "one_owner fwd \<Longrightarrow> one_owner (fwd(src := f))"
    and "others_over fwd cs \<Longrightarrow> others_over (fwd(src := f)) cs"
proof -
  have same: "(fwd(src := f)) src' = FCalling i m \<longleftrightarrow> fwd src' = FCalling i m" for src' i m
    using assms by (cases "src' = src") simp_all
  show "owned fwd cs \<Longrightarrow> owned (fwd(src := f)) cs" unfolding owned_def same .
  show "one_owner fwd \<Longrightarrow> one_owner (fwd(src := f))" unfolding one_owner_def same .
  show "others_over fwd cs \<Longrightarrow> others_over (fwd(src := f)) cs" unfolding others_over_def same .
qed

text \<open>One call changes.\<close>

lemma call_update:
  assumes "i < length cs"
  shows "owned fwd cs \<Longrightarrow> (\<And>m. in_call m (cs ! i) \<Longrightarrow> in_call m c) \<Longrightarrow> owned fwd (cs[i := c])"
    and "others_over fwd cs \<Longrightarrow> (\<And>r. cs ! i \<noteq> call.Returned r) \<Longrightarrow> others_over fwd (cs[i := c])"
    and "fails_late late cs lg \<Longrightarrow> (\<And>e. c = call.Returned (Some e) \<Longrightarrow> late) \<Longrightarrow> fails_late late (cs[i := c]) lg"
proof -
  show "owned fwd cs \<Longrightarrow> (\<And>m. in_call m (cs ! i) \<Longrightarrow> in_call m c) \<Longrightarrow> owned fwd (cs[i := c])"
    unfolding owned_def using assms by (auto simp: nth_list_update)
  show "others_over fwd cs \<Longrightarrow> (\<And>r. cs ! i \<noteq> call.Returned r) \<Longrightarrow> others_over fwd (cs[i := c])"
    unfolding others_over_def using assms by (simp add: nth_list_update) blast
  show "fails_late late cs lg \<Longrightarrow> (\<And>e. c = call.Returned (Some e) \<Longrightarrow> late) \<Longrightarrow> fails_late late (cs[i := c]) lg"
    unfolding fails_late_def using set_update_subset_insert [of cs i c] by blast
qed

text \<open>A forwarder begins a call, and one returns.\<close>

lemma call_begins:
  assumes "owned fwd cs" and "one_owner fwd" and "others_over fwd cs" and "in_call m c"
  shows "owned (fwd(src := FCalling (length cs) m)) (cs @ [c])" and "one_owner (fwd(src := FCalling (length cs) m))"
    and "(\<And>i m. fwd src \<noteq> FCalling i m) \<Longrightarrow> others_over (fwd(src := FCalling (length cs) m)) (cs @ [c])"
proof -
  have lt: "fwd src' = FCalling i m' \<Longrightarrow> i < length cs" for src' i m' using ownedD [OF assms(1)] by blast
  show "owned (fwd(src := FCalling (length cs) m)) (cs @ [c])"
    using assms(1,4) lt less_SucI [OF lt] by (auto simp: owned_def nth_append)
  show "one_owner (fwd(src := FCalling (length cs) m))"
    using assms(2) lt unfolding one_owner_def by (fastforce split: if_splits)
  assume f: "\<And>i m. fwd src \<noteq> FCalling i m"
  show "others_over (fwd(src := FCalling (length cs) m)) (cs @ [c])"
    unfolding others_over_def
  proof (intro allI impI)
    fix j assume j: "j < length (cs @ [c])"
    show "(\<exists>r. (cs @ [c]) ! j = call.Returned r) \<or> (\<exists>src' m'. (fwd(src := FCalling (length cs) m)) src' = FCalling j m')"
    proof (cases "j < length cs")
      case True
      then show ?thesis using assms(3) f unfolding others_over_def nth_append by fastforce
    next
      case False
      then have "(fwd(src := FCalling (length cs) m)) src = FCalling j m" using j by simp
      then show ?thesis by blast
    qed
  qed
qed

lemma call_returns:
  assumes "fwd src = FCalling i m" and "cs ! i = call.Returned r"
  shows "owned fwd cs \<Longrightarrow> owned (fwd(src := FWaiting)) cs" and "one_owner fwd \<Longrightarrow> one_owner (fwd(src := FWaiting))"
    and "others_over fwd cs \<Longrightarrow> others_over (fwd(src := FWaiting)) cs"
proof -
  show "owned fwd cs \<Longrightarrow> owned (fwd(src := FWaiting)) cs" by (simp add: owned_def)
  show "one_owner fwd \<Longrightarrow> one_owner (fwd(src := FWaiting))" unfolding one_owner_def by (simp add: fun_upd_def)
  show "others_over fwd cs \<Longrightarrow> others_over (fwd(src := FWaiting)) cs"
    unfolding others_over_def
  proof (intro allI impI)
    fix j assume "\<forall>j<length cs. (\<exists>r. cs ! j = call.Returned r) \<or> (\<exists>src m. fwd src = FCalling j m)" and "j < length cs"
    then consider r' where "cs ! j = call.Returned r'" | src' m' where "fwd src' = FCalling j m'" by blast
    then show "(\<exists>r. cs ! j = call.Returned r) \<or> (\<exists>src' m'. (fwd(src := FWaiting)) src' = FCalling j m')"
    proof cases
      case 2
      show ?thesis
      proof (cases "src' = src")
        case True
        then have "j = i" using 2 assms(1) by simp
        then show ?thesis using assms(2) by blast
      next
        case False
        then have "(fwd(src := FWaiting)) src' = FCalling j m'" using 2 by simp
        then show ?thesis by blast
      qed
    qed blast
  qed
qed

text \<open>The invariant.\<close>

lemma fails_late_mono: "fails_late l cs lg \<Longrightarrow> (l \<Longrightarrow> l') \<Longrightarrow> fails_late l' cs lg"
  unfolding fails_late_def by blast

lemma calls_ok_frame:
  assumes "calls_ok s" and "calls (sv_proc s') = calls (sv_proc s)" and "sv_log s' = sv_log s"
    and "main_order (sv_main s) \<le> main_order (sv_main s')" and "sv_fwd s' = sv_fwd s"
  shows "calls_ok s'"
proof -
  have "stop_begun s \<Longrightarrow> stop_begun s'" using assms(4) by linarith
  then show ?thesis using assms(1) fails_late_mono unfolding calls_ok_def assms(2,3,5) by blast
qed

lemma calls_ok_moves:
  assumes "calls_ok s" and "sv_proc s' = sv_proc s" and "sv_log s' = sv_log s" and "sv_main s' = sv_main s"
    and "sv_fwd s' = (sv_fwd s)(src := f)" and "\<And>i m. sv_fwd s src \<noteq> FCalling i m" and "\<And>i m. f \<noteq> FCalling i m"
  shows "calls_ok s'"
  using assms(1) fwd_idle_move [of "sv_fwd s" src f, OF assms(6,7)]
  unfolding calls_ok_def assms(2-5) by blast

lemma calls_ok_proc:
  assumes ok: "calls_ok s" and "exec b (sv_proc s) = Some p" and "nonnil (sv_proc s)" and "\<And>k m. b \<noteq> Call k m"
    and late: "p_stopClosed (sv_proc s) \<Longrightarrow> stop_begun s"
    and s': "sv_proc s' = p" "sv_log s' = sv_log s" "sv_main s' = sv_main s" "sv_fwd s' = sv_fwd s"
  shows "calls_ok s'"
proof -
  let ?fwd = "sv_fwd s" and ?cs = "calls (sv_proc s)"
  have o: "owned ?fwd ?cs" "one_owner ?fwd" "others_over ?fwd ?cs" "fails_late (stop_begun s) ?cs (sv_log s)"
    using ok by (simp_all add: calls_ok_def)
  have upd: "calls_ok s'" if "i < length ?cs" "calls p = ?cs[i := c]" "\<And>m. in_call m (?cs ! i) \<Longrightarrow> in_call m c"
    "\<And>r. ?cs ! i \<noteq> call.Returned r" "\<And>e. c = call.Returned (Some e) \<Longrightarrow> stop_begun s" for i c
    using call_update [OF that(1)] o that(3-5) unfolding calls_ok_def s' that(2) by blast
  from assms(2,3) show ?thesis
  proof (cases rule: calls_cases)
    case same
    then show ?thesis using calls_ok_frame [OF ok] s' by simp
  next
    case (called k m)
    then show ?thesis using assms(4) by blast
  next
    case (entered i m)
    then show ?thesis by (intro upd [of i Counting]) auto
  next
    case (refused i m)
    then obtain src m' where "in_call m' (?cs ! i)" using caller [OF o(3,1), of i] by auto
    then show ?thesis using refused by simp
  next
    case (counted i)
    then show ?thesis by (intro upd [of i "call.Returned None"]) auto
  next
    case (gave_up i m)
    then show ?thesis using late by (intro upd [of i "call.Returned (Some Stopping)"]) auto
  qed
qed

lemma stop_flags:
  assumes "parts_ok fl s" and "phases_ok s" and "\<not> stop_begun s"
  shows "nonnil (sv_proc s)" and "p_isRunning (sv_proc s)" and "\<not> p_stopClosed (sv_proc s)"
    and "\<not> chan.closed (p_jobs (sv_proc s))"
proof -
  have "reachable (proc_config fl) (sv_proc s)" using assms(1) by (simp add: parts_ok_def)
  then have "inv (proc_config fl) (sv_proc s)" by (rule reachable_inv)
  moreover have "stopping (sv_proc s) = NotStopping" using assms(2,3) by (simp add: phases_ok_def)
  ultimately show "nonnil (sv_proc s)" "p_isRunning (sv_proc s)" "\<not> p_stopClosed (sv_proc s)"
    "\<not> chan.closed (p_jobs (sv_proc s))" by (auto simp: inv_def pool_ok_def flags_ok_def)
qed

lemma parts_nonnil: "parts_ok fl s \<Longrightarrow> nonnil (sv_proc s)"
  using reachable_inv by (auto simp: parts_ok_def inv_def pool_ok_def)

lemma calls_ok_step:
  assumes ok: "calls_ok s" and parts: "parts_ok fl s" and phases: "phases_ok s" and "server_exec a s = Some s'"
  shows "calls_ok s'"
proof -
  note nn = parts_nonnil [OF parts]
  have late: "p_stopClosed (sv_proc s) \<Longrightarrow> stop_begun s" "\<not> p_isRunning (sv_proc s) \<Longrightarrow> stop_begun s"
    using stop_flags [OF parts phases] by blast+
  from assms(4) show ?thesis
  proof (cases rule: server_exec_cases)
    case (pool b p)
    show ?thesis by (rule calls_ok_proc [OF ok pool(2) nn _ late(1)]) (use pool(1,3) in auto)
  next
    case (scan ids now m p)
    show ?thesis by (rule calls_ok_proc [OF ok scan(2) nn _ late(1)]) (use scan(3) in auto)
  next
    case (take_udp l m)
    show ?thesis by (rule calls_ok_moves [OF ok, of _ FromUDP "FRecording m"]) (use take_udp in auto)
  next
    case (take_tcp l m)
    show ?thesis by (rule calls_ok_moves [OF ok, of _ FromTCP "FRecording m"]) (use take_tcp in auto)
  next
    case (ends src)
    show ?thesis by (rule calls_ok_moves [OF ok, of _ src FDone]) (use ends in auto)
  next
    case (rec src zone io m)
    show ?thesis by (rule calls_ok_moves [OF ok, of _ src "FEnqueueing m"])
        (use rec in \<open>auto simp: forward_record_def case_prod_unfold Let_def split: option.split\<close>)
  next
    case (call src m p)
    let ?c = "if \<not> p_isRunning (sv_proc s) then call.Returned (Some NotRunning) else Blocking (Some m)"
    have cs: "calls p = calls (sv_proc s) @ [?c]" using call(2) by (auto simp: exec.simps split: if_splits)
    have c: "in_call m ?c" by simp
    have f: "\<And>i m. sv_fwd s src \<noteq> FCalling i m" using call(1) by simp
    have "fails_late (stop_begun s) (calls (sv_proc s) @ [?c]) (sv_log s)"
      using ok late(2) by (auto simp: calls_ok_def fails_late_def)
    then show ?thesis using call_begins [OF _ _ _ c] ok f call(3) cs unfolding calls_ok_def by simp
  next
    case (ret src i m r)
    have i: "i < length (calls (sv_proc s))" using ok ret(1) ownedD by (auto simp: calls_ok_def)
    have "fails_late (stop_begun s) (calls (sv_proc s)) (sv_log s @ [(src, m, r)])"
      using ok ret(2) nth_mem [OF i] by (cases r) (auto simp: calls_ok_def fails_late_def)
    then show ?thesis using call_returns [of "sv_fwd s" src i m, OF ret(1,2)] ok ret(3) unfolding calls_ok_def by simp
  next
    case main
    then show ?thesis
    proof (cases rule: main_step_cases)
      case (stop_proc p)
      show ?thesis by (rule calls_ok_proc [OF ok stop_proc(3) nn _ late(1)]) (use stop_proc(4) in auto)
    qed (auto intro!: calls_ok_frame [OF ok])
  qed (auto intro!: calls_ok_frame [OF ok])
qed

end
