(* ===== verification/Server_Flow.thy ===== *)
theory Server_Flow
  imports Server_Calls
begin

text \<open>
  What the server program does with the messages of its listeners, under every interleaving: each
  forwarder passes on its listener's messages one at a time and in order, the processor's queue is an
  interleaving of the two, and the record file holds what was forwarded while the recorder was open.
\<close>

section \<open>Forwarding\<close>

definition of_source :: "source \<Rightarrow> (source \<times> 'a) list \<Rightarrow> 'a list" where
  "of_source src xs = map snd (filter (\<lambda>p. fst p = src) xs)"

lemma of_source_simps [simp]:
  "of_source src [] = []" "of_source src (xs @ ys) = of_source src xs @ of_source src ys"
  "of_source src [(src', x)] = (if src' = src then [x] else [])"
  by (simp_all add: of_source_def)

text \<open>The messages a forwarder has received from its listener, the one it is working on, and those
  it is done with.\<close>

definition taken_from :: "source \<Rightarrow> Server \<Rightarrow> TelemetryMessage list" where
  "taken_from src s = (case src of FromUDP \<Rightarrow> taken (sv_udp s) | FromTCP \<Rightarrow> t_taken (sv_tcp s))"

fun fwd_hand :: "forwarder \<Rightarrow> TelemetryMessage list" where
  "fwd_hand (FRecording m) = [m]"
| "fwd_hand (FEnqueueing m) = [m]"
| "fwd_hand (FCalling i m) = [m]"
| "fwd_hand _ = []"

definition logged :: "source \<Rightarrow> Server \<Rightarrow> TelemetryMessage list" where
  "logged src s = map fst (of_source src (sv_log s))"

definition forwarding_ok :: "Server \<Rightarrow> bool" where
  "forwarding_ok s = (\<forall>src. taken_from src s = logged src s @ fwd_hand (sv_fwd s src))"

lemma udp_stop_keeps: "udp_exec UStop l = Some l' \<Longrightarrow> taken l' = taken l"
proof -
  assume "udp_exec UStop l = Some l'"
  then have "udp_stop_step l = Some l'" by (simp add: udp_exec.simps split: if_splits)
  then show ?thesis by (cases rule: udp_stop_cases) simp_all
qed

lemma tcp_stop_keeps: "tcp_exec TStop l = Some l' \<Longrightarrow> t_taken l' = t_taken l"
proof -
  assume "tcp_exec TStop l = Some l'"
  then have "tcp_stop_step l = Some l'" by (simp add: tcp_exec_def split: if_splits)
  then show ?thesis by (cases rule: tcp_stop_cases) simp_all
qed

text \<open>All but the forwarders' own steps leave the forwarders alone.\<close>

lemma quiet_step:
  assumes "server_exec a s = Some s'" and "\<And>src zone io. a \<noteq> SForward src zone io"
  shows "sv_fwd s' = sv_fwd s \<and> sv_log s' = sv_log s \<and> sv_recorded s' = sv_recorded s \<and> sv_torn s' = sv_torn s \<and>
    sv_files s' = sv_files s \<and> taken_from src s' = taken_from src s"
proof (cases a)
  case (SPool b)
  then show ?thesis using assms(1) by (auto simp: server_exec_def taken_from_def split: if_splits source.split)
next
  case (SMonitor b)
  then have "monitor_step b s = Some s'" using assms(1) by (simp add: server_exec_def split: if_splits)
  then show ?thesis by (cases b) (auto simp: monitor_step_def taken_from_def split: bind_splits source.split)
next
  case (SUdp b)
  then show ?thesis using assms(1) udp_own_keeps
    by (auto simp: server_exec_def taken_from_def split: if_splits source.split)
next
  case (STcp b)
  then show ?thesis using assms(1) tcp_own_keeps
    by (auto simp: server_exec_def taken_from_def split: if_splits source.split)
next
  case SSignal
  then show ?thesis using assms(1) by (auto simp: server_exec_def taken_from_def split: if_splits source.split)
next
  case SMain
  then have "main_step s = Some s'" using assms(1) by (simp add: server_exec_def split: if_splits)
  then show ?thesis
    by (cases rule: main_step_cases) (auto simp: taken_from_def udp_stop_keeps tcp_stop_keeps split: source.split)
qed (use assms(2) in blast)

text \<open>The steps of a forwarder.\<close>

lemma forward_cases:
  assumes "server_exec (SForward src zone io) s = Some s'"
  obtains (take) m where "sv_fwd s src = FWaiting" "sv_fwd s' = (sv_fwd s)(src := FRecording m)"
      "\<And>src'. taken_from src' s' = taken_from src' s @ (if src' = src then [m] else [])" "sv_proc s' = sv_proc s"
      "sv_log s' = sv_log s" "sv_recorded s' = sv_recorded s" "sv_torn s' = sv_torn s" "sv_files s' = sv_files s"
      "sv_main s' = sv_main s" "sv_recorder s' = sv_recorder s"
  | (ends) "sv_fwd s src = FWaiting" "s' = s\<lparr>sv_fwd := (sv_fwd s)(src := FDone)\<rparr>"
  | (rec) m where "sv_fwd s src = FRecording m" "s' = forward_record src zone io m s"
  | (call) m p where "sv_fwd s src = FEnqueueing m" "exec (Call Enqueue (Some m)) (sv_proc s) = Some p"
      "s' = s\<lparr>sv_proc := p, sv_fwd := (sv_fwd s)(src := FCalling (length (calls (sv_proc s))) m)\<rparr>"
  | (ret) i m r where "sv_fwd s src = FCalling i m" "calls (sv_proc s) ! i = call.Returned r"
      "s' = s\<lparr>sv_fwd := (sv_fwd s)(src := FWaiting), sv_log := sv_log s @ [(src, m, r)]\<rparr>"
proof -
  have f: "forward_step src zone io s = Some s'" using assms by (simp add: server_exec_def split: if_splits)
  show thesis
  proof (cases "sv_fwd s src")
    case FWaiting
    then have "take_next src s = Some s'" using f by (simp add: forward_step_def)
    then show thesis using FWaiting take ends
      by (auto simp: take_next_def udp_exec.simps tcp_exec_def taken_from_def split: source.splits recv_result.splits if_splits)
  next
    case (FRecording m)
    then show thesis using f rec by (simp add: forward_step_def)
  next
    case (FEnqueueing m)
    then show thesis using f call by (auto simp: forward_step_def)
  next
    case (FCalling i m)
    then show thesis using f ret by (auto simp: forward_step_def split: call.splits)
  next
    case FDone
    then show thesis using f by (simp add: forward_step_def)
  qed
qed

lemma forward_record_simps [simp]:
  "sv_fwd (forward_record src zone io m s) = (sv_fwd s)(src := FEnqueueing m)"
  "sv_log (forward_record src zone io m s) = sv_log s" "sv_proc (forward_record src zone io m s) = sv_proc s"
  "sv_main (forward_record src zone io m s) = sv_main s" "sv_recorder (forward_record src zone io m s) = sv_recorder s"
  "sv_udp (forward_record src zone io m s) = sv_udp s" "sv_tcp (forward_record src zone io m s) = sv_tcp s"
  "taken_from src' (forward_record src zone io m s) = taken_from src' s"
  by (cases src'; cases "sv_recorder s"; simp add: forward_record_def case_prod_unfold Let_def taken_from_def)+

lemma forwarding_ok_step:
  assumes "forwarding_ok s" and "server_exec a s = Some s'"
  shows "forwarding_ok s'"
proof (cases "\<exists>src zone io. a = SForward src zone io")
  case False
  then show ?thesis using quiet_step [OF assms(2)] assms(1) by (simp add: forwarding_ok_def logged_def)
next
  case True
  then obtain src zone io where a: "a = SForward src zone io" by blast
  from assms(2)[unfolded a] show ?thesis
    by (cases rule: forward_cases)
      (use assms(1) in \<open>auto simp: forwarding_ok_def logged_def taken_from_def split: source.splits\<close>)
qed

section \<open>The queue\<close>

text \<open>The messages of a source that have entered the queue: those whose \<open>Enqueue\<close> has succeeded or
  is about to return.\<close>

definition in_flight :: "forwarder \<Rightarrow> call list \<Rightarrow> TelemetryMessage list" where
  "in_flight f cs = (case f of
       FCalling i m \<Rightarrow> if cs ! i = Counting \<or> cs ! i = call.Returned None then [m] else []
     | _ \<Rightarrow> [])"

definition entered :: "source \<Rightarrow> Server \<Rightarrow> TelemetryMessage list" where
  "entered src s = map fst (filter (\<lambda>(m, r). r = None) (of_source src (sv_log s))) @
     in_flight (sv_fwd s src) (calls (sv_proc s))"

text \<open>The queue's history is an interleaving of what the two forwarders entered.\<close>

definition interleaves :: "(source \<Rightarrow> TelemetryMessage list) \<Rightarrow> TelemetryMessage option list \<Rightarrow> bool" where
  "interleaves es acc = (\<exists>E. acc = map (Some \<circ> snd) E \<and> (\<forall>src. of_source src E = es src))"

lemma interleaves_snoc:
  assumes "interleaves es acc"
  shows "interleaves (es(src := es src @ [m])) (acc @ [Some m])"
proof -
  obtain E where "acc = map (Some \<circ> snd) E" "\<forall>src. of_source src E = es src" using assms by (auto simp: interleaves_def)
  then have "acc @ [Some m] = map (Some \<circ> snd) (E @ [(src, m)]) \<and>
    (\<forall>src'. of_source src' (E @ [(src, m)]) = (es(src := es src @ [m])) src')" by simp
  then show ?thesis unfolding interleaves_def by blast
qed

definition queue_ok :: "Server \<Rightarrow> bool" where
  "queue_ok s = interleaves (\<lambda>src. entered src s) (accepted (sv_proc s))"

lemma in_flight_simps [simp]:
  "in_flight FWaiting cs = []" "in_flight (FRecording m) cs = []" "in_flight (FEnqueueing m) cs = []"
  "in_flight FDone cs = []"
  "in_flight (FCalling i m) cs = (if cs ! i = Counting \<or> cs ! i = call.Returned None then [m] else [])"
  by (simp_all add: in_flight_def)

lemma in_flight_other:
  assumes "\<And>m. f \<noteq> FCalling i m"
  shows "in_flight f (cs[i := c]) = in_flight f cs"
proof (cases f)
  case (FCalling j m)
  then have "j \<noteq> i" using assms by blast
  then show ?thesis using FCalling by simp
qed simp_all

text \<open>A step of the processor other than a new call.\<close>

lemma queue_ok_proc:
  assumes ok: "queue_ok s" and calls: "calls_ok s" and "exec b (sv_proc s) = Some p" and "nonnil (sv_proc s)"
    and "\<And>k m. b \<noteq> Call k m" and s': "sv_proc s' = p" "sv_log s' = sv_log s" "sv_fwd s' = sv_fwd s"
  shows "queue_ok s'"
proof -
  let ?fwd = "sv_fwd s" and ?cs = "calls (sv_proc s)"
  have o: "owned ?fwd ?cs" "one_owner ?fwd" "others_over ?fwd ?cs" using calls by (simp_all add: calls_ok_def)
  have silent: "queue_ok s'" if "accepted p = accepted (sv_proc s)"
    "\<And>src. in_flight (?fwd src) (calls p) = in_flight (?fwd src) ?cs"
    using ok that by (simp add: queue_ok_def entered_def s')
  from assms(3,4) show ?thesis
  proof (cases rule: calls_cases)
    case same
    then show ?thesis by (intro silent) simp_all
  next
    case (called k m)
    then show ?thesis using assms(5) by blast
  next
    case (entered i m)
    have "\<And>r. ?cs ! i \<noteq> call.Returned r" using entered(2) by auto
    then obtain src m' where src: "?fwd src = FCalling i m'" "in_call m' (?cs ! i)"
      using caller [OF o(3,1) entered(1)] by blast
    then have m: "m = Some m'" "?cs ! i = Blocking (Some m')" using entered(2) by auto
    have fl: "in_flight (?fwd src') (calls p) = (if src' = src then [m'] else in_flight (?fwd src') ?cs)" for src'
    proof (cases "src' = src")
      case True
      then show ?thesis using src entered(1,3) by simp
    next
      case False
      then have "\<And>m. ?fwd src' \<noteq> FCalling i m" using one_ownerD [OF o(2) src(1)] by blast
      then show ?thesis using False entered(3) in_flight_other by simp
    qed
    have fl0: "in_flight (?fwd src) ?cs = []" using src(1) m(2) by simp
    have "entered src' s' = ((\<lambda>src. entered src s)(src := entered src s @ [m'])) src'" for src'
      unfolding entered_def s' fl using fl0 by simp
    then have "(\<lambda>src. entered src s') = (\<lambda>src. entered src s)(src := entered src s @ [m'])" by blast
    then show ?thesis using interleaves_snoc ok entered(4) m(1) by (simp add: queue_ok_def s')
  next
    case (refused i m)
    then have "\<And>r. ?cs ! i \<noteq> call.Returned r" by simp
    then obtain src m' where "in_call m' (?cs ! i)" using caller [OF o(3,1) refused(1)] by blast
    then show ?thesis using refused(2) by simp
  next
    case (counted i)
    show ?thesis
    proof (rule silent)
      show "in_flight (?fwd src) (calls p) = in_flight (?fwd src) ?cs" for src
        using counted by (cases "?fwd src") (auto simp: nth_list_update)
    qed (use counted in simp)
  next
    case (gave_up i m)
    show ?thesis
    proof (rule silent)
      show "in_flight (?fwd src) (calls p) = in_flight (?fwd src) ?cs" for src
        using gave_up by (cases "?fwd src") (auto simp: nth_list_update)
    qed (use gave_up in simp)
  qed
qed

lemma queue_ok_step:
  assumes ok: "queue_ok s" and calls: "calls_ok s" and parts: "parts_ok fl s" and ex: "server_exec a s = Some s'"
  shows "queue_ok s'"
proof -
  note nn = parts_nonnil [OF parts]
  have keep: "queue_ok s'" if "accepted (sv_proc s') = accepted (sv_proc s)" "\<And>src. entered src s' = entered src s"
    using ok that by (simp add: queue_ok_def)
  show ?thesis
  proof (cases "\<exists>src zone io. a = SForward src zone io")
    case True
    then obtain src zone io where "a = SForward src zone io" by blast
    with ex have "server_exec (SForward src zone io) s = Some s'" by simp
    then show ?thesis
    proof (cases rule: forward_cases)
      case (call m p)
      have cs: "accepted p = accepted (sv_proc s)" "calls p = calls (sv_proc s) @ [if \<not> p_isRunning (sv_proc s)
          then call.Returned (Some NotRunning) else Blocking (Some m)]"
        using call(2) by (auto simp: exec.simps split: if_splits)
      show ?thesis
      proof (rule keep)
        show "entered src' s' = entered src' s" for src'
        proof (cases "src' = src")
          case False
          have "\<And>i m. sv_fwd s src' = FCalling i m \<Longrightarrow> i < length (calls (sv_proc s))"
            using calls ownedD by (auto simp: calls_ok_def)
          then show ?thesis using False call(3) cs(2)
            by (cases "sv_fwd s src'") (auto simp: entered_def nth_append)
        qed (use call cs in \<open>auto simp: entered_def\<close>)
      qed (use call cs in simp)
    next
      case (ret i m r)
      then show ?thesis by (intro keep) (auto simp: entered_def)
    qed (rule keep; auto simp: entered_def)+
  next
    case False
    then have q: "sv_fwd s' = sv_fwd s" "sv_log s' = sv_log s" using quiet_step [OF ex] by blast+
    from ex show ?thesis
    proof (cases rule: server_exec_cases)
      case (pool b p)
      show ?thesis by (rule queue_ok_proc [OF ok calls pool(2) nn]) (use pool(1,3) in auto)
    next
      case (scan ids now m p)
      show ?thesis by (rule queue_ok_proc [OF ok calls scan(2) nn]) (use scan(3) in auto)
    next
      case (call src m p)
      then show ?thesis using q(1) by (auto dest: fun_cong [of _ _ src])
    next
      case main
      then show ?thesis
      proof (cases rule: main_step_cases)
        case (stop_proc p)
        show ?thesis by (rule queue_ok_proc [OF ok calls stop_proc(3) nn]) (use stop_proc(4) in auto)
      qed (rule keep; simp add: entered_def)+
    next
      case (rec src zone io m)
      then show ?thesis using q(1) by (auto dest: fun_cong [of _ _ src])
    next
      case (ret src i m r)
      then show ?thesis using q(1) by (auto dest: fun_cong [of _ _ src])
    qed (rule keep; auto simp: entered_def dest: fun_cong)+
  qed
qed

end
