(* ===== verification/Server_Record.thy ===== *)
theory Server_Record
  imports Server_Flow
begin

text \<open>
  The record file of the server program: what it holds, in terms of what the forwarders have passed
  on, and where the messages come from.
\<close>

section \<open>Where the messages come from\<close>

definition from_input :: "TelemetryMessage \<Rightarrow> bool" where
  "from_input m = (\<exists>now raw. ParseTelemetryMessage now raw = Inr m)"

lemma udp_from_input: "udp_reachable l \<Longrightarrow> maxMessageSize l = 65507 \<and> (\<forall>m\<in>set (oks (inputs l)). from_input m)"
proof (induction rule: udp_reachable.induct)
  case (start prt n l0 l)
  then show ?case
    by (auto simp: UDP_Start_def NewUDPListener_def new_listener_def listener.extend_def UDPListener.fields_def split: if_splits)
next
  case (step l a l')
  have "\<forall>m\<in>set (oks (outcome_of a)). from_input m"
  proof (cases a)
    case (Datagram now remote dgram)
    then show ?thesis unfolding from_input_def
      by (cases "ParseTelemetryMessage now (take 65507 dgram)") auto
  qed (simp_all add: oks_def)
  then show ?case using step udp_inputs_step [OF step.hyps(2)] by (simp add: ball_Un)
qed

lemma in_step_subset: "in_step ph acc del h \<Longrightarrow> set del \<subseteq> set acc"
  by (cases "(ph, acc, del, h)" rule: in_step.cases) auto

lemma udp_taken_from_input:
  assumes "udp_reachable l" and "m \<in> set (taken l)"
  shows "from_input m"
proof -
  have "delivered l = taken l @ buf (messagesChan l)" "in_step (loop l) (oks (inputs l)) (delivered l) held"
    using udp_reachable_inv [OF assms(1)] unfolding udp_inv_def flow_of_def by blast+
  from in_step_subset [OF this(2)] this(1) assms(2) have "m \<in> set (oks (inputs l))"
    by (metis Un_iff set_append subsetD)
  then show ?thesis using udp_from_input [OF assms(1)] by blast
qed

lemma tcp_in_step_subset: "tcp_in_step ph acc sent \<Longrightarrow> set sent \<subseteq> set acc"
  by (cases ph) auto

lemma oks_outs_from_input: "m \<in> set (oks (outs c)) \<Longrightarrow> from_input m"
  unfolding from_input_def by (auto simp: oks_def outs_def split: sum.splits) (metis)

lemma tcp_taken_from_input:
  assumes "tcp_reachable l" and "m \<in> set (t_taken l)"
  shows "from_input m"
proof -
  have f: "flow_inv l" using tcp_reachable_inv [OF assms(1)] by (simp add: tcp_inv_def)
  then have "m \<in> set (map snd (t_delivered l))" using assms(2) by (simp add: flow_inv_def)
  then obtain i where i: "(i, m) \<in> set (t_delivered l)" by auto
  then have "i < length (conns l)" using f by (fastforce simp: flow_inv_def)
  then have "set (sent_by i (t_delivered l)) \<subseteq> set (oks (outs (conns l ! i)))"
    using conn_flow_at [OF f] tcp_in_step_subset by blast
  moreover have "m \<in> set (sent_by i (t_delivered l))" using i by (force simp: sent_by_def)
  ultimately show ?thesis using oks_outs_from_input by blast
qed

lemma taken_from_input: "parts_ok fl s \<Longrightarrow> m \<in> set (taken_from src s) \<Longrightarrow> from_input m"
  using udp_taken_from_input tcp_taken_from_input
  by (cases src) (auto simp: parts_ok_def taken_from_def)

section \<open>The record file\<close>

text \<open>What has been given to the open recorder, and what a forwarder is past recording.\<close>

fun past_recording :: "forwarder \<Rightarrow> TelemetryMessage list" where
  "past_recording (FEnqueueing m) = [m]"
| "past_recording (FCalling i m) = [m]"
| "past_recording _ = []"

definition passed :: "source \<Rightarrow> Server \<Rightarrow> TelemetryMessage list" where
  "passed src s = logged src s @ past_recording (sv_fwd s src)"

definition recorded_from :: "source \<Rightarrow> Server \<Rightarrow> TelemetryMessage list" where
  "recorded_from src s = map snd (of_source src (sv_recorded s))"

text \<open>The recorder has been closed once \<open>main\<close> is past closing it.\<close>

abbreviation recording :: "Server \<Rightarrow> bool" where
  "recording s \<equiv> main_order (sv_main s) < 2"

definition file_ok :: "server_flags \<Rightarrow> file_system \<Rightarrow> Server \<Rightarrow> bool" where
  "file_ok fl fs s = (case sv_recorder s of
       None \<Rightarrow> recordFile fl = [] \<and> sv_files s = fs \<and> sv_recorded s = []
     | Some r \<Rightarrow> recordFile fl \<noteq> [] \<and> event_file r = recordFile fl \<and> (EventRecorder.closed r \<longleftrightarrow> \<not> recording s) \<and>
         (\<forall>p. p \<noteq> recordFile fl \<longrightarrow> sv_files s p = fs p) \<and>
         (\<not> sv_torn s \<longrightarrow> sv_files s (recordFile fl) =
            Some (contents fs (recordFile fl) @ join_lines (lines_of (map snd (sv_recorded s))))) \<and>
         (\<forall>src. \<exists>x. passed src s = recorded_from src s @ x \<and> (recording s \<longrightarrow> x = [])))"

text \<open>One call of \<open>Record\<close>.\<close>

lemma Record_file:
  assumes "\<not> EventRecorder.closed r" and "fs (event_file r) = Some d"
  shows "snd (Recorder_Record None r zone m fs :: unit record_error option \<times> file_system) (event_file r) =
    Some (d @ join_lines (lines_of [(zone, m)]))"
  using assms by (cases "marshal_message zone m") (simp_all add: Recorder_Record_def append_file_def contents_def)

lemma Record_other:
  "p \<noteq> event_file r \<Longrightarrow> snd (Recorder_Record io r zone m fs :: 'e record_error option \<times> file_system) p = fs p"
  by (auto simp: Recorder_Record_def append_file_def split: option.split)

lemma Record_closed:
  "EventRecorder.closed r \<Longrightarrow> snd (Recorder_Record io r zone m fs :: 'e record_error option \<times> file_system) = fs"
  by (auto simp: Recorder_Record_def append_file_def split: option.split)

lemma forward_record_None:
  "sv_recorder s = None \<Longrightarrow> forward_record src zone io m s = s\<lparr>sv_fwd := (sv_fwd s)(src := FEnqueueing m)\<rparr>"
  by (simp add: forward_record_def)

lemma forward_record_Some:
  assumes "sv_recorder s = Some r"
  shows "sv_files (forward_record src zone io m s) = snd (Recorder_Record io r zone m (sv_files s) :: unit record_error option \<times> file_system)"
    and "sv_recorded (forward_record src zone io m s) =
      sv_recorded s @ (if EventRecorder.closed r then [] else [(src, zone, m)])"
    and "sv_torn (forward_record src zone io m s) = (sv_torn s \<or> io \<noteq> None)"
  using assms by (simp_all add: forward_record_def case_prod_unfold Let_def)

lemma file_ok_record:
  assumes ok: "file_ok fl fs s" and f: "sv_fwd s src = FRecording m"
  shows "file_ok fl fs (forward_record src zone io m s)"
proof (cases "sv_recorder s")
  case None
  then show ?thesis using ok f by (simp add: file_ok_def forward_record_None)
next
  case (Some r)
  let ?s = "forward_record src zone io m s"
  note e = forward_record_Some [OF Some]
  have r: "recordFile fl \<noteq> []" "event_file r = recordFile fl" "EventRecorder.closed r \<longleftrightarrow> \<not> recording s"
    "\<forall>p. p \<noteq> recordFile fl \<longrightarrow> sv_files s p = fs p"
    and content: "\<not> sv_torn s \<Longrightarrow> sv_files s (recordFile fl) =
            Some (contents fs (recordFile fl) @ join_lines (lines_of (map snd (sv_recorded s))))"
    and order: "\<forall>src. \<exists>x. passed src s = recorded_from src s @ x \<and> (recording s \<longrightarrow> x = [])"
    using ok Some by (simp_all add: file_ok_def)
  have "\<forall>p. p \<noteq> recordFile fl \<longrightarrow> sv_files ?s p = fs p"
  proof (intro allI impI)
    fix p assume "p \<noteq> recordFile fl"
    then show "sv_files ?s p = fs p" using r(2,4) Record_other [of p r io zone m "sv_files s"] by (simp add: e(1))
  qed
  moreover have "sv_files ?s (recordFile fl) =
      Some (contents fs (recordFile fl) @ join_lines (lines_of (map snd (sv_recorded ?s))))" if "\<not> sv_torn ?s"
  proof -
    have t: "\<not> sv_torn s" "io = None" using that unfolding e(3) by blast+
    show ?thesis
    proof (cases "EventRecorder.closed r")
      case True
      then show ?thesis using content [OF t(1)] by (simp add: e(1,2) Record_closed)
    next
      case False
      then show ?thesis using Record_file [OF False, of "sv_files s"] content [OF t(1)] r(2) t(2)
        by (simp add: e(1,2) del: lines_of_simps(2))
    qed
  qed
  moreover have "\<exists>x. passed src' ?s = recorded_from src' ?s @ x \<and> (recording ?s \<longrightarrow> x = [])" for src'
  proof -
    obtain x where x: "passed src' s = recorded_from src' s @ x" "recording s \<longrightarrow> x = []" using order by blast
    have p: "passed src' ?s = passed src' s @ (if src' = src then [m] else [])" using f by (simp add: passed_def logged_def)
    have q: "recorded_from src' ?s = recorded_from src' s @ (if src' = src \<and> recording s then [m] else [])"
      using r(3) by (simp add: recorded_from_def e(2))
    show ?thesis
    proof (cases "recording s")
      case True
      then show ?thesis using x p q by auto
    next
      case False
      then show ?thesis using x(1) p q by auto
    qed
  qed
  ultimately show ?thesis using Some r(1-3) by (simp add: file_ok_def)
qed

text \<open>The recorder is touched by one deferred call only.\<close>

lemma quiet_recorder:
  assumes "server_exec a s = Some s'" and "\<And>src zone io. a \<noteq> SForward src zone io"
  shows "sv_recorder s' = sv_recorder s \<and> (recording s' \<longleftrightarrow> recording s) \<or>
    recording s \<and> \<not> recording s' \<and> sv_recorder s' = map_option (\<lambda>r. r\<lparr>EventRecorder.closed := True\<rparr>) (sv_recorder s)"
proof (cases a)
  case (SMonitor b)
  then have "monitor_step b s = Some s'" using assms(1) by (simp add: server_exec_def split: if_splits)
  then show ?thesis by (cases b) (auto simp: monitor_step_def split: bind_splits)
next
  case SMain
  then have "main_step s = Some s'" using assms(1) by (simp add: server_exec_def split: if_splits)
  then show ?thesis
  proof (cases rule: main_step_cases)
    case close_recorder
    have "snd (Recorder_Close r :: unit os_error option \<times> EventRecorder) = r\<lparr>EventRecorder.closed := True\<rparr>" for r
      by (simp add: Recorder_Close_def)
    then show ?thesis using close_recorder by simp
  qed simp_all
qed (use assms in \<open>auto simp: server_exec_def split: if_splits\<close>)

lemma file_ok_quiet:
  assumes ok: "file_ok fl fs s" and ex: "server_exec a s = Some s'" and a: "\<And>src zone io. a \<noteq> SForward src zone io"
  shows "file_ok fl fs s'"
proof -
  note q = quiet_step [OF ex a]
  have same: "passed src s' = passed src s" "recorded_from src s' = recorded_from src s" for src
    using q by (simp_all add: passed_def logged_def recorded_from_def)
  show ?thesis
  proof (cases "sv_recorder s")
    case None
    then have "sv_recorder s' = None" using quiet_recorder [OF ex a] by auto
    then show ?thesis using ok None q by (simp add: file_ok_def)
  next
    case (Some r)
    have order: "\<forall>src. \<exists>x. passed src s' = recorded_from src s' @ x \<and> (recording s' \<longrightarrow> x = [])"
    proof
      fix src
      obtain x where "passed src s = recorded_from src s @ x" "recording s \<longrightarrow> x = []"
        using ok unfolding file_ok_def Some option.case by blast
      then have "passed src s' = recorded_from src s' @ x \<and> (recording s' \<longrightarrow> x = [])"
        using quiet_recorder [OF ex a] unfolding same by blast
      then show "\<exists>x. passed src s' = recorded_from src s' @ x \<and> (recording s' \<longrightarrow> x = [])" by blast
    qed
    from quiet_recorder [OF ex a] show ?thesis
    proof
      assume "sv_recorder s' = sv_recorder s \<and> (recording s' \<longleftrightarrow> recording s)"
      then show ?thesis using ok Some order q by (simp add: file_ok_def)
    next
      assume "recording s \<and> \<not> recording s' \<and> sv_recorder s' = map_option (\<lambda>r. r\<lparr>EventRecorder.closed := True\<rparr>) (sv_recorder s)"
      then show ?thesis using ok Some order q by (simp add: file_ok_def)
    qed
  qed
qed

lemma file_ok_step:
  assumes ok: "file_ok fl fs s" and ex: "server_exec a s = Some s'"
  shows "file_ok fl fs s'"
proof (cases "\<exists>src zone io. a = SForward src zone io")
  case False
  then show ?thesis using file_ok_quiet [OF assms] by blast
next
  case True
  then obtain src zone io where "a = SForward src zone io" by blast
  with ex have "server_exec (SForward src zone io) s = Some s'" by simp
  then show ?thesis
  proof (cases rule: forward_cases)
    case (rec m)
    then show ?thesis using file_ok_record [OF ok] by blast
  next
    case (take m)
    have "passed src' s' = passed src' s" "recorded_from src' s' = recorded_from src' s" for src'
      using take by (simp_all add: passed_def logged_def recorded_from_def)
    then show ?thesis using ok take by (cases "sv_recorder s") (simp_all add: file_ok_def)
  next
    case ends
    have "passed src' s' = passed src' s" "recorded_from src' s' = recorded_from src' s" for src'
      using ends by (simp_all add: passed_def logged_def recorded_from_def)
    then show ?thesis using ok ends by (cases "sv_recorder s") (simp_all add: file_ok_def)
  next
    case (call m p)
    have "passed src' s' = passed src' s" "recorded_from src' s' = recorded_from src' s" for src'
      using call by (simp_all add: passed_def logged_def recorded_from_def)
    then show ?thesis using ok call by (cases "sv_recorder s") (simp_all add: file_ok_def)
  next
    case (ret i m r)
    have "passed src' s' = passed src' s" "recorded_from src' s' = recorded_from src' s" for src'
      using ret by (simp_all add: passed_def logged_def recorded_from_def)
    then show ?thesis using ok ret by (cases "sv_recorder s") (simp_all add: file_ok_def)
  qed
qed

end
