(* ===== verification/Server_Properties.thy ===== *)
theory Server_Properties
  imports Server_Record
begin

text \<open>
  What the server program promises as a whole, under every interleaving of its goroutines, and how it
  can fail while it shuts down.
\<close>

section \<open>The invariant\<close>

definition server_ok :: "server_flags \<Rightarrow> file_system \<Rightarrow> Server \<Rightarrow> bool" where
  "server_ok fl fs s = (parts_ok fl s \<and> phases_ok s \<and> calls_ok s \<and> forwarding_ok s \<and> queue_ok s \<and> file_ok fl fs s)"

lemma server_ok_start:
  assumes "main_start fl env fs = Started s"
  shows "server_ok fl fs s"
proof -
  obtain r fs' udp tcp where p: "open_recorder fl env fs = (Inr r, fs')" "udp_reachable udp" "tcp_reachable tcp"
    "taken udp = []" "t_taken tcp = []" "l_stopping udp = LNotStopping" "t_stopping tcp = TNotStopping"
    and s: "s = \<lparr>sv_proc = started (proc_config fl),
       sv_monitor = monitor_started \<lparr>StaleTimeout = staleTimeout fl, CheckInterval = healthCheckInterval fl\<rparr>,
       sv_udp = udp, sv_tcp = tcp, sv_recorder = r, sv_files = fs', sv_fwd = (\<lambda>_. FWaiting),
       sv_main = Serving, sv_recorded = [], sv_torn = False, sv_log = []\<rparr>"
    using main_start_Started [OF assms] by blast
  have "parts_ok fl s" using p(2,3) reachable.start by (simp add: s parts_ok_def)
  moreover have "phases_ok s" using p(6,7)
    by (simp add: s phases_ok_def monitor_started_def NewMonitor_def Let_def Monitor_Start_def
        Monitor.extend_def monitor_run.fields_def)
  moreover have "calls_ok s" by (simp add: s calls_ok_def owned_def one_owner_def others_over_def fails_late_def)
  moreover have "forwarding_ok s" using p(4,5)
    by (auto simp: s forwarding_ok_def taken_from_def logged_def split: source.split)
  moreover have "queue_ok s" by (auto simp: s queue_ok_def entered_def interleaves_def)
  moreover have "file_ok fl fs s" using p(1)
    by (auto simp: s file_ok_def open_recorder_def NewEventRecorder_def passed_def logged_def recorded_from_def
        split: if_splits option.splits)
  ultimately show ?thesis by (simp add: server_ok_def)
qed

lemma server_reachable_ok: "server_reachable fl fs s \<Longrightarrow> server_ok fl fs s"
proof (induction rule: server_reachable.induct)
  case (start env s)
  then show ?case by (rule server_ok_start)
next
  case (step s a s')
  note ok = step.IH [unfolded server_ok_def]
  then show ?case
    using parts_ok_step [OF _ step.hyps(2)] phases_ok_step [OF _ step.hyps(2)] calls_ok_step [OF _ _ _ step.hyps(2)]
      forwarding_ok_step [OF _ step.hyps(2)] queue_ok_step [OF _ _ _ step.hyps(2)] file_ok_step [OF _ step.hyps(2)]
    unfolding server_ok_def by blast
qed

section \<open>A run\<close>

definition one_worker_flags :: server_flags where
  "one_worker_flags = default_flags\<lparr>numWorkers := 1, bufferSize := 1, recordFile := ''f''\<rparr>"

definition quiet_env :: startup where
  "quiet_env = \<lparr>udpBound = True, tcpBound = True, apiBound = True, recordOpenErr = None\<rparr>"

text \<open>The started server.\<close>

definition first_server :: Server where
  "first_server =
     \<lparr>sv_proc = \<lparr>p_config = proc_config one_worker_flags, p_store = NewStateStore, p_workers = [(NewWorker 0, Idle)],
        p_jobs = \<lparr>buf = [], chan_cap = 1, closed = False\<rparr>, p_stopClosed = False, p_isRunning = True,
        p_procLatency = NewLatencyRecorder 0, p_e2eLatency = NewLatencyRecorder 0,
        p_enqueued = 0, p_queueFull = 0, calls = [], stopping = NotStopping, crashed = False,
        accepted = [], ops = []\<rparr>,
      sv_monitor = \<lparr>m_config = \<lparr>StaleTimeout = 5 * second, CheckInterval = second\<rparr>, m_store = NewStateStore,
        m_stopClosed = False, m_loop = Waiting, m_ctxDone = False, m_stopping = MNotStopping, m_panicked = False,
        warned = []\<rparr>,
      sv_udp = \<lparr>messagesChan = make_chan 1, errorsChan = make_chan 10, l_stopClosed = False, l_isRunning = True,
        messagesReceived = 0, messagesRejected = 0, lastErrorTime = 0, lastErrorMessage = None, port = 9000,
        maxMessageSize = 65507, conn = Open, loop = AtTop, l_stopping = LNotStopping, panicked = False,
        inputs = [], delivered = [], taken = []\<rparr>,
      sv_tcp = \<lparr>messagesChan = make_chan 1, errorsChan = make_chan 10, l_stopClosed = False, l_isRunning = True,
        messagesReceived = 0, messagesRejected = 0, lastErrorTime = 0, lastErrorMessage = None, t_port = 9001,
        t_listener = Open, connections = {}, activeConnections = 0, totalConnections = 0, accepting = Accepting,
        conns = [], t_stopping = TNotStopping, t_panicked = False, t_delivered = [], t_taken = []\<rparr>,
      sv_recorder = Some \<lparr>event_file = ''f'', closed = False\<rparr>, sv_files = [''f'' \<mapsto> []], sv_fwd = (\<lambda>_. FWaiting),
      sv_main = Serving, sv_recorded = [], sv_torn = False, sv_log = []\<rparr>"

lemma first_server: "main_start one_worker_flags quiet_env Map.empty = Started first_server"
  by (simp add: first_server_def main_start_def one_worker_flags_def quiet_env_def default_flags_def NewUDPListener_def
     UDP_Start_def NewTCPListener_def TCP_Start_def open_recorder_def NewEventRecorder_def Let_def new_listener_def
     listener.extend_def UDPListener.fields_def TCPListener.fields_def contents_def monitor_started_def NewMonitor_def
     Monitor_Start_def Monitor.extend_def monitor_run.fields_def started_def idle_system_def Start_def NewProcessor_def
     Processor.Processor.extend_def system.fields_def proc_config_def make_chan_def upt_conv_Cons second_def)

lemma server_run_reachable: "server_run as s = Some s' \<Longrightarrow> server_reachable fl fs s \<Longrightarrow> server_reachable fl fs s'"
  by (induction as arbitrary: s) (auto intro: server_reachable.step split: bind_splits)

lemma server_run_append: "server_run (as @ bs) s = Option.bind (server_run as s) (server_run bs)"
  by (induction as arbitrary: s) (auto split: Option.bind_split)

text \<open>A datagram is received and its forwarder enters \<open>Enqueue\<close>; then \<open>main\<close> shuts down.\<close>

definition forwarded_run :: "server_act list" where
  "forwarded_run = [SUdp Top, SUdp (Datagram sample_now ''a'' good_input), SUdp Offer,
     SForward FromUDP 0 None, SForward FromUDP 0 None, SForward FromUDP 0 None]"

definition forwarded :: Server where
  "forwarded = the (server_run forwarded_run first_server)"

lemmas server_eval = server_exec_def over_def forward_step_def take_next_def forward_record_def main_step_def monitor_step_def
  Recorder_Record_def append_file_def marshal_sample m_exec_def monitor_stop_step_def

lemma forwarded_eval:
  "server_run forwarded_run first_server = Some (first_server
     \<lparr>sv_proc := (sv_proc first_server)\<lparr>calls := [Blocking (Some sample_input_message)]\<rparr>,
      sv_udp := (sv_udp first_server)\<lparr>messagesReceived := 1, inputs := [Inr sample_input_message],
        delivered := [sample_input_message], taken := [sample_input_message]\<rparr>,
      sv_files := [''f'' \<mapsto> good_input @ [newline]], sv_fwd := (\<lambda>_. FWaiting)(FromUDP := FCalling 0 sample_input_message),
      sv_recorded := [(FromUDP, 0, sample_input_message)]\<rparr>)"
  by (simp add: forwarded_run_def first_server_def server_eval udp_eval good_input_accepted exec.simps contents_def
      make_chan_def fun_eq_iff)

lemma forwarded_server: "forwarded = first_server
     \<lparr>sv_proc := (sv_proc first_server)\<lparr>calls := [Blocking (Some sample_input_message)]\<rparr>,
      sv_udp := (sv_udp first_server)\<lparr>messagesReceived := 1, inputs := [Inr sample_input_message],
        delivered := [sample_input_message], taken := [sample_input_message]\<rparr>,
      sv_files := [''f'' \<mapsto> good_input @ [newline]], sv_fwd := (\<lambda>_. FWaiting)(FromUDP := FCalling 0 sample_input_message),
      sv_recorded := [(FromUDP, 0, sample_input_message)]\<rparr>"
  by (simp add: forwarded_def forwarded_eval)

lemma forwarded_reachable: "server_reachable one_worker_flags Map.empty forwarded"
  using server_run_reachable [OF forwarded_eval server_reachable.start [OF first_server]] by (simp only: forwarded_server)

text \<open>The deferred calls, in stages: the recorder, the API and the TCP listener; the UDP listener and
  the monitor; the processor, up to the closing of its queue.\<close>

definition stop_tcp_run :: "server_act list" where
  "stop_tcp_run = [SSignal, SMain, SMain, SMain, SMain, SMain, STcp (AcceptFails 0 ''closed''), SMain, SMain, SMain, SMain, SMain, SMain]"

definition stop_udp_run :: "server_act list" where
  "stop_udp_run = [SMain, SMain, SMain, SMain, SUdp Top, SMain, SMain, SMain, SMain, SMain, SMonitor SeeStop, SMain, SMain]"

definition stop_proc_run :: "server_act list" where
  "stop_proc_run = [SMain, SMain, SMain, SMain, SPool (Proceed 0)]"

lemmas stop_eval = server_eval tcp_exec_def tcp_stop_step_def chan_close_def accept_fails_def all_exited_def
  udp_exec.simps udp_stop_step_def exec.simps stop_step_def proceed_def chan_send_def make_chan_def

lemma shutdown_eval:
  "\<exists>s. server_run (stop_tcp_run @ stop_udp_run @ stop_proc_run) forwarded = Some s \<and> crashed (sv_proc s) \<and>
     sv_main s = StoppingProcessor \<and> l_stopping (sv_udp s) = LStopped \<and> t_stopping (sv_tcp s) = TStopped \<and>
     taken (sv_udp s) = [sample_input_message] \<and> sv_recorded s = [(FromUDP, 0, sample_input_message)] \<and> ops (sv_proc s) = []"
  by (simp add: stop_tcp_run_def stop_udp_run_def stop_proc_run_def forwarded_server first_server_def stop_eval
      close_registered_def)

section \<open>Messages\<close>

text \<open>The message a forwarder has and the queue has not.\<close>

definition pending :: "source \<Rightarrow> Server \<Rightarrow> TelemetryMessage list" where
  "pending src s = (case sv_fwd s src of
       FRecording m \<Rightarrow> [m]
     | FEnqueueing m \<Rightarrow> [m]
     | FCalling i m \<Rightarrow> if calls (sv_proc s) ! i = Counting \<or> calls (sv_proc s) ! i = call.Returned None then [] else [m]
     | _ \<Rightarrow> [])"

lemma stop_begun_iff: "stop_begun s \<longleftrightarrow> sv_main s \<in> {StoppingProcessor, Gone}"
  by (cases "sv_main s") simp_all

lemma taken_split:
  assumes "server_ok fl fs s" and "\<not> stop_begun s"
  shows "taken_from src s = entered src s @ pending src s"
proof -
  have "\<forall>(src, m, r)\<in>set (sv_log s). r = None"
    using assms by (simp add: server_ok_def calls_ok_def fails_late_def)
  then have "\<forall>(m, r)\<in>set (of_source src (sv_log s)). r = None" by (auto simp: of_source_def)
  then have "filter (\<lambda>(m, r). r = None) (of_source src (sv_log s)) = of_source src (sv_log s)"
    by (auto simp: filter_id_conv)
  moreover have "taken_from src s = logged src s @ fwd_hand (sv_fwd s src)"
    using assms(1) by (simp add: server_ok_def forwarding_ok_def)
  ultimately show ?thesis
    by (cases "sv_fwd s src") (simp_all add: entered_def logged_def pending_def)
qed

lemma of_source_mset:
  "mset (map snd E) = mset (of_source FromUDP E) + mset (of_source FromTCP E)"
proof (induction E)
  case (Cons p E)
  obtain src m where "p = (src, m)" by fastforce
  then show ?case using Cons by (cases src) (simp_all add: of_source_def)
qed simp

lemma merged:
  assumes ok: "server_ok fl fs s" and "\<not> stop_begun s"
  obtains E where "accepted (sv_proc s) = map (Some \<circ> snd) E"
    "delivered (sv_udp s) = of_source FromUDP E @ pending FromUDP s @ buf (messagesChan (sv_udp s))"
    "map snd (t_delivered (sv_tcp s)) = of_source FromTCP E @ pending FromTCP s @ buf (messagesChan (sv_tcp s))"
proof -
  obtain E where E: "accepted (sv_proc s) = map (Some \<circ> snd) E" "\<And>src. of_source src E = entered src s"
    using ok by (auto simp: server_ok_def queue_ok_def interleaves_def)
  note t = taken_split [OF assms]
  have u: "delivered (sv_udp s) = taken (sv_udp s) @ buf (messagesChan (sv_udp s))"
    using ok udp_reachable_inv by (simp add: server_ok_def parts_ok_def udp_inv_def flow_of_def)
  have c: "map snd (t_delivered (sv_tcp s)) = t_taken (sv_tcp s) @ buf (messagesChan (sv_tcp s))"
    using ok tcp_reachable_inv by (simp add: server_ok_def parts_ok_def tcp_inv_def flow_inv_def)
  show thesis by (rule that [OF E(1)]) (use t [of FromUDP] t [of FromTCP] u c E(2) in \<open>simp_all add: taken_from_def\<close>)
qed

text \<open>
  Property C13. Until \<open>main\<close> stops the processor, the processor's queue receives an interleaving of what
  the two forwarders take from their listeners: each listener's messages enter the queue in the order in
  which the listener delivered them, none skipped, none twice, except for the one the forwarder still
  has in its hands.
\<close>

theorem listeners_merge_into_queue:
  assumes "server_reachable fl fs s" and "sv_main s \<notin> {StoppingProcessor, Gone}"
  shows "\<exists>E. accepted (sv_proc s) = map (Some \<circ> snd) E \<and>
    delivered (sv_udp s) = of_source FromUDP E @ pending FromUDP s @ buf (messagesChan (sv_udp s)) \<and>
    map snd (t_delivered (sv_tcp s)) = of_source FromTCP E @ pending FromTCP s @ buf (messagesChan (sv_tcp s))"
proof -
  have "\<not> stop_begun s" using assms(2) stop_begun_iff by blast
  then show ?thesis using merged [OF server_reachable_ok [OF assms(1)]] by metis
qed

theorem listeners_merge_into_queue_witness:
  "\<exists>E. accepted (sv_proc forwarded) = map (Some \<circ> snd) E \<and>
    [sample_input_message] = of_source FromUDP E @ pending FromUDP forwarded @ []"
proof -
  have "sv_main forwarded \<notin> {StoppingProcessor, Gone}" by (simp add: forwarded_server first_server_def)
  note p = listeners_merge_into_queue [OF forwarded_reachable this]
  have "delivered (sv_udp forwarded) = [sample_input_message]" "buf (messagesChan (sv_udp forwarded)) = []"
    by (simp_all add: forwarded_server first_server_def)
  with p show ?thesis by fastforce
qed

text \<open>The book-keeping lemma behind the next property.\<close>

lemma merged_mset:
  assumes "accepted p = map (Some \<circ> snd) E" and "flow_ok p"
  shows "image_mset Some (mset (of_source FromUDP E) + mset (of_source FromTCP E)) =
    mset (buf (p_jobs p)) + image_mset Some (mset (hands p) + mset (updates (ops p)))"
proof -
  have "mset (accepted p) = image_mset Some (mset (map snd E))" using assms(1) by (simp add: multiset.map_comp)
  then show ?thesis using assms(2) of_source_mset [of E] by (simp add: flow_ok_def)
qed

text \<open>
  Property C12. End to end, nothing is lost or duplicated until \<open>main\<close> stops the processor: every message a
  listener has put on its channel is still there, with its forwarder, in the processor's queue, in a
  worker's hands, or applied to the store, exactly once; and the message counts of the sensors in the
  store sum to the number of messages applied.
\<close>

theorem server_conserves_messages:
  assumes "server_reachable fl fs s" and "sv_main s \<notin> {StoppingProcessor, Gone}"
  shows "image_mset Some (mset (delivered (sv_udp s)) + mset (map snd (t_delivered (sv_tcp s)))) =
      image_mset Some (mset (buf (messagesChan (sv_udp s))) + mset (buf (messagesChan (sv_tcp s))) +
        mset (pending FromUDP s) + mset (pending FromTCP s)) +
      mset (buf (p_jobs (sv_proc s))) + image_mset Some (mset (hands (sv_proc s)) + mset (updates (ops (sv_proc s)))) \<and>
    store_total st_MessageCount (p_store (sv_proc s)) = of_nat (length (updates (ops (sv_proc s))))"
proof -
  have live: "\<not> stop_begun s" using assms(2) stop_begun_iff by blast
  note ok = server_reachable_ok [OF assms(1)]
  have v: "inv (proc_config fl) (sv_proc s)" using ok reachable_inv by (auto simp: server_ok_def parts_ok_def)
  obtain E where E: "accepted (sv_proc s) = map (Some \<circ> snd) E"
    "delivered (sv_udp s) = of_source FromUDP E @ pending FromUDP s @ buf (messagesChan (sv_udp s))"
    "map snd (t_delivered (sv_tcp s)) = of_source FromTCP E @ pending FromTCP s @ buf (messagesChan (sv_tcp s))"
    using merged [OF ok live] .
  have "image_mset Some (mset (of_source FromUDP E) + mset (of_source FromTCP E)) =
      mset (buf (p_jobs (sv_proc s))) + image_mset Some (mset (hands (sv_proc s)) + mset (updates (ops (sv_proc s))))"
    using merged_mset [OF E(1)] v by (simp add: inv_def)
  moreover have "exec_ops (ops (sv_proc s)) NewStateStore = p_store (sv_proc s)"
    using v by (simp add: inv_def pool_ok_def)
  then have "store_total st_MessageCount (p_store (sv_proc s)) = of_nat (length (updates (ops (sv_proc s))))"
    using total_messages [of "ops (sv_proc s)"] by simp
  ultimately show ?thesis unfolding E(2,3) by (simp add: algebra_simps)
qed

theorem server_conserves_messages_witness:
  "{#Some sample_input_message#} = image_mset Some (mset (pending FromUDP forwarded) + mset (pending FromTCP forwarded)) +
     mset (buf (p_jobs (sv_proc forwarded))) \<and> store_total st_MessageCount (p_store (sv_proc forwarded)) = 0"
proof -
  have "sv_main forwarded \<notin> {StoppingProcessor, Gone}" by (simp add: forwarded_server first_server_def)
  note p = server_conserves_messages [OF forwarded_reachable this]
  have "delivered (sv_udp forwarded) = [sample_input_message]" "buf (messagesChan (sv_udp forwarded)) = []"
    "t_delivered (sv_tcp forwarded) = []" "buf (messagesChan (sv_tcp forwarded)) = []"
    "hands (sv_proc forwarded) = []" "ops (sv_proc forwarded) = []"
    by (simp_all add: forwarded_server first_server_def hands_def)
  with p show ?thesis by simp
qed

section \<open>Panics\<close>

text \<open>
  Property C14. While the server runs and while it shuts down, up to the moment at which the processor's
  \<open>Stop\<close> has closed the job queue, no goroutine of the listeners, the monitor, the workers or the
  forwarders panics; and no \<open>Enqueue\<close> of a forwarder fails before \<open>main\<close> has come to stopping the
  processor.
\<close>

theorem server_safe_until_queue_closed:
  assumes "server_reachable fl fs s"
  shows "\<not> panicked (sv_udp s) \<and> \<not> t_panicked (sv_tcp s) \<and> \<not> m_panicked (sv_monitor s) \<and>
    (crashed (sv_proc s) \<longrightarrow> chan.closed (p_jobs (sv_proc s)) \<and> sv_main s \<in> {StoppingProcessor, Gone}) \<and>
    (\<forall>(src, m, r)\<in>set (sv_log s). r \<noteq> None \<longrightarrow> sv_main s \<in> {StoppingProcessor, Gone})"
proof -
  note ok = server_reachable_ok [OF assms, unfolded server_ok_def]
  have "inv (proc_config fl) (sv_proc s)" using ok reachable_inv by (auto simp: parts_ok_def)
  then have crash: "crashed (sv_proc s) \<Longrightarrow> chan.closed (p_jobs (sv_proc s))" unfolding inv_def flags_ok_def by blast
  have shut: "chan.closed (p_jobs (sv_proc s)) \<Longrightarrow> stop_begun s" using stop_flags(4) ok by blast
  have "\<not> panicked (sv_udp s)" using ok udp_reachable_inv by (simp add: parts_ok_def udp_inv_def udp_flags_def)
  moreover have "\<not> t_panicked (sv_tcp s)" using ok tcp_reachable_inv by (simp add: parts_ok_def tcp_inv_def tcp_flags_def)
  moreover have "\<not> m_panicked (sv_monitor s)" using ok by (simp add: phases_ok_def)
  moreover have "\<forall>(src, m, r)\<in>set (sv_log s). r \<noteq> None \<longrightarrow> stop_begun s"
    using ok by (auto simp: calls_ok_def fails_late_def)
  ultimately show ?thesis using crash shut stop_begun_iff by blast
qed

theorem server_safe_until_queue_closed_witness:
  "\<not> panicked (sv_udp forwarded) \<and> \<not> crashed (sv_proc forwarded)"
proof -
  have "sv_main forwarded \<notin> {StoppingProcessor, Gone}" by (simp add: forwarded_server first_server_def)
  then show ?thesis using server_safe_until_queue_closed [OF forwarded_reachable] by blast
qed

text \<open>
  Property C15. That moment is within the reach of an ordinary shutdown: \<open>main\<close> waits for both listeners
  but not for the forwarders, so a forwarder that is still in \<open>Enqueue\<close> with the last message when
  \<open>Stop\<close> closes the queue sends on a closed channel, and the whole process panics. The listeners have
  stopped properly, and the message is in the record file but was never processed.
\<close>

theorem shutdown_panics:
  "\<exists>s m. server_reachable one_worker_flags Map.empty s \<and> crashed (sv_proc s) \<and> sv_main s = StoppingProcessor \<and>
     l_stopping (sv_udp s) = LStopped \<and> t_stopping (sv_tcp s) = TStopped \<and>
     taken_from FromUDP s = [m] \<and> recorded_from FromUDP s = [m] \<and> updates (ops (sv_proc s)) = []"
proof -
  obtain s where s: "server_run (stop_tcp_run @ stop_udp_run @ stop_proc_run) forwarded = Some s" "crashed (sv_proc s)"
    "sv_main s = StoppingProcessor" "l_stopping (sv_udp s) = LStopped" "t_stopping (sv_tcp s) = TStopped"
    "taken (sv_udp s) = [sample_input_message]" "sv_recorded s = [(FromUDP, 0, sample_input_message)]" "ops (sv_proc s) = []"
    using shutdown_eval by blast
  moreover have "server_reachable one_worker_flags Map.empty s" by (rule server_run_reachable [OF s(1) forwarded_reachable])
  ultimately show ?thesis by (intro exI [of _ s] exI [of _ sample_input_message]) (simp add: taken_from_def recorded_from_def)
qed

section \<open>The record file\<close>

lemma recorded_taken:
  assumes "server_ok fl fs s" and "m \<in> set (recorded_from src s)"
  shows "m \<in> set (taken_from src s)"
proof -
  have "set (recorded_from src s) \<subseteq> set (passed src s)"
  proof (cases "sv_recorder s")
    case None
    then show ?thesis using assms by (simp add: server_ok_def file_ok_def recorded_from_def)
  next
    case (Some r)
    then obtain x where "passed src s = recorded_from src s @ x"
      using assms(1) by (auto simp: server_ok_def file_ok_def)
    then show ?thesis by simp
  qed
  moreover have "set (past_recording f) \<subseteq> set (fwd_hand f)" for f by (cases f) simp_all
  then have "set (passed src s) \<subseteq> set (taken_from src s)"
    using assms(1) by (auto simp: server_ok_def forwarding_ok_def passed_def)
  ultimately show ?thesis using assms(2) by blast
qed

text \<open>
  Property C16. With \<open>--record\<close> naming a file that is new or holds only lines recorded before, and as long
  as no write has failed, replaying the file of the running or stopped server hands over, in order, the
  earlier messages and then those given to the open recorder, in canonical form, except those whose
  timestamp cannot be written; but it ends with an error, handing over nothing from there on, at the
  first line of 1 MiB or more. Given to the recorder is of each listener a prefix of what its
  forwarder has passed on, in order, and all of it until \<open>main\<close> closes the recorder, which comes first in a
  shutdown: what is passed on after that is not recorded.
\<close>

theorem record_file_replays:
  assumes "server_reachable fl fs s" and "recordFile fl \<noteq> []" and "\<not> sv_torn s"
    and "contents fs (recordFile fl) = join_lines (lines_of old)" and "\<forall>(zone, m)\<in>set old. from_input m"
  shows "Replay (NewPlayer (recordFile fl)) (readable (sv_files s)) (\<lambda>_. None) collect [] =
      (let zms = old @ map snd (sv_recorded s); ms = map snd (filter writable (takeWhile short_line zms))
       in (length ms, if list_all short_line zms then None else Some (ScanFailed None), map canonical ms)) \<and>
    (\<forall>(zone, m)\<in>set (old @ map snd (sv_recorded s)). same_message m (canonical m)) \<and>
    (\<forall>src. \<exists>x. passed src s = recorded_from src s @ x \<and>
       (sv_main s = Serving \<or> sv_main s = ClosingRecorder \<longrightarrow> x = []))"
proof -
  note ok = server_reachable_ok [OF assms(1)]
  let ?zms = "old @ map snd (sv_recorded s)"
  obtain r where r: "sv_recorder s = Some r"
    using ok assms(2) by (cases "sv_recorder s") (auto simp: server_ok_def file_ok_def)
  have rec: "sv_files s (recordFile fl) = Some (join_lines (lines_of ?zms))"
    and order: "\<forall>src. \<exists>x. passed src s = recorded_from src s @ x \<and> (recording s \<longrightarrow> x = [])"
    using ok r assms(3,4) by (simp_all add: server_ok_def file_ok_def)
  have "recording s \<longleftrightarrow> sv_main s = Serving \<or> sv_main s = ClosingRecorder" by (cases "sv_main s") simp_all
  with order have order': "\<forall>src. \<exists>x. passed src s = recorded_from src s @ x \<and>
       (sv_main s = Serving \<or> sv_main s = ClosingRecorder \<longrightarrow> x = [])" by simp
  have "from_input m" if "(src, zone, m) \<in> set (sv_recorded s)" for src zone m
  proof -
    have "m \<in> set (recorded_from src s)" using that by (force simp: recorded_from_def of_source_def)
    from taken_from_input [OF _ recorded_taken [OF ok this]] show ?thesis using ok unfolding server_ok_def by blast
  qed
  then have input: "\<forall>(zone, m)\<in>set ?zms. from_input m" using assms(5) by auto
  then have dec: "\<forall>(zone, m)\<in>set ?zms. decoded m" and same: "\<forall>(zone, m)\<in>set ?zms. same_message m (canonical m)"
    using accepted_decoded canonical_same by (fastforce simp: from_input_def)+
  show ?thesis using replay_file [where zms = ?zms and fs = "sv_files s" and p = "recordFile fl", OF dec rec] same order' by (simp only: Let_def map_map length_map simp_thms)
qed

theorem record_file_replays_witness:
  "fst (Replay (NewPlayer ''f'') (readable (sv_files forwarded)) (\<lambda>_. None :: unit option) collect []) = 1 \<and>
   passed FromUDP forwarded = [sample_input_message]"
proof -
  have h: "recordFile one_worker_flags \<noteq> []" "\<not> sv_torn forwarded"
      "contents Map.empty (recordFile one_worker_flags) = join_lines (lines_of [])" "\<forall>(zone, m)\<in>set []. from_input m"
    by (simp_all add: one_worker_flags_def default_flags_def contents_def forwarded_server first_server_def)
  note p = record_file_replays [OF forwarded_reachable h]
  have f: "recordFile one_worker_flags = ''f''" "sv_recorded forwarded = [(FromUDP, 0, sample_input_message)]" "sv_main forwarded = Serving"
    by (simp_all add: one_worker_flags_def default_flags_def forwarded_server first_server_def)
  have s: "short_line (0, sample_input_message)"
    using short_line_simps(2) [OF marshal_sample] by (simp add: maxLineSize_def good_input_def)
  have w: "writable (0, sample_input_message)" by code_simp
  have "passed FromUDP forwarded = recorded_from FromUDP forwarded" using p f(3) by auto
  then have "passed FromUDP forwarded = [sample_input_message]" by (simp add: recorded_from_def f(2))
  moreover have "fst (Replay (NewPlayer ''f'') (readable (sv_files forwarded)) (\<lambda>_. None :: unit option) collect []) = 1"
    using conjunct1 [OF p] s w f(1,2) by (simp add: Let_def)
  ultimately show ?thesis by blast
qed

text \<open>A message that arrives between the closing of the recorder and the stopping of its listener is processed
  and not recorded.\<close>

definition late_run :: "server_act list" where
  "late_run = [SSignal, SMain, SUdp Top, SUdp (Datagram sample_now ''a'' good_input), SUdp Offer,
     SForward FromUDP 0 None, SForward FromUDP 0 None, SForward FromUDP 0 None, SPool (Proceed 0), SPool (Proceed 0),
     SForward FromUDP 0 None]"

theorem late_message_unrecorded:
  "\<exists>s m. server_reachable one_worker_flags Map.empty s \<and> accepted (sv_proc s) = [Some m] \<and>
     sv_log s = [(FromUDP, m, None)] \<and> sv_recorded s = [] \<and> sv_files s ''f'' = Some []"
proof -
  have "\<exists>s. server_run late_run first_server = Some s \<and> accepted (sv_proc s) = [Some sample_input_message] \<and>
     sv_log s = [(FromUDP, sample_input_message, None)] \<and> sv_recorded s = [] \<and> sv_files s ''f'' = Some []"
    by (simp add: late_run_def first_server_def server_eval Recorder_Close_def udp_eval good_input_accepted exec.simps
        contents_def make_chan_def proceed_def)
  then obtain s where s: "server_run late_run first_server = Some s" "accepted (sv_proc s) = [Some sample_input_message]"
    "sv_log s = [(FromUDP, sample_input_message, None)]" "sv_recorded s = []" "sv_files s ''f'' = Some []" by blast
  have "server_reachable one_worker_flags Map.empty s"
    by (rule server_run_reachable [OF s(1) server_reachable.start [OF first_server]])
  with s(2-) show ?thesis by blast
qed

end
