(* ===== verification/Replay_Program.thy ===== *)
theory Replay_Program
  imports Pool_Calls Pool_Shutdown Replay
begin

text \<open>
  cmd/replay/main.go: the replay program. \<open>main\<close> feeds the lines of a file to the processor, one
  \<open>Enqueue\<close> at a time, waits until the queue is empty, prints statistics and stops the processor; the
  workers run in between, in any order. Reading a line and entering \<open>Enqueue\<close> is one step, since
  reading touches nothing the workers see. The printed text is not modelled, its contents are.
\<close>

section \<open>The program\<close>

record replay_flags =
  replayFile :: bytes
  workers :: goint
  queueSize :: goint

definition default_replay_flags :: replay_flags where
  "default_replay_flags = \<lparr>replayFile = ''events.jsonl'', workers = 4, queueSize = 1000\<rparr>"

datatype replay_cause = EnqueueFailed enqueue_error | ReadFailed bytes

text \<open>What \<open>main\<close> is at; \<open>RFailed\<close> is the exit with status 1, which does not run the deferred
  \<open>Stop\<close>, and \<open>RStopping\<close> the deferred \<open>Stop\<close> after the statistics have been printed.\<close>

datatype replay_phase =
    RReading
  | RCalling nat TelemetryMessage
  | RFailed "replay_cause replay_error"
  | RWaiting time
  | RPrinting wait_result
  | RStopping wait_result ProcessorStats
  | RExited wait_result ProcessorStats
  | RPanicked

text \<open>\<open>rp_handled\<close> is ghost history: the messages whose \<open>Enqueue\<close> has returned nil.\<close>

record ReplayMain =
  rp_proc :: system
  rp_lines :: "bytes list"
  rp_lineNum :: nat
  rp_count :: nat
  rp_scanErr :: "replay_cause replay_error option"
  rp_phase :: replay_phase
  rp_handled :: "TelemetryMessage list"

definition replay_config :: "replay_flags \<Rightarrow> ProcessorConfig" where
  "replay_config fl = \<lparr>NumWorkers = workers fl, QueueSize = queueSize fl\<rparr>"

type_synonym replay_files = "bytes \<rightharpoonup> bytes \<times> replay_cause option"

definition replay_main :: "replay_flags \<Rightarrow> replay_files \<Rightarrow> ReplayMain" where
  "replay_main fl files =
     (case files (path (NewPlayer (replayFile fl))) of
        None \<Rightarrow> \<lparr>rp_proc = started (replay_config fl), rp_lines = [], rp_lineNum = 0, rp_count = 0, rp_scanErr = None,
          rp_phase = RFailed OpenFailed, rp_handled = []\<rparr>
      | Some (data, readErr) \<Rightarrow>
          (let (lines, tooLong) = scan_lines maxLineSize data
           in \<lparr>rp_proc = started (replay_config fl), rp_lines = lines, rp_lineNum = 0, rp_count = 0,
               rp_scanErr = scan_error tooLong readErr, rp_phase = RReading, rp_handled = []\<rparr>))"

text \<open>One step of \<open>main\<close> at clock time \<open>now\<close>: a line, a call's return, a round of
  \<open>WaitForQuiescence\<close>, the statistics, or a statement of \<open>Stop\<close>.\<close>

definition replay_step :: "time \<Rightarrow> ReplayMain \<Rightarrow> ReplayMain option" where
  "replay_step now s = (case rp_phase s of
       RReading \<Rightarrow> (case rp_lines s of
           [] \<Rightarrow> Some (s\<lparr>rp_phase := (case rp_scanErr s of
               None \<Rightarrow> RWaiting (Add now (10 * second)) | Some err \<Rightarrow> RFailed err)\<rparr>)
         | line # lines \<Rightarrow>
             if length line = 0 then Some (s\<lparr>rp_lines := lines, rp_lineNum := rp_lineNum s + 1\<rparr>)
             else (case unmarshal TelemetryMessage_fields zero_TelemetryMessage line of
                 None \<Rightarrow> Some (s\<lparr>rp_phase := RFailed (ParseLine (rp_lineNum s + 1))\<rparr>)
               | Some msg \<Rightarrow> map_option (\<lambda>p. s\<lparr>rp_proc := p, rp_lines := lines, rp_lineNum := rp_lineNum s + 1,
                     rp_phase := RCalling (length (calls (rp_proc s))) msg\<rparr>)
                   (exec (Call Enqueue (Some msg)) (rp_proc s))))
     | RCalling i msg \<Rightarrow> (case calls (rp_proc s) ! i of
           Returned None \<Rightarrow> Some (s\<lparr>rp_count := rp_count s + 1, rp_phase := RReading, rp_handled := rp_handled s @ [msg]\<rparr>)
         | Returned (Some err) \<Rightarrow> Some (s\<lparr>rp_phase := RFailed (HandlerFailed (rp_lineNum s) (EnqueueFailed err))\<rparr>)
         | _ \<Rightarrow> None)
     | RWaiting deadline \<Rightarrow>
         (case wait_polls deadline [(p_isRunning (rp_proc s), length (buf (p_jobs (rp_proc s))), now)] of
            None \<Rightarrow> Some s
          | Some r \<Rightarrow> Some (s\<lparr>rp_phase := RPrinting r\<rparr>))
     | RPrinting r \<Rightarrow> Some (s\<lparr>rp_phase := (case Stats (rp_proc s) of None \<Rightarrow> RPanicked | Some st \<Rightarrow> RStopping r st)\<rparr>)
     | RStopping r st \<Rightarrow>
         if stopping (rp_proc s) = Stopped then Some (s\<lparr>rp_phase := RExited r st\<rparr>)
         else map_option (\<lambda>p. s\<lparr>rp_proc := p\<rparr>) (exec StopStep (rp_proc s))
     | _ \<Rightarrow> None)"

datatype replay_act = RPool act | RMain time

text \<open>The end of \<open>main\<close> and a panic end the process.\<close>

fun process_over :: "replay_phase \<Rightarrow> bool" where
  "process_over (RFailed err) = True"
| "process_over (RExited r st) = True"
| "process_over RPanicked = True"
| "process_over _ = False"

definition replay_exec :: "replay_act \<Rightarrow> ReplayMain \<Rightarrow> ReplayMain option" where
  "replay_exec a s =
     (if crashed (rp_proc s) \<or> process_over (rp_phase s) then None
      else case a of
          RPool b \<Rightarrow> if pool_own b then map_option (\<lambda>p. s\<lparr>rp_proc := p\<rparr>) (exec b (rp_proc s)) else None
        | RMain now \<Rightarrow> replay_step now s)"

inductive replay_reachable :: "replay_flags \<Rightarrow> replay_files \<Rightarrow> ReplayMain \<Rightarrow> bool" for fl files where
  start: "replay_reachable fl files (replay_main fl files)"
| step: "replay_reachable fl files s \<Longrightarrow> replay_exec a s = Some s' \<Longrightarrow> replay_reachable fl files s'"

fun replay_run :: "replay_act list \<Rightarrow> ReplayMain \<Rightarrow> ReplayMain option" where
  "replay_run [] s = Some s"
| "replay_run (a # as) s = Option.bind (replay_exec a s) (replay_run as)"

section \<open>Invariant\<close>

text \<open>A handler that takes every message.\<close>

definition take_all :: "(replay_cause, TelemetryMessage list) handler" where
  "take_all m ms = (None, ms @ [m])"

abbreviation rest_of :: "ReplayMain \<Rightarrow> nat \<Rightarrow> TelemetryMessage list \<Rightarrow> nat \<times> replay_cause replay_error option \<times> TelemetryMessage list" where
  "rest_of s cnt ms \<equiv> replay_lines (\<lambda>_. None) take_all (rp_scanErr s) (rp_lineNum s) cnt (rp_lines s) ms"

text \<open>The result \<open>R\<close> of \<open>Replay\<close> with such a handler, as the program gets to it.\<close>

fun on_course :: "nat \<times> replay_cause replay_error option \<times> TelemetryMessage list \<Rightarrow> replay_phase \<Rightarrow> ReplayMain \<Rightarrow> bool" where
  "on_course R RReading s = (R = rest_of s (rp_count s) (rp_handled s))"
| "on_course R (RCalling i m) s = (R = rest_of s (rp_count s + 1) (rp_handled s @ [m]))"
| "on_course R (RFailed err) s = (R = (rp_count s, Some err, rp_handled s))"
| "on_course R RPanicked s = False"
| "on_course R ph s = (R = (rp_count s, None, rp_handled s))"

text \<open>The one call in progress, and what has entered the queue.\<close>

fun call_ok :: "replay_phase \<Rightarrow> call list \<Rightarrow> bool" where
  "call_ok (RCalling i m) cs = (\<exists>n. i = n \<and> length cs = Suc n \<and> take n cs = replicate n (Returned None) \<and>
     cs ! n \<in> {Blocking (Some m), Counting, Returned None})"
| "call_ok ph cs = (cs = replicate (length cs) (Returned None))"

fun entering :: "replay_phase \<Rightarrow> call list \<Rightarrow> TelemetryMessage list" where
  "entering (RCalling i m) cs = (if cs ! i = Blocking (Some m) then [] else [m])"
| "entering ph cs = []"

fun before_stop :: "replay_phase \<Rightarrow> bool" where
  "before_stop (RStopping r st) = False"
| "before_stop (RExited r st) = False"
| "before_stop ph = True"

definition replay_ok :: "replay_flags \<Rightarrow> replay_files \<Rightarrow> ReplayMain \<Rightarrow> bool" where
  "replay_ok fl files s =
     (reachable (replay_config fl) (rp_proc s) \<and> \<not> crashed (rp_proc s) \<and>
      on_course (Replay (NewPlayer (replayFile fl)) files (\<lambda>_. None) take_all []) (rp_phase s) s \<and>
      call_ok (rp_phase s) (calls (rp_proc s)) \<and>
      accepted (rp_proc s) = map Some (rp_handled s @ entering (rp_phase s) (calls (rp_proc s))) \<and>
      rp_count s = length (rp_handled s) \<and>
      (before_stop (rp_phase s) \<longrightarrow> stopping (rp_proc s) = NotStopping))"

lemma replay_ok_start: "replay_ok fl files (replay_main fl files)"
  by (auto simp: replay_ok_def replay_main_def Replay_def NewPlayer_def reachable.start split: option.split prod.split)

text \<open>A call that is over stays so; only the last call moves.\<close>

lemma returned_nth: "cs = replicate (length cs) (Returned None) \<Longrightarrow> i < length cs \<Longrightarrow> cs ! i = Returned None"
  by (metis nth_replicate)

lemma call_ok_nth:
  assumes "call_ok ph cs" and "i < length cs" and "cs ! i \<noteq> Returned None"
  obtains m where "ph = RCalling i m" "length cs = Suc i" "take i cs = replicate i (Returned None)"
    "cs ! i = Blocking (Some m) \<or> cs ! i = Counting"
proof (cases ph)
  case (RCalling n m)
  then have c: "length cs = Suc n" "take n cs = replicate n (Returned None)"
    "cs ! n \<in> {Blocking (Some m), Counting, Returned None}" using assms(1) by auto
  have "i = n"
  proof (rule ccontr)
    assume "i \<noteq> n"
    then have i: "i < n" using assms(2) c(1) by simp
    then have "cs ! i = take n cs ! i" by simp
    then show False using assms(3) i unfolding c(2) by simp
  qed
  then show thesis using that [of m] RCalling c assms(3) by auto
qed (use assms returned_nth [of cs i] in auto)

text \<open>With every call over or in the hands of \<open>main\<close>, nothing sends on a closed queue.\<close>

lemma pool_own_safe:
  assumes "exec b p = Some p'" and "pool_own b" and "inv config p" and "\<not> crashed p"
    and safe: "\<And>i. i < length (calls p) \<Longrightarrow> calls p ! i \<noteq> Returned None \<Longrightarrow> \<not> closed (p_jobs p) \<and> calls p ! i \<noteq> Trying None"
  shows "\<not> crashed p'"
proof (cases b)
  case (Proceed i)
  then have pr: "proceed i p = Some p'" using assms(1,4) by (simp add: exec.simps)
  then show ?thesis
  proof (cases rule: proceed_cases)
    case panic
    have "calls p ! i \<noteq> Returned None" using pr panic(2) by (auto simp: proceed_def)
    then show ?thesis using panic safe by blast
  qed (use assms(4) in simp_all)
next
  case (GiveUp i)
  then have "give_up i p = Some p'" using assms(1,4) by (simp add: exec.simps)
  then show ?thesis using assms(4) by (auto simp: give_up_def split: if_splits call.splits)
next
  case (Work i now)
  then have "worker_step i now p = Some p'" using assms(1,4) by (simp add: exec.simps)
  then show ?thesis
  proof (cases rule: worker_step_cases)
    case (panic w ph)
    then show ?thesis using work_total [of "p_procLatency p" "p_e2eLatency p" now ph w "p_store p"] assms(3)
      by (auto simp: inv_def pool_ok_def)
  qed (use assms(4) in simp_all)
next
  case (Quit i)
  then have "worker_quit i p = Some p'" using assms(1,4) by (simp add: exec.simps)
  then show ?thesis using assms(4) by (auto simp: worker_quit_def split: if_splits prod.splits phase.splits)
qed (use assms(2) in simp_all)

lemma running_flags:
  assumes "inv config p" and "stopping p = NotStopping"
  shows "\<not> closed (p_jobs p)" and "\<not> p_stopClosed p" and "p_isRunning p"
  using assms by (auto simp: inv_def flags_ok_def)

lemma replay_ok_pool:
  assumes ok: "replay_ok fl files s" and ex: "exec b (rp_proc s) = Some p" and own: "pool_own b"
  shows "replay_ok fl files (s\<lparr>rp_proc := p\<rparr>)"
proof -
  let ?p = "rp_proc s" and ?ph = "rp_phase s"
  have r: "reachable (replay_config fl) ?p" and live: "\<not> crashed ?p" and c: "call_ok ?ph (calls ?p)"
    and acc: "accepted ?p = map Some (rp_handled s @ entering ?ph (calls ?p))"
    and bs: "before_stop ?ph \<longrightarrow> stopping ?p = NotStopping"
    using ok by (simp_all add: replay_ok_def)
  have r': "reachable (replay_config fl) p" using r ex no_nil_own [OF own] by (rule reachable.step)
  note v = reachable_inv [OF r]
  have nn: "nonnil ?p" using v by (simp add: inv_def pool_ok_def)
  have stop: "before_stop ?ph \<longrightarrow> stopping p = NotStopping" using bs pool_own_keeps [OF ex own] by simp
  have busy: "\<exists>m. ?ph = RCalling i m \<and> length (calls ?p) = Suc i \<and> take i (calls ?p) = replicate i (Returned None) \<and>
      (calls ?p ! i = Blocking (Some m) \<or> calls ?p ! i = Counting) \<and> stopping ?p = NotStopping"
    if "i < length (calls ?p)" "calls ?p ! i \<noteq> Returned None" for i
    using call_ok_nth [OF c that] bs by (metis before_stop.simps(4))
  have "\<not> crashed p"
  proof (rule pool_own_safe [OF ex own v live])
    show "\<not> closed (p_jobs ?p) \<and> calls ?p ! i \<noteq> Trying None"
      if "i < length (calls ?p)" "calls ?p ! i \<noteq> Returned None" for i
      using busy [OF that] running_flags(1) [OF v] by auto
  qed
  moreover have "call_ok ?ph (calls p) \<and> accepted p = map Some (rp_handled s @ entering ?ph (calls p))"
    using ex nn
  proof (cases rule: calls_cases)
    case same
    then show ?thesis using c acc by simp
  next
    case (called k m)
    then show ?thesis using own by simp
  next
    case (entered i m)
    then have "calls ?p ! i \<noteq> Returned None" by auto
    then obtain m' where b: "?ph = RCalling i m'" "length (calls ?p) = Suc i" "take i (calls ?p) = replicate i (Returned None)"
      "calls ?p ! i = Blocking (Some m') \<or> calls ?p ! i = Counting" using busy [OF entered(1)] by blast
    then have "m = Some m'" "calls ?p ! i = Blocking (Some m')" using entered(2) by auto
    then show ?thesis using entered(3,4) b(1-3) acc by simp
  next
    case (refused i m)
    then show ?thesis using busy [OF refused(1)] by auto
  next
    case (counted i)
    then obtain m' where b: "?ph = RCalling i m'" "length (calls ?p) = Suc i" "take i (calls ?p) = replicate i (Returned None)"
      using busy [OF counted(1)] by auto
    then show ?thesis using counted(2-4) acc by simp
  next
    case (gave_up i m)
    then show ?thesis using busy [OF gave_up(1)] running_flags(2) [OF v] by auto
  qed
  moreover have "on_course R ?ph (s\<lparr>rp_proc := p\<rparr>) = on_course R ?ph s" for R by (cases ?ph) simp_all
  ultimately show ?thesis using ok r' stop by (simp add: replay_ok_def)
qed

text \<open>A step of \<open>main\<close>.\<close>

lemma all_returned: "call_ok ph cs \<Longrightarrow> (\<And>i m. ph \<noteq> RCalling i m) \<Longrightarrow> i < length cs \<Longrightarrow> cs ! i = Returned None"
  using call_ok_nth by blast

lemma stop_safe:
  assumes "stop_step p = Some p'" and "inv config p" and "\<not> crashed p"
  shows "\<not> crashed p' \<and> calls p' = calls p \<and> accepted p' = accepted p \<and> buf (p_jobs p') = buf (p_jobs p)"
  using assms(1)
  by (cases rule: stop_step_cases) (use assms(2,3) in \<open>auto simp: inv_def flags_ok_def\<close>)

lemma replay_ok_main:
  assumes ok: "replay_ok fl files s" and ex: "replay_step now s = Some s'"
  shows "replay_ok fl files s'"
proof -
  let ?p = "rp_proc s"
  have r: "reachable (replay_config fl) ?p" and live: "\<not> crashed ?p" and c: "call_ok (rp_phase s) (calls ?p)"
    and acc: "accepted ?p = map Some (rp_handled s @ entering (rp_phase s) (calls ?p))"
    and bs: "before_stop (rp_phase s) \<Longrightarrow> stopping ?p = NotStopping"
    using ok by (simp_all add: replay_ok_def)
  note v = reachable_inv [OF r]
  show ?thesis
  proof (cases "rp_phase s")
    case RReading
    show ?thesis
    proof (cases "rp_lines s")
      case Nil
      then show ?thesis using ok ex RReading by (auto simp: replay_ok_def replay_step_def split: option.split)
    next
      case (Cons line lines)
      show ?thesis
      proof (cases "line = []")
        case True
        then show ?thesis using ok ex RReading Cons by (auto simp: replay_ok_def replay_step_def)
      next
        case False
        show ?thesis
        proof (cases "unmarshal TelemetryMessage_fields zero_TelemetryMessage line")
          case None
          then show ?thesis using ok ex RReading Cons False by (auto simp: replay_ok_def replay_step_def)
        next
          case (Some m)
          define n where "n = length (calls ?p)"
          have run: "p_isRunning ?p" using running_flags(3) [OF v] bs RReading by simp
          let ?q = "?p\<lparr>calls := calls ?p @ [Blocking (Some m)]\<rparr>"
          have q: "exec (Call Enqueue (Some m)) ?p = Some ?q" using live run by (simp add: exec.simps)
          have s': "s' = s\<lparr>rp_proc := ?q, rp_lines := lines, rp_lineNum := rp_lineNum s + 1, rp_phase := RCalling n m\<rparr>"
            using ex RReading Cons False Some q by (simp add: replay_step_def n_def)
          have "reachable (replay_config fl) ?q" using r q by (rule reachable.step) (simp add: no_nil_def)
          moreover have "calls ?p = replicate n (Returned None)" using c RReading by (simp add: n_def)
          then have "call_ok (RCalling n m) (calls ?q)" "entering (RCalling n m) (calls ?q) = []"
            by (simp_all add: nth_append)
          ultimately show ?thesis using ok RReading Cons False Some by (simp add: replay_ok_def s' take_all_def)
        qed
      qed
    qed
  next
    case (RCalling i m)
    have cs: "length (calls ?p) = Suc i" "take i (calls ?p) = replicate i (Returned None)"
      "calls ?p ! i \<in> {Blocking (Some m), Counting, Returned None}" using c RCalling by auto
    then have ret: "calls ?p ! i = Returned None"
      and s': "s' = s\<lparr>rp_count := rp_count s + 1, rp_phase := RReading, rp_handled := rp_handled s @ [m]\<rparr>"
      using ex RCalling by (auto simp: replay_step_def)
    have "calls ?p = replicate (Suc i) (Returned None)"
      using take_Suc_conv_app_nth [of i "calls ?p"] cs(1,2) ret replicate_append_same [of i "Returned None"] by simp
    then have "calls ?p = replicate (length (calls ?p)) (Returned None)" using cs(1) by simp
    then show ?thesis using ok RCalling ret by (simp add: replay_ok_def s')
  next
    case (RWaiting deadline)
    then show ?thesis using ok ex by (auto simp: replay_ok_def replay_step_def split: if_splits)
  next
    case (RPrinting res)
    then obtain st where "Stats ?p = Some st" using Stats_running [OF r] by blast
    then show ?thesis using ok ex RPrinting by (auto simp: replay_ok_def replay_step_def)
  next
    case (RStopping res st)
    show ?thesis
    proof (cases "stopping ?p = Stopped")
      case True
      then show ?thesis using ok ex RStopping by (auto simp: replay_ok_def replay_step_def)
    next
      case False
      then obtain p where p: "exec StopStep ?p = Some p" "s' = s\<lparr>rp_proc := p\<rparr>"
        using ex RStopping by (auto simp: replay_step_def)
      have "reachable (replay_config fl) p" using r p(1) by (rule reachable.step) (simp add: no_nil_def)
      moreover have "stop_step ?p = Some p" using p(1) live by (simp add: exec.simps)
      ultimately show ?thesis using stop_safe [OF _ v live] ok RStopping p(2) by (simp add: replay_ok_def)
    qed
  qed (use ex in \<open>simp_all add: replay_step_def\<close>)
qed

lemma replay_reachable_ok: "replay_reachable fl files s \<Longrightarrow> replay_ok fl files s"
proof (induction rule: replay_reachable.induct)
  case start
  then show ?case by (rule replay_ok_start)
next
  case (step s a s')
  show ?case
  proof (cases a)
    case (RPool b)
    then show ?thesis using step replay_ok_pool [OF step.IH] by (auto simp: replay_exec_def split: if_splits)
  next
    case (RMain now)
    then show ?thesis using step replay_ok_main [OF step.IH] by (auto simp: replay_exec_def split: if_splits)
  qed
qed

text \<open>What the end of the wait and the printed statistics say.\<close>

fun drained :: "replay_phase \<Rightarrow> bool" where
  "drained (RPrinting r) = (r = WaitOk)"
| "drained (RStopping r st) = (r = WaitOk)"
| "drained (RExited r st) = (r = WaitOk)"
| "drained ph = False"

fun printed :: "replay_phase \<Rightarrow> ProcessorStats option" where
  "printed (RStopping r st) = Some st"
| "printed (RExited r st) = Some st"
| "printed ph = None"

definition report_ok :: "ReplayMain \<Rightarrow> bool" where
  "report_ok s = ((drained (rp_phase s) \<longrightarrow> buf (p_jobs (rp_proc s)) = []) \<and>
     (\<forall>st. printed (rp_phase s) = Some st \<longrightarrow> ps_TotalMessagesEnqueued st = of_nat (rp_count s) \<and>
        (drained (rp_phase s) \<longrightarrow> ps_QueueDepth st = 0)))"

lemma buf_stays_empty:
  assumes "exec b p = Some p'" and "nonnil p" and "buf (p_jobs p) = []" and "accepted p' = accepted p"
  shows "buf (p_jobs p') = []"
  using assms(1,2)
proof (cases rule: exec_cases)
  case stop
  then show ?thesis using assms(3) by (cases rule: stop_step_cases) simp_all
qed (use assms(3,4) in simp_all)

lemma returned_counts:
  assumes "inv config p" and "calls p = replicate (length (calls p)) (Returned None)"
  shows "p_enqueued p = of_nat (length (accepted p))"
proof -
  have "Counting \<notin> set (calls p)" by (subst assms(2)) simp
  from no_counting [OF this] show ?thesis using assms(1) by (simp add: inv_def count_ok_def)
qed

lemma report_ok_step:
  assumes rep: "report_ok s" and ok: "replay_ok fl files s" and ok': "replay_ok fl files s'" and ex: "replay_exec a s = Some s'"
  shows "report_ok s'"
proof (cases a)
  case (RPool b)
  then obtain p where p: "exec b (rp_proc s) = Some p" "s' = s\<lparr>rp_proc := p\<rparr>"
    using ex by (auto simp: replay_exec_def split: if_splits)
  have nn: "nonnil (rp_proc s)" using ok reachable_inv by (auto simp: replay_ok_def inv_def pool_ok_def)
  have "accepted p = accepted (rp_proc s)" if "drained (rp_phase s)"
  proof -
    have "entering (rp_phase s) cs = []" for cs using that by (cases "rp_phase s") simp_all
    then show ?thesis using ok ok' p(2) by (simp add: replay_ok_def)
  qed
  then show ?thesis using rep buf_stays_empty [OF p(1) nn] p(2) by (simp add: report_ok_def)
next
  case (RMain now)
  then have st: "replay_step now s = Some s'" using ex by (simp add: replay_exec_def split: if_splits)
  have v: "inv (replay_config fl) (rp_proc s)" and live: "\<not> crashed (rp_proc s)"
    and acc: "accepted (rp_proc s) = map Some (rp_handled s @ entering (rp_phase s) (calls (rp_proc s)))"
    and c: "call_ok (rp_phase s) (calls (rp_proc s))" "rp_count s = length (rp_handled s)"
    using ok reachable_inv by (auto simp: replay_ok_def)
  show ?thesis
  proof (cases "rp_phase s")
    case RReading
    then show ?thesis using st
      by (auto simp: replay_step_def report_ok_def split: list.splits if_splits option.splits)
  next
    case (RCalling i m)
    then show ?thesis using st by (auto simp: replay_step_def report_ok_def split: call.splits option.splits)
  next
    case (RWaiting deadline)
    then show ?thesis using st by (auto simp: replay_step_def report_ok_def split: if_splits)
  next
    case (RPrinting r)
    have e: "p_enqueued (rp_proc s) = of_nat (rp_count s)"
      using returned_counts [OF v] c acc RPrinting by simp
    show ?thesis
    proof (cases "Stats (rp_proc s)")
      case None
      then show ?thesis using st RPrinting by (auto simp: replay_step_def report_ok_def)
    next
      case (Some x)
      then have "ps_TotalMessagesEnqueued x = of_nat (rp_count s)" using e Stats_totals(7) [OF Some] by simp
      then show ?thesis using st RPrinting Some rep by (auto simp: replay_step_def report_ok_def Stats_totals(8))
    qed
  next
    case (RStopping r x)
    show ?thesis
    proof (cases "stopping (rp_proc s) = Stopped")
      case True
      then show ?thesis using st RStopping rep by (auto simp: replay_step_def report_ok_def)
    next
      case False
      then obtain p where p: "exec StopStep (rp_proc s) = Some p" "s' = s\<lparr>rp_proc := p\<rparr>"
        using st RStopping by (auto simp: replay_step_def)
      then have "stop_step (rp_proc s) = Some p" using live by (simp add: exec.simps)
      then show ?thesis using stop_safe [OF _ v live] rep p(2) by (simp add: report_ok_def)
    qed
  qed (use st in \<open>simp_all add: replay_step_def\<close>)
qed

lemma replay_reachable_report: "replay_reachable fl files s \<Longrightarrow> report_ok s"
proof (induction rule: replay_reachable.induct)
  case start
  then show ?case by (simp add: report_ok_def replay_main_def split: option.split prod.split)
next
  case (step s a s')
  then show ?case using report_ok_step [OF step.IH _ _ step.hyps(2)] replay_reachable_ok replay_reachable.step by blast
qed

section \<open>Properties\<close>

fun feeding :: "replay_phase \<Rightarrow> bool" where
  "feeding RReading = True"
| "feeding (RCalling i m) = True"
| "feeding ph = False"

lemma replay_lines_extends:
  "\<exists>rest. snd (snd (replay_lines ctx take_all err n c ls ms)) = ms @ rest"
proof (induction ls arbitrary: n c ms)
  case (Cons l ls)
  have more: "\<exists>rest. snd (snd (replay_lines ctx take_all err (n + 1) (c + 1) ls (ms @ [m]))) = ms @ rest" for m
    using Cons.IH [of "n + 1" "c + 1" "ms @ [m]"] by auto
  have "take_all m ms = (None, ms @ [m])" for m by (simp add: take_all_def)
  then show ?case using more Cons.IH [of "n + 1" c ms]
    by (cases "unmarshal TelemetryMessage_fields zero_TelemetryMessage l") (simp_all split: option.split)
qed simp

text \<open>
  Property C26. The replay program feeds the processor exactly what the player reads from the file,
  under every interleaving with the workers: at any moment the messages enqueued are a prefix of those
  \<open>Replay\<close> hands to a handler that never fails, in file order; once \<open>main\<close> is past feeding, they are all of
  them, the count is the one \<open>Replay\<close> returns, and the program has exited with an error exactly when
  \<open>Replay\<close> reports one, the same one. No \<open>Enqueue\<close> fails and nothing panics.
\<close>

theorem replay_program_follows_player:
  assumes "replay_reachable fl files s"
    and "Replay (NewPlayer (replayFile fl)) files (\<lambda>_. None) take_all [] = (n, err, ms)"
  shows "(\<exists>rest. map Some ms = accepted (rp_proc s) @ rest) \<and>
    (\<not> feeding (rp_phase s) \<longrightarrow> accepted (rp_proc s) = map Some ms \<and> rp_count s = n \<and>
       (case err of None \<Rightarrow> \<forall>e. rp_phase s \<noteq> RFailed e | Some e \<Rightarrow> rp_phase s = RFailed e)) \<and>
    \<not> crashed (rp_proc s) \<and> rp_phase s \<noteq> RPanicked"
proof -
  have ok: "on_course (n, err, ms) (rp_phase s) s" "\<not> crashed (rp_proc s)"
    "accepted (rp_proc s) = map Some (rp_handled s @ entering (rp_phase s) (calls (rp_proc s)))"
    using replay_reachable_ok [OF assms(1)] assms(2) by (simp_all add: replay_ok_def)
  have ext: "rest_of s c xs = (n, err, ms) \<Longrightarrow> \<exists>rest. ms = xs @ rest" for c xs
    using replay_lines_extends [of "\<lambda>_. None" "rp_scanErr s" "rp_lineNum s" c "rp_lines s" xs] by simp
  show ?thesis
  proof (cases "rp_phase s")
    case RReading
    then show ?thesis using ok ext [of "rp_count s" "rp_handled s"] by auto
  next
    case (RCalling i m)
    then obtain rest where "ms = (rp_handled s @ [m]) @ rest"
      using ok(1) ext [of "rp_count s + 1" "rp_handled s @ [m]"] by auto
    then show ?thesis using ok(2,3) RCalling by auto
  qed (use ok in auto)
qed

text \<open>A file with one message and a broken line.\<close>

definition broken_file :: replay_files where
  "broken_file = [''events.jsonl'' \<mapsto> (join_lines [sample_line, ''{oops''], None)]"

definition broken_run :: "replay_act list" where
  "broken_run = [RMain 0, RPool (Proceed 0), RPool (Proceed 0), RMain 0, RMain 0]"

lemma replay_run_reachable: "replay_run as s = Some s' \<Longrightarrow> replay_reachable fl files s \<Longrightarrow> replay_reachable fl files s'"
  by (induction as arbitrary: s) (auto intro: replay_reachable.step split: bind_splits)

lemma scan_broken:
  "scan_lines maxLineSize (join_lines [sample_line, ''{oops'']) = ([sample_line, ''{oops''], False)"
  using scan_join_lines [of "[sample_line, ''{oops'']" maxLineSize] sample_line_short
  by (simp add: drop_cr_def maxLineSize_def)

lemma broken_main: "replay_main default_replay_flags broken_file =
  \<lparr>rp_proc = started (replay_config default_replay_flags), rp_lines = [sample_line, ''{oops''], rp_lineNum = 0,
   rp_count = 0, rp_scanErr = None, rp_phase = RReading, rp_handled = []\<rparr>"
  by (simp add: replay_main_def broken_file_def default_replay_flags_def NewPlayer_def scan_broken scan_error_def)

lemma broken_evals:
  "\<exists>s. replay_run broken_run (replay_main default_replay_flags broken_file) = Some s \<and>
     rp_phase s = RFailed (ParseLine 2) \<and> rp_count s = 1"
proof -
  have "sample_line \<noteq> []" by (simp add: sample_line_def)
  moreover have "0 < nat (queueSize default_replay_flags)" "\<not> queueSize default_replay_flags \<le> 0"
    by (simp_all add: default_replay_flags_def)
  ultimately show ?thesis
    unfolding broken_main broken_run_def
    by (simp add: replay_exec_def replay_step_def sample_line_parses broken_line_fails exec.simps proceed_def chan_send_def
        replay_config_def NewProcessor_def Let_def)
qed

theorem replay_program_follows_player_witness:
  "\<exists>s. replay_reachable default_replay_flags broken_file s \<and> rp_phase s = RFailed (ParseLine 2) \<and>
     accepted (rp_proc s) = [Some sample_parsed]"
proof -
  obtain s where s: "replay_run broken_run (replay_main default_replay_flags broken_file) = Some s"
    "rp_phase s = RFailed (ParseLine 2)" using broken_evals by blast
  have r: "replay_reachable default_replay_flags broken_file s"
    by (rule replay_run_reachable [OF s(1) replay_reachable.start])
  have "Replay (NewPlayer (replayFile default_replay_flags)) broken_file (\<lambda>_. None) take_all [] =
      (1, Some (ParseLine 2), [sample_parsed])"
    using sample_line_parses broken_line_fails
    by (simp add: Replay_def NewPlayer_def broken_file_def default_replay_flags_def scan_broken scan_error_def take_all_def)
      (simp add: sample_line_def)
  from replay_program_follows_player [OF r this] s(2) r show ?thesis by (intro exI [of _ s]) simp
qed

lemma hands_le_workers: "length (hands p) \<le> length (p_workers p)"
proof -
  have one: "length (in_hand ph) \<le> 1" for ph by (cases ph) simp_all
  have "length (concat (map (in_hand \<circ> snd) ws)) \<le> length ws" for ws :: "(Worker \<times> phase) list"
  proof (induction ws)
    case (Cons x ws)
    then show ?case using one [of "snd x"] by simp
  qed simp
  then show ?thesis by (simp add: hands_def)
qed

text \<open>
  Property C28. What the statistics of a replay are worth: they print as enqueued the number of messages
  replayed, and each of these is then in the store, in the hands of one of the workers or still in
  the queue. After a wait that reported success the queue is empty and stays so, and is printed as
  empty: every replayed message is in the store or in the hands of a worker, so that at most as many
  as there are workers are missing from the store.
\<close>

theorem replay_report:
  assumes "replay_reachable fl files s" and "printed (rp_phase s) = Some st"
  shows "ps_TotalMessagesEnqueued st = of_nat (rp_count s) \<and> rp_count s = length (rp_handled s) \<and>
    image_mset Some (mset (rp_handled s)) =
      mset (buf (p_jobs (rp_proc s))) + image_mset Some (mset (hands (rp_proc s)) + mset (updates (ops (rp_proc s)))) \<and>
    length (hands (rp_proc s)) \<le> length (p_workers (rp_proc s)) \<and>
    (drained (rp_phase s) \<longrightarrow> buf (p_jobs (rp_proc s)) = [] \<and> ps_QueueDepth st = 0 \<and>
       mset (rp_handled s) = mset (hands (rp_proc s)) + mset (updates (ops (rp_proc s))) \<and>
       rp_count s \<le> length (updates (ops (rp_proc s))) + length (p_workers (rp_proc s)))"
proof -
  note ok = replay_reachable_ok [OF assms(1)] and rep = replay_reachable_report [OF assms(1)]
  have v: "inv (replay_config fl) (rp_proc s)" using ok reachable_inv by (auto simp: replay_ok_def)
  have "entering (rp_phase s) cs = []" for cs using assms(2) by (cases "rp_phase s") simp_all
  then have acc: "accepted (rp_proc s) = map Some (rp_handled s)" using ok by (simp add: replay_ok_def)
  then have flow: "image_mset Some (mset (rp_handled s)) =
      mset (buf (p_jobs (rp_proc s))) + image_mset Some (mset (hands (rp_proc s)) + mset (updates (ops (rp_proc s))))"
    using v by (simp add: inv_def flow_ok_def)
  have cnt: "rp_count s = length (rp_handled s)" using ok by (simp add: replay_ok_def)
  then have "rp_count s = length (buf (p_jobs (rp_proc s))) + length (hands (rp_proc s)) + length (updates (ops (rp_proc s)))"
    using flow_length [OF v] acc by simp
  then have "rp_count s \<le> length (updates (ops (rp_proc s))) + length (p_workers (rp_proc s))" if "drained (rp_phase s)"
    using rep that hands_le_workers [of "rp_proc s"] by (simp add: report_ok_def)
  moreover have "mset (rp_handled s) = mset (hands (rp_proc s)) + mset (updates (ops (rp_proc s)))" if "drained (rp_phase s)"
  proof -
    have "image_mset Some (mset (rp_handled s)) =
        image_mset Some (mset (hands (rp_proc s)) + mset (updates (ops (rp_proc s))))"
      using flow rep that by (simp add: report_ok_def)
    then have "image_mset the (image_mset Some (mset (rp_handled s))) =
        image_mset the (image_mset Some (mset (hands (rp_proc s)) + mset (updates (ops (rp_proc s)))))" by simp
    then show ?thesis by (simp add: multiset.map_comp comp_def)
  qed
  ultimately show ?thesis using rep assms(2) flow cnt hands_le_workers by (simp add: report_ok_def)
qed

text \<open>A file with one message, replayed while the workers are slow.\<close>

definition one_file :: replay_files where
  "one_file = [''events.jsonl'' \<mapsto> (join_lines [sample_line], None)]"

definition slow_run :: "replay_act list" where
  "slow_run = [RMain 0, RPool (Proceed 0), RPool (Proceed 0), RMain 0, RMain 0, RPool (Work 0 5), RMain 1, RMain 2]"

lemma one_main: "replay_main default_replay_flags one_file =
  \<lparr>rp_proc = started (replay_config default_replay_flags), rp_lines = [sample_line], rp_lineNum = 0,
   rp_count = 0, rp_scanErr = None, rp_phase = RReading, rp_handled = []\<rparr>"
  using scan_join_lines [of "[sample_line]" maxLineSize] sample_line_short
  by (simp add: replay_main_def one_file_def default_replay_flags_def NewPlayer_def scan_error_def)

lemma slow_evals:
  "\<exists>s st. replay_run slow_run (replay_main default_replay_flags one_file) = Some s \<and>
     rp_phase s = RStopping WaitOk st \<and> rp_count s = 1 \<and> updates (ops (rp_proc s)) = []"
proof -
  have "sample_line \<noteq> []" by (simp add: sample_line_def)
  then show ?thesis
    unfolding one_main slow_run_def
    by (simp add: replay_exec_def replay_step_def sample_line_parses exec.simps proceed_def chan_send_def worker_step_def
        chan_recv_def replay_config_def NewProcessor_def Let_def default_replay_flags_def eval_nat_numeral upt_conv_Cons
        Stats_def TakeSnapshot_empty)
qed

theorem replay_report_witness:
  "\<exists>s st. replay_reachable default_replay_flags one_file s \<and> rp_phase s = RStopping WaitOk st \<and>
     ps_TotalMessagesEnqueued st = 1 \<and> ps_QueueDepth st = 0 \<and> updates (ops (rp_proc s)) = [] \<and>
     mset (rp_handled s) = mset (hands (rp_proc s))"
proof -
  obtain s st where s: "replay_run slow_run (replay_main default_replay_flags one_file) = Some s"
    "rp_phase s = RStopping WaitOk st" "rp_count s = 1" "updates (ops (rp_proc s)) = []" using slow_evals by blast
  have r: "replay_reachable default_replay_flags one_file s"
    by (rule replay_run_reachable [OF s(1) replay_reachable.start])
  have "printed (rp_phase s) = Some st" using s(2) by simp
  from replay_report [OF r this] have "ps_TotalMessagesEnqueued st = 1" "ps_QueueDepth st = 0"
    "mset (rp_handled s) = mset (hands (rp_proc s))" using s(2-4) by simp_all
  with r s show ?thesis by blast
qed

section \<open>Termination\<close>

fun phase_rank :: "replay_phase \<Rightarrow> nat" where
  "phase_rank (RCalling i m) = 5" | "phase_rank RReading = 4" | "phase_rank (RWaiting d) = 3" | "phase_rank (RPrinting r) = 2"
| "phase_rank (RStopping r st) = 1" | "phase_rank ph = 0"

fun call_rank :: "call \<Rightarrow> nat" where
  "call_rank (Blocking m) = 11" | "call_rank (Trying m) = 11" | "call_rank Counting = 1" | "call_rank (Returned r) = 0"

fun stop_rank :: "stop_phase \<Rightarrow> nat" where
  "stop_rank NotStopping = 5" | "stop_rank StopChecked = 4" | "stop_rank StopCleared = 3" | "stop_rank StopSignalled = 2"
| "stop_rank JobsClosed = 1" | "stop_rank Stopped = 0"

definition pool_rank :: "system \<Rightarrow> nat" where
  "pool_rank p = work_left p + sum_list (map call_rank (calls p)) + stop_rank (stopping p)"

definition replay_rank :: "ReplayMain \<Rightarrow> nat" where
  "replay_rank s = 13 * length (rp_lines s) + phase_rank (rp_phase s) + pool_rank (rp_proc s)"

lemma pool_rank_own:
  assumes ex: "exec b p = Some p'" and own: "pool_own b" and v: "inv config p" and live: "\<not> crashed p'"
  shows "pool_rank p' < pool_rank p"
proof -
  have l: "\<not> crashed p" using ex by (simp add: exec.simps split: if_splits)
  have stop: "stopping p' = stopping p" using pool_own_keeps [OF ex own] by simp
  have upd: "sum_list (map call_rank ((calls p)[i := c])) + call_rank (calls p ! i) = sum_list (map call_rank (calls p)) + call_rank c"
    if "i < length (calls p)" for i c using that by (rule sum_list_update_nat)
  show ?thesis
  proof (cases b)
    case (Proceed i)
    then have "proceed i p = Some p'" using ex l by (simp add: exec.simps)
    then show ?thesis
    proof (cases rule: proceed_cases)
      case (send m)
      have "call_rank (calls p ! i) = 11" using send(2) by auto
      then show ?thesis using upd [OF send(1), of Counting] send(5) by (simp add: pool_rank_def work_left_def)
    next
      case (reject m)
      then show ?thesis using upd [OF reject(1), of "Returned (Some QueueFull)"] by (simp add: pool_rank_def work_left_def)
    next
      case count
      then show ?thesis using upd [OF count(1), of "Returned None"] by (simp add: pool_rank_def work_left_def)
    qed (use live in simp)
  next
    case (GiveUp i)
    then have "give_up i p = Some p'" using ex l by (simp add: exec.simps)
    then obtain m where g: "i < length (calls p)" "calls p ! i = Blocking m"
      "p' = p\<lparr>calls := (calls p)[i := Returned (Some Stopping)]\<rparr>"
      by (auto simp: give_up_def split: if_splits call.splits)
    then show ?thesis using upd [OF g(1), of "Returned (Some Stopping)"] by (simp add: pool_rank_def work_left_def)
  next
    case (Work i now)
    then have "worker_act b" "\<not> touches_calls b" by (simp_all add: worker_act_def)
    then show ?thesis using worker_act_progress(1) [OF ex _ v] keeps_calls [OF ex] stop by (simp add: pool_rank_def)
  next
    case (Quit i)
    then have "worker_act b" "\<not> touches_calls b" by (simp_all add: worker_act_def)
    then show ?thesis using worker_act_progress(1) [OF ex _ v] keeps_calls [OF ex] stop by (simp add: pool_rank_def)
  qed (use own in simp_all)
qed

lemma pool_rank_stop:
  assumes "stop_step p = Some p'" and "\<not> crashed p'"
  shows "pool_rank p' < pool_rank p"
  using assms(1) by (cases rule: stop_step_cases) (use assms(2) in \<open>simp_all add: pool_rank_def work_left_def\<close>)

lemma replay_rank_step:
  assumes r: "replay_reachable fl files s" and ex: "replay_exec a s = Some s'"
  shows "s' = s \<and> (\<exists>d. rp_phase s = RWaiting d) \<or> replay_rank s' < replay_rank s"
proof -
  have ok: "replay_ok fl files s" and ok': "replay_ok fl files s'"
    using r replay_reachable.step [OF r ex] replay_reachable_ok by blast+
  have v: "inv (replay_config fl) (rp_proc s)" and live: "\<not> crashed (rp_proc s)" "\<not> crashed (rp_proc s')"
    using ok ok' reachable_inv by (auto simp: replay_ok_def)
  show ?thesis
  proof (cases a)
    case (RPool b)
    then obtain p where p: "exec b (rp_proc s) = Some p" "pool_own b" "s' = s\<lparr>rp_proc := p\<rparr>"
      using ex by (auto simp: replay_exec_def split: if_splits)
    then show ?thesis using pool_rank_own [OF p(1,2) v] live(2) by (simp add: replay_rank_def)
  next
    case (RMain now)
    then have st: "replay_step now s = Some s'" using ex by (simp add: replay_exec_def split: if_splits)
    show ?thesis
    proof (cases "rp_phase s")
      case RReading
      then show ?thesis using st live(1)
        by (auto simp: replay_step_def replay_rank_def pool_rank_def work_left_def exec.simps split: list.splits if_splits option.splits)
    next
      case (RCalling i m)
      then show ?thesis using st by (auto simp: replay_step_def replay_rank_def split: call.splits option.splits)
    next
      case (RWaiting d)
      then show ?thesis using st by (auto simp: replay_step_def replay_rank_def split: if_splits)
    next
      case (RPrinting res)
      then show ?thesis using st by (auto simp: replay_step_def replay_rank_def split: option.splits)
    next
      case (RStopping res x)
      show ?thesis
      proof (cases "stopping (rp_proc s) = Stopped")
        case True
        then show ?thesis using st RStopping by (auto simp: replay_step_def replay_rank_def)
      next
        case False
        then obtain p where p: "exec StopStep (rp_proc s) = Some p" "s' = s\<lparr>rp_proc := p\<rparr>"
          using st RStopping by (auto simp: replay_step_def)
        then have "stop_step (rp_proc s) = Some p" using live(1) by (simp add: exec.simps)
        then show ?thesis using pool_rank_stop live(2) p(2) by (simp add: replay_rank_def)
      qed
    qed (use st in \<open>simp_all add: replay_step_def\<close>)
  qed
qed

text \<open>Some worker can take a step when there is work, or when the queue has been closed.\<close>

lemma worker_ready:
  assumes "inv config p" and "\<not> crashed p" and "i < length (p_workers p)" and "snd (p_workers p ! i) \<noteq> Exited"
    and "buf (p_jobs p) \<noteq> [] \<or> closed (p_jobs p)"
  shows "\<exists>now. exec (Work i now) p \<noteq> None"
  using worker_stuck [OF _ assms(2) _ assms(3)] assms(1,4,5) unfolding inv_def pool_ok_def by blast

lemma replay_not_stuck:
  assumes r: "replay_reachable fl files s" and go: "\<not> process_over (rp_phase s)"
  shows "\<exists>a. replay_exec a s \<noteq> None"
proof -
  let ?p = "rp_proc s"
  have ok: "reachable (replay_config fl) ?p" "\<not> crashed ?p" "call_ok (rp_phase s) (calls ?p)"
    "before_stop (rp_phase s) \<Longrightarrow> stopping ?p = NotStopping"
    using replay_reachable_ok [OF r] by (simp_all add: replay_ok_def)
  note v = reachable_inv [OF ok(1)]
  have main: "\<exists>a. replay_exec a s \<noteq> None" if "replay_step now s \<noteq> None" for now
    using that ok(2) go by (intro exI [of _ "RMain now"]) (simp add: replay_exec_def)
  have pool: "\<exists>a. replay_exec a s \<noteq> None" if "exec b ?p \<noteq> None" "pool_own b" for b
    using that ok(2) go by (intro exI [of _ "RPool b"]) (simp add: replay_exec_def)
  show ?thesis
  proof (cases "rp_phase s")
    case RReading
    then show ?thesis using ok(2) main [of 0]
      by (auto simp: replay_step_def exec.simps split: list.splits option.splits)
  next
    case (RCalling i m)
    then have c: "i < length (calls ?p)" "calls ?p ! i \<in> {Blocking (Some m), Counting, Returned None}" using ok(3) by auto
    have run: "stopping ?p = NotStopping" using ok(4) RCalling by simp
    consider "calls ?p ! i = Returned None" | "calls ?p ! i = Counting" | "calls ?p ! i = Blocking (Some m)" using c(2) by blast
    then show ?thesis
    proof cases
      case 1
      then show ?thesis using main [of 0] RCalling by (simp add: replay_step_def)
    next
      case 2
      then show ?thesis using pool [of "Proceed i"] c(1) ok(2) by (simp add: exec.simps proceed_def)
    next
      case 3
      show ?thesis
      proof (cases "length (buf (p_jobs ?p)) < chan_cap (p_jobs ?p)")
        case True
        then show ?thesis using 3 pool [of "Proceed i"] c(1) ok(2) running_flags(1) [OF v run]
          by (simp add: exec.simps proceed_def chan_send_def)
      next
        case False
        have "0 < chan_cap (p_jobs ?p)" using v
          by (auto simp: inv_def sizes_ok_def NewProcessor_def Let_def)
        then have "buf (p_jobs ?p) \<noteq> []" using False by auto
        moreover have "snd (p_workers ?p ! 0) \<noteq> Exited"
          using v run nth_mem [OF worker_count(1) [OF ok(1)]] by (fastforce simp: inv_def flags_ok_def)
        ultimately show ?thesis using worker_ready [OF v ok(2) worker_count(1) [OF ok(1)]] pool by fastforce
      qed
    qed
  next
    case (RStopping res x)
    show ?thesis
    proof (cases "stopping ?p = JobsClosed \<and> \<not> list_all (\<lambda>(w, ph). ph = Exited) (p_workers ?p)")
      case True
      then obtain i where "i < length (p_workers ?p)" "snd (p_workers ?p ! i) \<noteq> Exited"
        by (auto simp: list_all_length case_prod_unfold)
      moreover have "closed (p_jobs ?p)" using True v by (simp add: inv_def flags_ok_def)
      ultimately show ?thesis using worker_ready [OF v ok(2)] pool by fastforce
    next
      case False
      then have "replay_step 0 s \<noteq> None" using RStopping ok(2)
        by (cases "stopping ?p") (auto simp: replay_step_def exec.simps stop_step_def)
      then show ?thesis by (rule main)
    qed
  qed (use go main [of 0] in \<open>auto simp: replay_step_def split: option.splits\<close>)
qed

text \<open>
  Property C27. The replay program ends. Under every interleaving it takes at most \<open>replay_rank\<close> steps, of
  whichever goroutine, besides the polling rounds of \<open>WaitForQuiescence\<close> that find the queue non-empty
  before the deadline and change nothing; and until \<open>main\<close> has returned or exited some goroutine can take
  a step, so there is no deadlock: a full queue always has a worker to drain it, and \<open>Stop\<close> always gets
  its workers back.
\<close>

theorem replay_program_ends:
  assumes "replay_reachable fl files s"
  shows "(\<forall>a s'. replay_exec a s = Some s' \<longrightarrow>
      replay_rank s' < replay_rank s \<or>
      s' = s \<and> (\<exists>d now. a = RMain now \<and> rp_phase s = RWaiting d \<and> \<not> After now d \<and> buf (p_jobs (rp_proc s)) \<noteq> [])) \<and>
    (\<not> process_over (rp_phase s) \<longrightarrow> (\<exists>a. replay_exec a s \<noteq> None))"
proof (intro conjI allI impI)
  fix a s' assume ex: "replay_exec a s = Some s'"
  show "replay_rank s' < replay_rank s \<or>
      s' = s \<and> (\<exists>d now. a = RMain now \<and> rp_phase s = RWaiting d \<and> \<not> After now d \<and> buf (p_jobs (rp_proc s)) \<noteq> [])"
  proof (cases "replay_rank s' < replay_rank s")
    case False
    then obtain d where d: "s' = s" "rp_phase s = RWaiting d" using replay_rank_step [OF assms ex] by blast
    show ?thesis
    proof (cases a)
      case (RPool b)
      then obtain p where p: "exec b (rp_proc s) = Some p" "pool_own b" "s' = s\<lparr>rp_proc := p\<rparr>"
        using ex by (auto simp: replay_exec_def split: if_splits)
      have ok: "replay_ok fl files s" "replay_ok fl files s'"
        using assms replay_reachable.step [OF assms ex] replay_reachable_ok by blast+
      then have "pool_rank p < pool_rank (rp_proc s)"
        using pool_rank_own [OF p(1,2)] reachable_inv p(3) by (auto simp: replay_ok_def)
      then show ?thesis using False p(3) by (simp add: replay_rank_def)
    next
      case (RMain now)
      then have "replay_step now s = Some s" using ex d(1) by (simp add: replay_exec_def split: if_splits)
      moreover have "s\<lparr>rp_phase := RPrinting x\<rparr> \<noteq> s" for x
        using d(2) by (metis ReplayMain.select_convs(6) ReplayMain.surjective ReplayMain.update_convs(6) replay_phase.distinct)
      ultimately have "\<not> After now d \<and> buf (p_jobs (rp_proc s)) \<noteq> []"
        using d(2) by (auto simp: replay_step_def split: if_splits)
      then show ?thesis using d RMain by blast
    qed
  qed blast
next
  assume "\<not> process_over (rp_phase s)"
  then show "\<exists>a. replay_exec a s \<noteq> None" using replay_not_stuck [OF assms] by blast
qed

theorem replay_program_ends_witness:
  "\<exists>a. replay_exec a (replay_main default_replay_flags one_file) \<noteq> None"
proof -
  have "\<not> process_over (rp_phase (replay_main default_replay_flags one_file))" by (simp add: one_main)
  then show ?thesis using replay_program_ends [OF replay_reachable.start] by blast
qed

end
