(* ===== verification/Generator.thy ===== *)
theory Generator
  imports Protocol
begin

text \<open>
  internal/simulator/generator.go: the four sensor generators. A random source is an argument of
  the call that uses it: \<open>u i\<close> is the \<open>i\<close>-th result of \<open>Float64\<close> in the call and \<open>k n\<close> that of
  \<open>Intn(n)\<close>, of which the library promises the ranges \<open>draws_ok\<close>. How a payload is encoded
  is a parameter: \<open>enc\<close> gives the result of \<open>json.Marshal\<close>, whose error the code ignores.
\<close>

section \<open>Random draws and constants\<close>

type_synonym draws = "(nat \<Rightarrow> float64) \<times> (goint \<Rightarrow> goint)"

definition draws_ok :: "draws \<Rightarrow> bool" where
  "draws_ok d = ((\<forall>i. in_range 0 1 (fst d i) \<and> fst d i \<noteq> Fin 1) \<and> (\<forall>n>0. 0 \<le> snd d n \<and> snd d n < n))"

text \<open>A decimal constant, rounded by the compiler.\<close>

abbreviation const :: "rat \<Rightarrow> float64" where "const q \<equiv> round64 q"

text \<open>\<open>(r - 0.5) * c\<close>, a step of a random walk; and \<open>math.Max(lo, math.Min(hi, x))\<close>.\<close>

definition wobble :: "float64 \<Rightarrow> float64 \<Rightarrow> float64" where
  "wobble r c = fmul (fsub r (const (1 / 2))) c"

definition clamp :: "rat \<Rightarrow> rat \<Rightarrow> float64 \<Rightarrow> float64" where
  "clamp lo hi x = fmax (const lo) (fmin (const hi) x)"

text \<open>A message around an encoded payload.\<close>

definition telemetry :: "('d \<Rightarrow> bytes option) \<Rightarrow> bytes \<Rightarrow> bytes \<Rightarrow> u64 \<Rightarrow> time \<Rightarrow> 'd \<Rightarrow> TelemetryMessage" where
  "telemetry enc sid ty sequ now data =
     \<lparr>SensorID = sid, SensorType = ty, Sequence = sequ, Timestamp = now,
      Data = (case enc data of Some b \<Rightarrow> b | None \<Rightarrow> [])\<rparr>"

section \<open>GPS trackers\<close>

record GPSSensorGenerator =
  gps_id :: bytes
  gps_sequence :: u64
  gps_lat :: float64
  gps_lon :: float64
  gps_alt :: float64
  gps_speed :: float64
  gps_heading :: float64
  gps_seed :: goint

definition NewGPSSensorGenerator :: "bytes \<Rightarrow> goint \<Rightarrow> draws \<Rightarrow> GPSSensorGenerator" where
  "NewGPSSensorGenerator sid seed d =
     (let u = fst d in
      \<lparr>gps_id = sid, gps_sequence = 0,
       gps_lat = fadd (const (476 / 10)) (wobble (u 0) (const (2 / 10))),
       gps_lon = fadd (const (- 1223 / 10)) (wobble (u 1) (const (2 / 10))),
       gps_alt = fmul (u 2) (const 500), gps_speed = fmul (u 3) (const 100),
       gps_heading = fmul (u 4) (const 360), gps_seed = seed\<rparr>)"

definition GPS_Data :: "draws \<Rightarrow> GPSSensorGenerator \<Rightarrow> GPSSensorGenerator \<times> GPSData" where
  "GPS_Data d g =
     (let u = fst d;
          lat = fadd (gps_lat g) (wobble (u 0) (const (1 / 1000)));
          lon = fadd (gps_lon g) (wobble (u 1) (const (1 / 1000)));
          alt = fadd (gps_alt g) (wobble (u 2) (const 10));
          speed = fadd (gps_speed g) (wobble (u 3) (const 5));
          heading = fadd (gps_heading g) (wobble (u 4) (const 10));
          g' = g\<lparr>gps_sequence := gps_sequence g + 1,
                 gps_lat := clamp (- 90) 90 lat, gps_lon := clamp (- 180) 180 lon,
                 gps_alt := fmax (const 0) alt, gps_speed := clamp 0 150 speed,
                 gps_heading := fmod heading (const 360)\<rparr>
      in (g', \<lparr>gps_Latitude = gps_lat g', gps_Longitude = gps_lon g', gps_Altitude = gps_alt g',
               gps_Speed = gps_speed g', gps_Heading = gps_heading g'\<rparr>))"

definition GPS_Next :: "(GPSData \<Rightarrow> bytes option) \<Rightarrow> time \<Rightarrow> draws \<Rightarrow> GPSSensorGenerator \<Rightarrow>
    TelemetryMessage \<times> GPSSensorGenerator" where
  "GPS_Next enc now d g =
     (let (g', data) = GPS_Data d g
      in (telemetry enc (gps_id g') ''gps'' (gps_sequence g') now data, g'))"

section \<open>Drones\<close>

record DroneSensorGenerator =
  dr_id :: bytes
  dr_sequence :: u64
  dr_lat :: float64
  dr_lon :: float64
  dr_alt :: float64
  dr_battery :: goint
  dr_signal :: goint
  dr_seed :: goint

definition NewDroneSensorGenerator :: "bytes \<Rightarrow> goint \<Rightarrow> draws \<Rightarrow> DroneSensorGenerator" where
  "NewDroneSensorGenerator sid seed d =
     (let u = fst d; k = snd d in
      \<lparr>dr_id = sid, dr_sequence = 0,
       dr_lat = fadd (const (476 / 10)) (wobble (u 0) (const (1 / 10))),
       dr_lon = fadd (const (- 1223 / 10)) (wobble (u 1) (const (1 / 10))),
       dr_alt = fmul (u 2) (const 300), dr_battery = 80 + k 20, dr_signal = 70 + k 30,
       dr_seed = seed\<rparr>)"

text \<open>The truncation of the battery level to \<open>int\<close> is None where Go leaves it open.\<close>

definition Drone_Data :: "draws \<Rightarrow> DroneSensorGenerator \<Rightarrow> (DroneSensorGenerator \<times> DroneData) option" where
  "Drone_Data d g =
     (let u = fst d; k = snd d;
          lat = fadd (dr_lat g) (wobble (u 0) (const (2 / 1000)));
          lon = fadd (dr_lon g) (wobble (u 1) (const (2 / 1000)));
          alt = fadd (dr_alt g) (wobble (u 2) (const 15));
          level = fmax (const 0) (fsub (float_of_int (dr_battery g)) (fmul (u 3) (const 2)))
      in map_option (\<lambda>battery.
           let g' = g\<lparr>dr_sequence := dr_sequence g + 1,
                      dr_lat := clamp (- 90) 90 lat, dr_lon := clamp (- 180) 180 lon,
                      dr_alt := clamp 0 500 alt, dr_battery := battery, dr_signal := 50 + k 50\<rparr>
           in (g', \<lparr>drone_Latitude = dr_lat g', drone_Longitude = dr_lon g', drone_Altitude = dr_alt g',
                    drone_Battery = dr_battery g', drone_Signal = dr_signal g'\<rparr>))
         (int_of_float level))"

definition Drone_Next :: "(DroneData \<Rightarrow> bytes option) \<Rightarrow> time \<Rightarrow> draws \<Rightarrow> DroneSensorGenerator \<Rightarrow>
    (TelemetryMessage \<times> DroneSensorGenerator) option" where
  "Drone_Next enc now d g =
     map_option (\<lambda>(g', data). (telemetry enc (dr_id g') ''drone'' (dr_sequence g') now data, g')) (Drone_Data d g)"

section \<open>Vehicles\<close>

record VehicleSensorGenerator =
  vg_id :: bytes
  vg_sequence :: u64
  vg_lat :: float64
  vg_lon :: float64
  vg_speed :: float64
  vg_fuel :: float64
  vg_mileage :: float64
  vg_seed :: goint

definition NewVehicleSensorGenerator :: "bytes \<Rightarrow> goint \<Rightarrow> draws \<Rightarrow> VehicleSensorGenerator" where
  "NewVehicleSensorGenerator sid seed d =
     (let u = fst d in
      \<lparr>vg_id = sid, vg_sequence = 0,
       vg_lat = fadd (const (476 / 10)) (wobble (u 0) (const (3 / 10))),
       vg_lon = fadd (const (- 1223 / 10)) (wobble (u 1) (const (3 / 10))),
       vg_speed = fmul (u 2) (const 80), vg_fuel = fmul (u 3) (const 100),
       vg_mileage = fmul (u 4) (const 100000), vg_seed = seed\<rparr>)"

definition Vehicle_Data :: "draws \<Rightarrow> VehicleSensorGenerator \<Rightarrow> VehicleSensorGenerator \<times> VehicleData" where
  "Vehicle_Data d g =
     (let u = fst d;
          lat = fadd (vg_lat g) (wobble (u 0) (const (1 / 1000)));
          lon = fadd (vg_lon g) (wobble (u 1) (const (1 / 1000)));
          speed = clamp 0 120 (fadd (vg_speed g) (wobble (u 2) (const 20)));
          fuel = fmax (const 0) (fsub (vg_fuel g) (fmul (u 3) (const (1 / 10))));
          mileage = fadd (vg_mileage g) (fdiv speed (const 10));
          g' = g\<lparr>vg_sequence := vg_sequence g + 1,
                 vg_lat := clamp (- 90) 90 lat, vg_lon := clamp (- 180) 180 lon,
                 vg_speed := speed, vg_fuel := fuel, vg_mileage := mileage\<rparr>
      in (g', \<lparr>veh_Latitude = vg_lat g', veh_Longitude = vg_lon g', veh_Speed = vg_speed g',
               veh_Fuel = vg_fuel g', veh_Mileage = vg_mileage g'\<rparr>))"

definition Vehicle_Next :: "(VehicleData \<Rightarrow> bytes option) \<Rightarrow> time \<Rightarrow> draws \<Rightarrow> VehicleSensorGenerator \<Rightarrow>
    TelemetryMessage \<times> VehicleSensorGenerator" where
  "Vehicle_Next enc now d g =
     (let (g', data) = Vehicle_Data d g
      in (telemetry enc (vg_id g') ''vehicle'' (vg_sequence g') now data, g'))"

section \<open>Temperature sensors\<close>

record TemperatureSensorGenerator =
  tg_id :: bytes
  tg_sequence :: u64
  tg_temp :: float64
  tg_humidity :: float64
  tg_seed :: goint

definition NewTemperatureSensorGenerator :: "bytes \<Rightarrow> goint \<Rightarrow> draws \<Rightarrow> TemperatureSensorGenerator" where
  "NewTemperatureSensorGenerator sid seed d =
     (let u = fst d in
      \<lparr>tg_id = sid, tg_sequence = 0,
       tg_temp = fadd (const 20) (fmul (u 0) (const 10)),
       tg_humidity = fadd (const 30) (fmul (u 1) (const 40)), tg_seed = seed\<rparr>)"

definition Temperature_Data :: "draws \<Rightarrow> TemperatureSensorGenerator \<Rightarrow>
    TemperatureSensorGenerator \<times> TemperatureSensorData" where
  "Temperature_Data d g =
     (let u = fst d;
          temp = fadd (tg_temp g) (wobble (u 0) (const (1 / 2)));
          humidity = fadd (tg_humidity g) (wobble (u 1) (const 2));
          g' = g\<lparr>tg_sequence := tg_sequence g + 1, tg_temp := clamp 0 50 temp,
                 tg_humidity := clamp 0 100 humidity\<rparr>
      in (g', \<lparr>temp_Temperature = tg_temp g', temp_Humidity = tg_humidity g', temp_Unit = ''celsius''\<rparr>))"

definition Temperature_Next :: "(TemperatureSensorData \<Rightarrow> bytes option) \<Rightarrow> time \<Rightarrow> draws \<Rightarrow>
    TemperatureSensorGenerator \<Rightarrow> TelemetryMessage \<times> TemperatureSensorGenerator" where
  "Temperature_Next enc now d g =
     (let (g', data) = Temperature_Data d g
      in (telemetry enc (tg_id g') ''temperature'' (tg_sequence g') now data, g'))"

section \<open>Ranges of the walks\<close>

lemma draw_range: "draws_ok d \<Longrightarrow> in_range 0 1 (fst d i)"
  by (simp add: draws_ok_def)

text \<open>The constants of the code that are exact, and the ranges of those that are not.\<close>

lemma const_int: "\<bar>n\<bar> \<le> 2 ^ 53 \<Longrightarrow> const (of_int n) = Fin (of_int n)"
  using float_of_int_exact by (simp add: float_of_int_def)

lemma const_numeral [simp]:
  "(numeral n :: int) \<le> 2 ^ 53 \<Longrightarrow> const (numeral n) = Fin (numeral n)"
  "(numeral n :: int) \<le> 2 ^ 53 \<Longrightarrow> const (- numeral n) = Fin (- numeral n)"
  using const_int [of "numeral n"] const_int [of "- numeral n"] by simp_all

lemma half_representable: "representable (1 / 2)" "representable (- 1 / 2)"
  unfolding representable_def by (rule exI [of _ 1] exI [of _ "- 1"], rule exI [of _ "- 1"], simp)+

lemma const_half [simp]: "const (1 / 2) = Fin (1 / 2)"
  by (rule round64_exact [OF half_representable(1)]) simp

lemma small_consts:
  "in_range 0 1 (const (1 / 1000))" "in_range 0 1 (const (2 / 1000))" "in_range 0 1 (const (1 / 10))"
  "in_range 0 1 (const (2 / 10))" "in_range 0 1 (const (3 / 10))"
  "in_range 47 48 (const (476 / 10))" "in_range (- 123) (- 122) (const (- 1223 / 10))"
  using round64_in_int_range [of 0 _ 1] round64_in_int_range [of 47 _ 48] round64_in_int_range [of "- 123" _ "- 122"]
  by simp_all

lemma fsub_half_range:
  assumes "in_range 0 1 x"
  shows "in_range (- 1 / 2) (1 / 2) (fsub x (Fin (1 / 2)))"
proof -
  obtain q where q: "x = Fin q" "0 \<le> q" "q \<le> 1" using assms by (auto simp: in_range_Fin)
  have "in_range (- 1 / 2) (1 / 2) (round64 (q - 1 / 2))"
    using q half_representable by (intro round64_in_range) simp_all
  then show ?thesis using q by (simp add: fsub_def)
qed

lemma wobble_range:
  assumes "draws_ok d" and "in_range 0 (of_int (2 * k)) c" and "0 \<le> k" "k \<le> 2 ^ 50"
  shows "in_range (of_int (- k)) (of_int k) (wobble (fst d i) c)"
proof -
  obtain p where p: "fsub (fst d i) (Fin (1 / 2)) = Fin p" "- 1 / 2 \<le> p" "p \<le> 1 / 2"
    using fsub_half_range [OF draw_range [OF assms(1)]] by (auto simp: in_range_Fin)
  obtain q where q: "c = Fin q" "0 \<le> q" "q \<le> of_int (2 * k)" using assms(2) by (auto simp: in_range_Fin)
  have "\<bar>p * q\<bar> \<le> 1 / 2 * of_int (2 * k)"
    unfolding abs_mult using p q by (intro mult_mono) (auto simp: abs_le_iff)
  then have "in_range (of_int (- k)) (of_int k) (round64 (p * q))"
    using assms(3,4) by (intro round64_in_int_range) (auto simp: abs_le_iff)
  then show ?thesis using p q by (simp add: wobble_def fmul_def)
qed

text \<open>A uniform draw scaled by a positive constant.\<close>

lemma scaled_range:
  assumes "draws_ok d" and "in_range 0 (of_int c) x" and "0 \<le> c" "c \<le> 2 ^ 50"
  shows "in_range 0 (of_int c) (fmul (fst d i) x)"
  using fmul_in_range [of 0 1 "fst d i" c x] draw_range [OF assms(1)] assms by simp

lemma wobble_int:
  assumes "draws_ok d" and "0 \<le> n" and "n \<le> 2 ^ 50"
  shows "in_range (of_int (- n)) (of_int n) (wobble (fst d i) (Fin (of_int n)))"
  using wobble_range [OF assms(1), of n "Fin (of_int n)"] assms(2,3) by (simp add: in_range_Fin)

text \<open>A clamped walk: any finite position plus a bounded step, clamped again.\<close>

lemma clamp_walk:
  assumes "in_range (of_int a) (of_int b) x" and "in_range (of_int (- k)) (of_int k) y"
    and "\<bar>a - k\<bar> \<le> 2 ^ 53" "\<bar>b + k\<bar> \<le> 2 ^ 53" and "a \<le> b" and "\<bar>a\<bar> \<le> 2 ^ 53" "\<bar>b\<bar> \<le> 2 ^ 53"
  shows "in_range (of_int a) (of_int b) (clamp (of_int a) (of_int b) (fadd x y))"
proof -
  have "is_finite (fadd x y)"
    using fadd_in_range [OF assms(1,2)] assms(3,4) by (auto intro: in_range_finite)
  then show ?thesis using assms(5,6,7) const_int by (simp add: clamp_def clamp_in_range)
qed

section \<open>The contract of a generator\<close>

text \<open>
  What the simulator and the server rely on: with the library's random numbers a call never fails,
  keeps the generator's invariant, counts the sequence number up by one and yields a payload the
  validator accepts.
\<close>

fun produce :: "(draws \<Rightarrow> 'g \<Rightarrow> ('g \<times> 'd) option) \<Rightarrow> draws list \<Rightarrow> 'g \<Rightarrow> ('g \<times> 'd list) option" where
  "produce step [] g = Some (g, [])"
| "produce step (d # ds) g = Option.bind (step d g) (\<lambda>(g', x).
     map_option (\<lambda>(g'', xs). (g'', x # xs)) (produce step ds g'))"

locale sensor_generator =
  fixes step :: "draws \<Rightarrow> 'g \<Rightarrow> ('g \<times> 'd) option"
    and ginv :: "'g \<Rightarrow> bool"
    and ok :: "'d \<Rightarrow> bool"
    and sequ :: "'g \<Rightarrow> u64"
  assumes step_ok: "draws_ok d \<Longrightarrow> ginv g \<Longrightarrow>
    \<exists>g' x. step d g = Some (g', x) \<and> ginv g' \<and> ok x \<and> sequ g' = sequ g + 1"
begin

lemma produce_ok:
  "list_all draws_ok ds \<Longrightarrow> ginv g \<Longrightarrow>
     \<exists>g' xs. produce step ds g = Some (g', xs) \<and> ginv g' \<and> list_all ok xs \<and> length xs = length ds \<and>
       sequ g' = sequ g + of_nat (length ds)"
proof (induction ds arbitrary: g)
  case (Cons d ds)
  obtain g1 x where s: "step d g = Some (g1, x)" "ginv g1" "ok x" "sequ g1 = sequ g + 1"
    using step_ok [of d g] Cons.prems by auto
  then obtain g' xs where "produce step ds g1 = Some (g', xs)" "ginv g'" "list_all ok xs" "length xs = length ds"
    "sequ g' = sequ g1 + of_nat (length ds)"
    using Cons.IH [of g1] Cons.prems by auto
  with s show ?case by simp
qed simp

end

section \<open>The four generators satisfy it\<close>

definition gps_inv :: "GPSSensorGenerator \<Rightarrow> bool" where
  "gps_inv g = (in_range (- 90) 90 (gps_lat g) \<and> in_range (- 180) 180 (gps_lon g) \<and>
     in_range 0 (2 ^ 60) (gps_alt g) \<and> in_range 0 150 (gps_speed g) \<and> in_range (- 360) 360 (gps_heading g))"

definition gps_payload_ok :: "GPSData \<Rightarrow> bool" where
  "gps_payload_ok x = (ValidateGPSData x = None \<and> is_finite (gps_Latitude x) \<and> is_finite (gps_Longitude x) \<and>
     is_finite (gps_Altitude x) \<and> is_finite (gps_Speed x) \<and> is_finite (gps_Heading x))"

lemma coordinates_new:
  assumes "draws_ok d" and "in_range 0 1 c"
  shows "in_range (- 90) 90 (fadd (const (476 / 10)) (wobble (fst d i) c))"
    and "in_range (- 180) 180 (fadd (const (- 1223 / 10)) (wobble (fst d j) c))"
proof -
  have w: "in_range (of_int (- 1)) (of_int 1) (wobble (fst d i) c)" for i
    using wobble_range [OF assms(1), of 1 c] in_range_weaken [OF assms(2), of 0 2] by simp
  show "in_range (- 90) 90 (fadd (const (476 / 10)) (wobble (fst d i) c))"
    by (rule in_range_weaken [OF fadd_in_range [of 47 48 _ "- 1" 1]])
      (use w [of i] small_consts in simp_all)
  show "in_range (- 180) 180 (fadd (const (- 1223 / 10)) (wobble (fst d j) c))"
    by (rule in_range_weaken [OF fadd_in_range [of "- 123" "- 122" _ "- 1" 1]])
      (use w [of j] small_consts in simp_all)
qed

lemma coordinates_walk:
  assumes "draws_ok d" and "in_range 0 1 c"
  shows "in_range (- 90) 90 x \<Longrightarrow> in_range (- 90) 90 (clamp (- 90) 90 (fadd x (wobble (fst d i) c)))"
    and "in_range (- 180) 180 y \<Longrightarrow> in_range (- 180) 180 (clamp (- 180) 180 (fadd y (wobble (fst d i) c)))"
proof -
  have w: "in_range (of_int (- 1)) (of_int 1) (wobble (fst d i) c)"
    using wobble_range [OF assms(1), of 1 c] in_range_weaken [OF assms(2), of 0 2] by simp
  show "in_range (- 90) 90 x \<Longrightarrow> in_range (- 90) 90 (clamp (- 90) 90 (fadd x (wobble (fst d i) c)))"
    using clamp_walk [of "- 90" 90 x 1] w by simp
  show "in_range (- 180) 180 y \<Longrightarrow> in_range (- 180) 180 (clamp (- 180) 180 (fadd y (wobble (fst d i) c)))"
    using clamp_walk [of "- 180" 180 y 1] w by simp
qed

lemma altitude_walk:
  assumes "draws_ok d" and "in_range 0 (2 ^ 60) x"
  shows "in_range 0 (2 ^ 60) (fmax (const 0) (fadd x (wobble (fst d i) (const 10))))"
proof -
  have "in_range (of_int (- 10)) 120 (wobble (fst d i) (Fin 10))"
    using wobble_int [OF assms(1), of 10 i] by (auto intro: in_range_weaken)
  then have "in_range (of_int (- 10)) (2 ^ 60) (fadd x (wobble (fst d i) (const 10)))"
    using fadd_saturates [OF assms(2), of "- 10"] by simp
  then show ?thesis by (auto dest: fmax_zero_in_range)
qed

lemma scaled_int:
  assumes "draws_ok d" and "0 \<le> c" "c \<le> 2 ^ 50"
  shows "in_range 0 (of_int c) (fmul (fst d i) (Fin (of_int c)))"
  using scaled_range [OF assms(1), of c "Fin (of_int c)" i] assms(2,3) by (simp add: in_range_Fin)

lemma gps_new_inv: "draws_ok d \<Longrightarrow> gps_inv (NewGPSSensorGenerator sid seed d)"
proof -
  assume d: "draws_ok d"
  from scaled_int [OF d, of 500 2] scaled_int [OF d, of 100 3] scaled_int [OF d, of 360 4]
  have "in_range 0 (2 ^ 60) (fmul (fst d 2) (Fin 500))" "in_range 0 150 (fmul (fst d 3) (Fin 100))"
    "in_range (- 360) 360 (fmul (fst d 4) (Fin 360))"
    by (auto intro: in_range_weaken)
  then show ?thesis using coordinates_new [OF d small_consts(4)]
    by (simp add: gps_inv_def NewGPSSensorGenerator_def Let_def)
qed

interpretation gps: sensor_generator "\<lambda>d g. Some (GPS_Data d g)" gps_inv gps_payload_ok gps_sequence
proof unfold_locales
  fix d g assume d: "draws_ok d" and g: "gps_inv g"
  let ?g = "fst (GPS_Data d g)"
  have i: "in_range (- 90) 90 (gps_lat g)" "in_range (- 180) 180 (gps_lon g)" "in_range 0 (2 ^ 60) (gps_alt g)"
    "in_range 0 150 (gps_speed g)" "in_range (- 360) 360 (gps_heading g)"
    using g by (simp_all add: gps_inv_def)
  have speed: "in_range 0 150 (clamp 0 150 (fadd (gps_speed g) (wobble (fst d 3) (Fin 5))))"
    using clamp_walk [of 0 150 "gps_speed g" 5 "wobble (fst d 3) (Fin 5)"] i(4) wobble_int [OF d, of 5] by simp
  have heading: "in_range (- 360) 360 (fmod (fadd (gps_heading g) (wobble (fst d 4) (Fin 10))) (Fin 360))"
  proof (rule fmod_in_range)
    show "is_finite (fadd (gps_heading g) (wobble (fst d 4) (Fin 10)))"
      using fadd_in_range [of "- 360" 360 "gps_heading g" "- 10" 10] i(5) wobble_int [OF d, of 10]
      by (auto intro: in_range_finite)
  qed simp
  have inv: "gps_inv ?g"
    using coordinates_walk(1) [OF d small_consts(1) i(1), of 0] coordinates_walk(2) [OF d small_consts(1) i(2), of 1]
      altitude_walk [OF d i(3), of 2] speed heading
    by (simp add: gps_inv_def GPS_Data_def Let_def)
  have data: "snd (GPS_Data d g) = \<lparr>gps_Latitude = gps_lat ?g, gps_Longitude = gps_lon ?g, gps_Altitude = gps_alt ?g,
      gps_Speed = gps_speed ?g, gps_Heading = gps_heading ?g\<rparr>"
    by (simp add: GPS_Data_def Let_def)
  have "gps_payload_ok (snd (GPS_Data d g))"
    using inv by (auto simp: data gps_payload_ok_def ValidateGPSData_def gps_inv_def in_range_Fin flt_defs)
  moreover have "gps_sequence ?g = gps_sequence g + 1" by (simp add: GPS_Data_def Let_def)
  ultimately show "\<exists>g' x. Some (GPS_Data d g) = Some (g', x) \<and> gps_inv g' \<and> gps_payload_ok x \<and> gps_sequence g' = gps_sequence g + 1"
    using inv by (metis prod.collapse)
qed

definition drone_inv :: "DroneSensorGenerator \<Rightarrow> bool" where
  "drone_inv g = (in_range (- 90) 90 (dr_lat g) \<and> in_range (- 180) 180 (dr_lon g) \<and>
     in_range 0 500 (dr_alt g) \<and> 0 \<le> dr_battery g \<and> dr_battery g \<le> 100)"

definition drone_payload_ok :: "DroneData \<Rightarrow> bool" where
  "drone_payload_ok x = (ValidateDroneData x = None \<and> is_finite (drone_Latitude x) \<and>
     is_finite (drone_Longitude x) \<and> is_finite (drone_Altitude x))"

lemma drone_new_inv: "draws_ok d \<Longrightarrow> drone_inv (NewDroneSensorGenerator sid seed d)"
proof -
  assume d: "draws_ok d"
  from scaled_int [OF d, of 300 2] have "in_range 0 500 (fmul (fst d 2) (Fin 300))"
    by (auto intro: in_range_weaken)
  moreover have "0 \<le> snd d 20 \<and> snd d 20 < 20" using d by (auto simp: draws_ok_def)
  ultimately show ?thesis using coordinates_new [OF d small_consts(3)]
    by (simp add: drone_inv_def NewDroneSensorGenerator_def Let_def)
qed

text \<open>The battery never charges: from a level in range, the truncated new level is in range.\<close>

lemma battery_level:
  assumes "draws_ok d" and "0 \<le> b" and "b \<le> 100"
  shows "\<exists>n. int_of_float (fmax (const 0) (fsub (float_of_int b) (fmul (fst d i) (const 2)))) = Some n \<and> 0 \<le> n \<and> n \<le> b"
proof -
  have "in_range 0 2 (fmul (fst d i) (Fin 2))" using scaled_int [OF assms(1), of 2 i] by simp
  then have "in_range (of_int (- 2)) (of_int 0) (fneg (fmul (fst d i) (Fin 2)))"
    using fneg_in_range [of 0 2] by simp
  moreover have "in_range (of_int b) (of_int b) (float_of_int b)"
    using assms(2,3) by (simp add: float_of_int_exact in_range_Fin)
  ultimately have "in_range (of_int (b + - 2)) (of_int (b + 0)) (fsub (float_of_int b) (fmul (fst d i) (Fin 2)))"
    unfolding fsub_def using assms(2,3) by (intro fadd_in_range) simp_all
  then have "in_range 0 (of_int b) (fmax (Fin 0) (fsub (float_of_int b) (fmul (fst d i) (Fin 2))))"
    using assms(2) by (intro fmax_zero_in_range [of "of_int (b + - 2)"]) simp_all
  then obtain q where q: "fmax (Fin 0) (fsub (float_of_int b) (fmul (fst d i) (Fin 2))) = Fin q" "0 \<le> q" "q \<le> of_int b"
    by (auto simp: in_range_Fin)
  have "0 \<le> \<lfloor>q\<rfloor>" "\<lfloor>q\<rfloor> \<le> b" using q(2,3) by (simp_all add: floor_le_iff)
  then show ?thesis using q assms(3) by (auto simp: int_of_float_def trunc_rat_def Let_def)
qed

interpretation drone: sensor_generator Drone_Data drone_inv drone_payload_ok dr_sequence
proof unfold_locales
  fix d g assume d: "draws_ok d" and g: "drone_inv g"
  have i: "in_range (- 90) 90 (dr_lat g)" "in_range (- 180) 180 (dr_lon g)" "in_range 0 500 (dr_alt g)"
    "0 \<le> dr_battery g" "dr_battery g \<le> 100"
    using g by (simp_all add: drone_inv_def)
  obtain n where n: "int_of_float (fmax (const 0) (fsub (float_of_int (dr_battery g)) (fmul (fst d 3) (const 2)))) = Some n"
    "0 \<le> n" "n \<le> 100"
    using battery_level [OF d i(4,5), of 3] i(5) by fastforce
  have k: "0 \<le> snd d 50" "snd d 50 < 50" using d by (auto simp: draws_ok_def)
  have alt: "in_range 0 500 (clamp 0 500 (fadd (dr_alt g) (wobble (fst d 2) (Fin 15))))"
    using clamp_walk [of 0 500 "dr_alt g" 15 "wobble (fst d 2) (Fin 15)"] i(3) wobble_int [OF d, of 15] by simp
  obtain g' x where s: "Drone_Data d g = Some (g', x)"
    "g' = g\<lparr>dr_sequence := dr_sequence g + 1,
       dr_lat := clamp (- 90) 90 (fadd (dr_lat g) (wobble (fst d 0) (const (2 / 1000)))),
       dr_lon := clamp (- 180) 180 (fadd (dr_lon g) (wobble (fst d 1) (const (2 / 1000)))),
       dr_alt := clamp 0 500 (fadd (dr_alt g) (wobble (fst d 2) (const 15))),
       dr_battery := n, dr_signal := 50 + snd d 50\<rparr>"
    "x = \<lparr>drone_Latitude = dr_lat g', drone_Longitude = dr_lon g', drone_Altitude = dr_alt g',
       drone_Battery = dr_battery g', drone_Signal = dr_signal g'\<rparr>"
    using n(1) by (simp add: Drone_Data_def Let_def)
  have inv: "drone_inv g'"
    using coordinates_walk(1) [OF d small_consts(2) i(1), of 0] coordinates_walk(2) [OF d small_consts(2) i(2), of 1]
      alt n by (simp add: drone_inv_def s(2))
  moreover have "drone_payload_ok x"
    using inv k n by (auto simp: s(2,3) drone_payload_ok_def ValidateDroneData_def drone_inv_def in_range_Fin flt_defs)
  ultimately show "\<exists>g' x. Drone_Data d g = Some (g', x) \<and> drone_inv g' \<and> drone_payload_ok x \<and> dr_sequence g' = dr_sequence g + 1"
    using s(1,2) by simp
qed

definition vehicle_inv :: "VehicleSensorGenerator \<Rightarrow> bool" where
  "vehicle_inv g = (in_range (- 90) 90 (vg_lat g) \<and> in_range (- 180) 180 (vg_lon g) \<and>
     in_range 0 120 (vg_speed g) \<and> in_range 0 100 (vg_fuel g) \<and> in_range 0 (2 ^ 60) (vg_mileage g))"

definition vehicle_payload_ok :: "VehicleData \<Rightarrow> bool" where
  "vehicle_payload_ok x = (ValidateVehicleData x = None \<and> is_finite (veh_Latitude x) \<and> is_finite (veh_Longitude x) \<and>
     is_finite (veh_Speed x) \<and> is_finite (veh_Fuel x) \<and> is_finite (veh_Mileage x))"

lemma vehicle_new_inv: "draws_ok d \<Longrightarrow> vehicle_inv (NewVehicleSensorGenerator sid seed d)"
proof -
  assume d: "draws_ok d"
  from scaled_int [OF d, of 80 2] scaled_int [OF d, of 100 3] scaled_int [OF d, of 100000 4]
  have "in_range 0 120 (fmul (fst d 2) (Fin 80))" "in_range 0 100 (fmul (fst d 3) (Fin 100))"
    "in_range 0 (2 ^ 60) (fmul (fst d 4) (Fin 100000))"
    by (auto intro: in_range_weaken)
  then show ?thesis using coordinates_new [OF d small_consts(5)]
    by (simp add: vehicle_inv_def NewVehicleSensorGenerator_def Let_def)
qed

interpretation vehicle: sensor_generator "\<lambda>d g. Some (Vehicle_Data d g)" vehicle_inv vehicle_payload_ok vg_sequence
proof unfold_locales
  fix d g assume d: "draws_ok d" and g: "vehicle_inv g"
  let ?g = "fst (Vehicle_Data d g)"
  have i: "in_range (- 90) 90 (vg_lat g)" "in_range (- 180) 180 (vg_lon g)" "in_range 0 120 (vg_speed g)"
    "in_range 0 100 (vg_fuel g)" "in_range 0 (2 ^ 60) (vg_mileage g)"
    using g by (simp_all add: vehicle_inv_def)
  have speed: "in_range 0 120 (clamp 0 120 (fadd (vg_speed g) (wobble (fst d 2) (Fin 20))))" (is "in_range _ _ ?speed")
    using clamp_walk [of 0 120 "vg_speed g" 20 "wobble (fst d 2) (Fin 20)"] i(3) wobble_int [OF d, of 20] by simp
  have fuel: "in_range 0 100 (fmax (Fin 0) (fsub (vg_fuel g) (fmul (fst d 3) (const (1 / 10)))))"
  proof -
    have "in_range 0 1 (fmul (fst d 3) (const (1 / 10)))" using scaled_range [OF d, of 1 _ 3] small_consts(3) by simp
    then have "in_range (of_int (0 + - 1)) (of_int (100 + 0)) (fsub (vg_fuel g) (fmul (fst d 3) (const (1 / 10))))"
      unfolding fsub_def using fneg_in_range [of 0 1] i(4) by (intro fadd_in_range) simp_all
    then show ?thesis by (intro fmax_zero_in_range [of "of_int (0 + - 1)"]) simp_all
  qed
  have "in_range 0 120 (fdiv ?speed (Fin 10))" using fdiv_in_range [of 120 ?speed 10] speed by simp
  then have mileage: "in_range 0 (2 ^ 60) (fadd (vg_mileage g) (fdiv ?speed (Fin 10)))"
    using fadd_saturates [OF i(5), of 0] by simp
  have inv: "vehicle_inv ?g"
    using coordinates_walk(1) [OF d small_consts(1) i(1), of 0] coordinates_walk(2) [OF d small_consts(1) i(2), of 1]
      speed fuel mileage
    by (simp add: vehicle_inv_def Vehicle_Data_def Let_def)
  have data: "snd (Vehicle_Data d g) = \<lparr>veh_Latitude = vg_lat ?g, veh_Longitude = vg_lon ?g, veh_Speed = vg_speed ?g,
      veh_Fuel = vg_fuel ?g, veh_Mileage = vg_mileage ?g\<rparr>"
    by (simp add: Vehicle_Data_def Let_def)
  have "vehicle_payload_ok (snd (Vehicle_Data d g))"
    using inv by (auto simp: data vehicle_payload_ok_def ValidateVehicleData_def vehicle_inv_def in_range_Fin flt_defs)
  moreover have "vg_sequence ?g = vg_sequence g + 1" by (simp add: Vehicle_Data_def Let_def)
  ultimately show "\<exists>g' x. Some (Vehicle_Data d g) = Some (g', x) \<and> vehicle_inv g' \<and> vehicle_payload_ok x \<and> vg_sequence g' = vg_sequence g + 1"
    using inv by (metis prod.collapse)
qed

definition temperature_inv :: "TemperatureSensorGenerator \<Rightarrow> bool" where
  "temperature_inv g = (in_range 0 50 (tg_temp g) \<and> in_range 0 100 (tg_humidity g))"

definition temperature_payload_ok :: "TemperatureSensorData \<Rightarrow> bool" where
  "temperature_payload_ok x = (ValidateTemperatureSensorData x = None \<and> is_finite (temp_Temperature x) \<and>
     is_finite (temp_Humidity x))"

lemma temperature_new_inv: "draws_ok d \<Longrightarrow> temperature_inv (NewTemperatureSensorGenerator sid seed d)"
proof -
  assume d: "draws_ok d"
  have "in_range (of_int (20 + 0)) (of_int (20 + 10)) (fadd (Fin 20) (fmul (fst d 0) (Fin 10)))"
    "in_range (of_int (30 + 0)) (of_int (30 + 40)) (fadd (Fin 30) (fmul (fst d 1) (Fin 40)))"
    using fadd_in_range [of 20 20 "Fin 20" 0 10 "fmul (fst d 0) (Fin 10)"] scaled_int [OF d, of 10 0]
      fadd_in_range [of 30 30 "Fin 30" 0 40 "fmul (fst d 1) (Fin 40)"] scaled_int [OF d, of 40 1]
    by (simp_all add: in_range_def at_least_def at_most_def)
  then show ?thesis
    by (auto simp: temperature_inv_def NewTemperatureSensorGenerator_def Let_def intro: in_range_weaken)
qed

interpretation temperature: sensor_generator "\<lambda>d g. Some (Temperature_Data d g)"
  temperature_inv temperature_payload_ok tg_sequence
proof unfold_locales
  fix d g assume d: "draws_ok d" and g: "temperature_inv g"
  let ?g = "fst (Temperature_Data d g)"
  have "in_range 0 (of_int (2 * 1)) (Fin (1 / 2))" "in_range 0 (of_int (2 * 1)) (Fin 2)"
    by (simp_all add: in_range_def at_least_def at_most_def)
  then have w: "in_range (of_int (- 1)) (of_int 1) (wobble (fst d 0) (Fin (1 / 2)))"
    "in_range (of_int (- 1)) (of_int 1) (wobble (fst d 1) (Fin 2))"
    using wobble_range [OF d, of 1] by (simp_all only: order_refl zero_le_one) simp_all
  have inv: "temperature_inv ?g"
    using clamp_walk [of 0 50 "tg_temp g" 1, OF _ w(1)] clamp_walk [of 0 100 "tg_humidity g" 1, OF _ w(2)] g
    by (simp add: temperature_inv_def Temperature_Data_def Let_def)
  have data: "snd (Temperature_Data d g) = \<lparr>temp_Temperature = tg_temp ?g, temp_Humidity = tg_humidity ?g, temp_Unit = ''celsius''\<rparr>"
    by (simp add: Temperature_Data_def Let_def)
  have "temperature_payload_ok (snd (Temperature_Data d g))"
    using inv by (auto simp: data temperature_payload_ok_def ValidateTemperatureSensorData_def temperature_inv_def in_range_Fin flt_defs)
  moreover have "tg_sequence ?g = tg_sequence g + 1" by (simp add: Temperature_Data_def Let_def)
  ultimately show "\<exists>g' x. Some (Temperature_Data d g) = Some (g', x) \<and> temperature_inv g' \<and> temperature_payload_ok x \<and> tg_sequence g' = tg_sequence g + 1"
    using inv by (metis prod.collapse)
qed

end
