(* ===== verification/Simulator.thy ===== *)
theory Simulator
  imports Generator Go_Chan Go_Format
begin

text \<open>
  internal/simulator/simulator.go: the generators a configuration asks for, and the loop that hands
  out their messages one per tick, in turn. Ticks, the consumer of the channel and the cancellation
  of the context come in any order.
\<close>

section \<open>The interface of a generator\<close>

datatype SensorGenerator = GPS GPSSensorGenerator | Drone DroneSensorGenerator
  | Vehicle VehicleSensorGenerator | Temperature TemperatureSensorGenerator

datatype payload = GPSPayload GPSData | DronePayload DroneData | VehiclePayload VehicleData
  | TemperaturePayload TemperatureSensorData

fun gen_id :: "SensorGenerator \<Rightarrow> bytes" where
  "gen_id (GPS g) = gps_id g"
| "gen_id (Drone g) = dr_id g"
| "gen_id (Vehicle g) = vg_id g"
| "gen_id (Temperature g) = tg_id g"

fun gen_type :: "SensorGenerator \<Rightarrow> bytes" where
  "gen_type (GPS g) = ''gps''"
| "gen_type (Drone g) = ''drone''"
| "gen_type (Vehicle g) = ''vehicle''"
| "gen_type (Temperature g) = ''temperature''"

fun gen_sequence :: "SensorGenerator \<Rightarrow> u64" where
  "gen_sequence (GPS g) = gps_sequence g"
| "gen_sequence (Drone g) = dr_sequence g"
| "gen_sequence (Vehicle g) = vg_sequence g"
| "gen_sequence (Temperature g) = tg_sequence g"

text \<open>The generator's step and the payload of the message it makes.\<close>

fun gen_data :: "draws \<Rightarrow> SensorGenerator \<Rightarrow> (SensorGenerator \<times> payload) option" where
  "gen_data d (GPS g) = Some (map_prod GPS GPSPayload (GPS_Data d g))"
| "gen_data d (Drone g) = map_option (map_prod Drone DronePayload) (Drone_Data d g)"
| "gen_data d (Vehicle g) = Some (map_prod Vehicle VehiclePayload (Vehicle_Data d g))"
| "gen_data d (Temperature g) = Some (map_prod Temperature TemperaturePayload (Temperature_Data d g))"

record encoders =
  enc_gps :: "GPSData \<Rightarrow> bytes option"
  enc_drone :: "DroneData \<Rightarrow> bytes option"
  enc_vehicle :: "VehicleData \<Rightarrow> bytes option"
  enc_temperature :: "TemperatureSensorData \<Rightarrow> bytes option"

fun Next :: "encoders \<Rightarrow> time \<Rightarrow> draws \<Rightarrow> SensorGenerator \<Rightarrow> (TelemetryMessage \<times> SensorGenerator) option" where
  "Next encs now d (GPS g) = Some (map_prod id GPS (GPS_Next (enc_gps encs) now d g))"
| "Next encs now d (Drone g) = map_option (map_prod id Drone) (Drone_Next (enc_drone encs) now d g)"
| "Next encs now d (Vehicle g) = Some (map_prod id Vehicle (Vehicle_Next (enc_vehicle encs) now d g))"
| "Next encs now d (Temperature g) = Some (map_prod id Temperature (Temperature_Next (enc_temperature encs) now d g))"

section \<open>The simulator\<close>

record SimulatorConfig =
  NumberOfSensors :: goint
  MessageRateHz :: goint
  SensorTypes :: "bytes list"

record Simulator =
  sim_config :: SimulatorConfig
  generators :: "SensorGenerator list"

definition new_generator :: "bytes \<Rightarrow> bytes \<Rightarrow> goint \<Rightarrow> draws \<Rightarrow> SensorGenerator option" where
  "new_generator ty sid seed d =
     (if ty = ''gps'' then Some (GPS (NewGPSSensorGenerator sid seed d))
      else if ty = ''drone'' then Some (Drone (NewDroneSensorGenerator sid seed d))
      else if ty = ''vehicle'' then Some (Vehicle (NewVehicleSensorGenerator sid seed d))
      else if ty = ''temperature'' then Some (Temperature (NewTemperatureSensorGenerator sid seed d))
      else None)"

text \<open>The nested loops as one list of pairs; an unknown type is skipped. \<open>ds k\<close> are the global
  random numbers drawn for the \<open>k\<close>-th generator.\<close>

fun add_generators :: "(nat \<Rightarrow> draws) \<Rightarrow> nat \<Rightarrow> (bytes \<times> nat) list \<Rightarrow> SensorGenerator list" where
  "add_generators ds sensorIndex [] = []"
| "add_generators ds sensorIndex ((ty, i) # rest) =
     (case new_generator ty (ty @ ''-'' @ decimal i) (int sensorIndex * 1000 + int i) (ds sensorIndex) of
        None \<Rightarrow> add_generators ds sensorIndex rest
      | Some gen \<Rightarrow> gen # add_generators ds (sensorIndex + 1) rest)"

definition NewSimulator :: "SimulatorConfig \<Rightarrow> (nat \<Rightarrow> draws) \<Rightarrow> Simulator" where
  "NewSimulator config ds =
     (let types = (if SensorTypes config = [] then [''gps'', ''drone'', ''vehicle'', ''temperature'']
                   else SensorTypes config)
      in \<lparr>sim_config = config, generators = add_generators ds 0
            (concat (map (\<lambda>ty. map (\<lambda>i. (ty, i)) [0..<nat (NumberOfSensors config)]) types))\<rparr>)"

definition SensorCount :: "Simulator \<Rightarrow> nat" where
  "SensorCount sim = length (generators sim)"

section \<open>Running it\<close>

text \<open>Go's integer division truncates; dividing by zero panics, as does a ticker whose interval is
  not positive.\<close>

datatype run_error = NoSensors | Panic

definition ticker_interval :: "goint \<Rightarrow> duration option" where
  "ticker_interval rate =
     (if rate = 0 then None
      else let interval = (if 0 \<le> rate then 1000 div rate else - (1000 div (- rate))) * millisecond
           in if interval \<le> 0 then None else Some interval)"

text \<open>The loop waits for a tick or hands over the message it holds; \<open>sent\<close> is ghost history.\<close>

record sim_run =
  s_gens :: "SensorGenerator list"
  generatorIndex :: nat
  totalSent :: goint
  s_pending :: "TelemetryMessage option"
  s_out :: "TelemetryMessage chan"
  s_ctxDone :: bool
  s_returned :: bool
  sent :: "TelemetryMessage list"

definition Run :: "Simulator \<Rightarrow> TelemetryMessage chan \<Rightarrow> run_error + duration \<times> sim_run" where
  "Run sim out =
     (if length (generators sim) = 0 then Inl NoSensors
      else case ticker_interval (MessageRateHz (sim_config sim)) of
          None \<Rightarrow> Inl Panic
        | Some interval \<Rightarrow> Inr (interval,
            \<lparr>s_gens = generators sim, generatorIndex = 0, totalSent = 0, s_pending = None, s_out = out,
             s_ctxDone = False, s_returned = False, sent = []\<rparr>))"

datatype sim_act = STick time draws | SSend | SCancel | SSeeDone | SConsume

definition sim_exec :: "encoders \<Rightarrow> sim_act \<Rightarrow> sim_run \<Rightarrow> sim_run option" where
  "sim_exec encs a s = (case a of
       STick now d \<Rightarrow>
         if s_returned s \<or> s_pending s \<noteq> None then None
         else map_option (\<lambda>(msg, gen). s\<lparr>s_gens := (s_gens s)[generatorIndex s := gen],
                s_pending := Some msg, totalSent := totalSent s + 1\<rparr>)
              (Next encs now d (s_gens s ! generatorIndex s))
     | SSend \<Rightarrow>
         if s_returned s then None
         else (case s_pending s of
             None \<Rightarrow> None
           | Some msg \<Rightarrow> (case chan_send msg (s_out s) of
                 Sent c \<Rightarrow> Some (s\<lparr>s_out := c, s_pending := None, sent := sent s @ [msg],
                   generatorIndex := (generatorIndex s + 1) mod length (s_gens s)\<rparr>)
               | _ \<Rightarrow> None))
     | SCancel \<Rightarrow> Some (s\<lparr>s_ctxDone := True\<rparr>)
     | SSeeDone \<Rightarrow> if s_ctxDone s \<and> \<not> s_returned s then Some (s\<lparr>s_returned := True\<rparr>) else None
     | SConsume \<Rightarrow> (case chan_recv (s_out s) of
           Received m c \<Rightarrow> Some (s\<lparr>s_out := c\<rparr>)
         | _ \<Rightarrow> None))"

fun sim_steps :: "encoders \<Rightarrow> sim_act list \<Rightarrow> sim_run \<Rightarrow> sim_run option" where
  "sim_steps encs [] s = Some s"
| "sim_steps encs (a # as) s = Option.bind (sim_exec encs a s) (sim_steps encs as)"

section \<open>Any generator satisfies the contract\<close>

fun gen_inv :: "SensorGenerator \<Rightarrow> bool" where
  "gen_inv (GPS g) = gps_inv g"
| "gen_inv (Drone g) = drone_inv g"
| "gen_inv (Vehicle g) = vehicle_inv g"
| "gen_inv (Temperature g) = temperature_inv g"

fun payload_ok :: "payload \<Rightarrow> bool" where
  "payload_ok (GPSPayload x) = gps_payload_ok x"
| "payload_ok (DronePayload x) = drone_payload_ok x"
| "payload_ok (VehiclePayload x) = vehicle_payload_ok x"
| "payload_ok (TemperaturePayload x) = temperature_payload_ok x"

interpretation any: sensor_generator gen_data gen_inv payload_ok gen_sequence
proof unfold_locales
  fix d g assume d: "draws_ok d" and g: "gen_inv g"
  show "\<exists>g' x. gen_data d g = Some (g', x) \<and> gen_inv g' \<and> payload_ok x \<and> gen_sequence g' = gen_sequence g + 1"
    using gps.step_ok [OF d] drone.step_ok [OF d] vehicle.step_ok [OF d] temperature.step_ok [OF d] g
    by (cases g) (fastforce simp: map_prod_def)+
qed

lemma new_fields [simp]:
  "gps_id (NewGPSSensorGenerator sid seed d) = sid" "gps_sequence (NewGPSSensorGenerator sid seed d) = 0"
  "dr_id (NewDroneSensorGenerator sid seed d) = sid" "dr_sequence (NewDroneSensorGenerator sid seed d) = 0"
  "vg_id (NewVehicleSensorGenerator sid seed d) = sid" "vg_sequence (NewVehicleSensorGenerator sid seed d) = 0"
  "tg_id (NewTemperatureSensorGenerator sid seed d) = sid" "tg_sequence (NewTemperatureSensorGenerator sid seed d) = 0"
  by (simp_all add: NewGPSSensorGenerator_def NewDroneSensorGenerator_def NewVehicleSensorGenerator_def
      NewTemperatureSensorGenerator_def Let_def)

lemma new_generator_ok:
  assumes "draws_ok d" and "new_generator ty sid seed d = Some g"
  shows "gen_inv g \<and> gen_sequence g = 0 \<and> gen_id g = sid \<and> gen_type g = ty"
  using assms(2) gps_new_inv [OF assms(1)] drone_new_inv [OF assms(1)] vehicle_new_inv [OF assms(1)]
    temperature_new_inv [OF assms(1)]
  by (auto simp: new_generator_def split: if_splits)

lemma add_generators_ok:
  "\<forall>k. draws_ok (ds k) \<Longrightarrow> g \<in> set (add_generators ds n ws) \<Longrightarrow> gen_inv g \<and> gen_sequence g = 0 \<and> gen_id g \<noteq> []"
  by (induction ds n ws rule: add_generators.induct) (auto split: option.splits dest!: new_generator_ok [rotated])

section \<open>Taking turns\<close>

lemma Next_data:
  "Next encs now d g = Some (msg, g') \<Longrightarrow> \<exists>x. gen_data d g = Some (g', x) \<and> SensorID msg = gen_id g' \<and>
     SensorType msg = gen_type g' \<and> Sequence msg = gen_sequence g' \<and> Timestamp msg = now"
  by (cases g) (auto simp: GPS_Next_def Drone_Next_def Vehicle_Next_def Temperature_Next_def telemetry_def
      case_prod_unfold Let_def map_prod_def)

lemma gen_data_id: "gen_data d g = Some (g', x) \<Longrightarrow> gen_id g' = gen_id g \<and> gen_type g' = gen_type g"
  by (cases g) (auto simp: GPS_Data_def Drone_Data_def Vehicle_Data_def Temperature_Data_def Let_def)

lemma gen_data_sequence: "gen_data d g = Some (g', x) \<Longrightarrow> gen_sequence g' = gen_sequence g + 1"
  by (cases g) (auto simp: GPS_Data_def Drone_Data_def Vehicle_Data_def Temperature_Data_def Let_def)

text \<open>How often generator \<open>j\<close> of \<open>n\<close> has had its turn after \<open>p\<close> turns.\<close>

definition turns :: "nat \<Rightarrow> nat \<Rightarrow> nat \<Rightarrow> nat" where
  "turns n p j = (p + n - 1 - j) div n"

lemma turns_zero: "j < n \<Longrightarrow> turns n 0 j = 0"
  by (simp add: turns_def)

lemma turns_Suc:
  assumes "j < n"
  shows "turns n (Suc p) j = turns n p j + (if p mod n = j then 1 else 0)"
proof -
  let ?q = "p div n" and ?r = "p mod n"
  have p: "p = n * ?q + ?r" by simp
  have r: "?r < n" using assms by simp
  have s: "Suc p + n - 1 - j = n * ?q + (?r + n - j)" "p + n - 1 - j = n * ?q + (?r + n - 1 - j)"
    using assms p by linarith+
  have n: "n \<noteq> 0" using assms by simp
  have b: "?r + n - j < 2 * n" "?r + n - 1 - j < 2 * n" "n \<le> ?r + n - j \<longleftrightarrow> j \<le> ?r" "n \<le> ?r + n - 1 - j \<longleftrightarrow> j < ?r"
    using r assms by linarith+
  have d: "x div n = (if n \<le> x then 1 else 0)" if "x < 2 * n" for x
  proof (cases "n \<le> x")
    case True
    then have "x div n = Suc ((x - n) div n)" using assms by (simp add: le_div_geq)
    then show ?thesis using True that by simp
  qed simp
  have "turns n (Suc p) j = ?q + (if j \<le> ?r then 1 else 0)"
    unfolding turns_def s(1) div_mult_self4 [OF n] using d [of "?r + n - j", OF b(1)] assms b(3) by auto
  moreover have "turns n p j = ?q + (if j < ?r then 1 else 0)"
    unfolding turns_def s(2) div_mult_self4 [OF n] using d [of "?r + n - 1 - j", OF b(2)] assms b(4) by auto
  ultimately show ?thesis by auto
qed

lemma turns_own: "0 < n \<Longrightarrow> turns n (Suc p) (p mod n) = Suc (p div n)"
proof -
  assume n: "0 < n"
  have "p mod n < n" using n by simp
  moreover have "Suc p + n - 1 - p mod n = n + (p - p mod n)"
    using mod_less_eq_dividend [of p n] n by simp
  then have "Suc p + n - 1 - p mod n = n * Suc (p div n)" by (simp add: minus_mod_eq_mult_div)
  ultimately show ?thesis using n by (simp add: turns_def)
qed

text \<open>The messages made so far, and the invariant of the loop.\<close>

definition made :: "sim_run \<Rightarrow> TelemetryMessage list" where
  "made s = sent s @ (case s_pending s of None \<Rightarrow> [] | Some m \<Rightarrow> [m])"

lemma made_tick [simp]: "made (s\<lparr>s_gens := gs, s_pending := Some m, totalSent := t\<rparr>) = sent s @ [m]"
  by (simp add: made_def)

definition turn_inv :: "SensorGenerator list \<Rightarrow> sim_run \<Rightarrow> bool" where
  "turn_inv gs s = (0 < length gs \<and> length (s_gens s) = length gs \<and>
     generatorIndex s = length (sent s) mod length gs \<and>
     totalSent s = int (length (made s)) \<and>
     (\<forall>j<length gs. gen_inv (s_gens s ! j) \<and> gen_id (s_gens s ! j) = gen_id (gs ! j) \<and>
        gen_type (s_gens s ! j) = gen_type (gs ! j) \<and>
        gen_sequence (s_gens s ! j) = of_nat (turns (length gs) (length (made s)) j)) \<and>
     (\<forall>k<length (made s). SensorID (made s ! k) = gen_id (gs ! (k mod length gs)) \<and>
        SensorType (made s ! k) = gen_type (gs ! (k mod length gs)) \<and>
        Sequence (made s ! k) = of_nat (k div length gs + 1)))"

lemma turn_inv_start:
  assumes "Run sim out = Inr (iv, s)" and "\<forall>g\<in>set (generators sim). gen_inv g \<and> gen_sequence g = 0"
  shows "turn_inv (generators sim) s"
  using assms by (auto simp: Run_def turn_inv_def made_def turns_zero split: if_splits option.splits)

lemma turn_inv_tick:
  assumes "turn_inv gs s" and "s_pending s = None" and "draws_ok d"
    and "Next encs now d (s_gens s ! generatorIndex s) = Some (msg, g)"
  shows "turn_inv gs (s\<lparr>s_gens := (s_gens s)[generatorIndex s := g], s_pending := Some msg, totalSent := totalSent s + 1\<rparr>)"
    (is "turn_inv gs ?s")
proof -
  let ?n = "length gs" and ?p = "length (sent s)" and ?i = "generatorIndex s"
  have n: "0 < ?n" and len: "length (s_gens s) = ?n" and i: "?i = ?p mod ?n" "?i < ?n"
    using assms(1) by (simp_all add: turn_inv_def)
  have made: "made s = sent s" "made ?s = sent s @ [msg]" using assms(2) by (simp_all add: made_def)
  have gens: "gen_inv (s_gens s ! j) \<and> gen_id (s_gens s ! j) = gen_id (gs ! j) \<and> gen_type (s_gens s ! j) = gen_type (gs ! j) \<and>
      gen_sequence (s_gens s ! j) = of_nat (turns ?n ?p j)" if "j < ?n" for j
    using assms(1) that by (simp add: turn_inv_def made)
  obtain x where x: "gen_data d (s_gens s ! ?i) = Some (g, x)" "SensorID msg = gen_id g" "SensorType msg = gen_type g"
    "Sequence msg = gen_sequence g"
    using Next_data [OF assms(4)] by auto
  have g: "gen_inv g" "gen_id g = gen_id (gs ! ?i)" "gen_type g = gen_type (gs ! ?i)"
    "gen_sequence g = of_nat (turns ?n (Suc ?p) ?i)"
    using any.step_ok [OF assms(3), of "s_gens s ! ?i"] gens [OF i(2)] x(1) gen_data_id [OF x(1)]
      gen_data_sequence [OF x(1)] turns_Suc [OF i(2), of ?p] i(1)
    by auto
  have seq: "gen_sequence g = of_nat (?p div ?n + 1)" using g(4) turns_own [OF n, of ?p] i(1) by simp
  have "gen_inv (s_gens ?s ! j) \<and> gen_id (s_gens ?s ! j) = gen_id (gs ! j) \<and> gen_type (s_gens ?s ! j) = gen_type (gs ! j) \<and>
      gen_sequence (s_gens ?s ! j) = of_nat (turns ?n (length (made ?s)) j)" if "j < ?n" for j
  proof -
    have "turns ?n (length (made ?s)) j = turns ?n ?p j + (if ?i = j then 1 else 0)"
      unfolding made using turns_Suc [OF that, of ?p] i(1) by simp
    moreover have "turns ?n (length (made ?s)) ?i = turns ?n (Suc ?p) ?i" unfolding made by simp
    ultimately show ?thesis using gens [OF that] g len that by (cases "j = ?i") simp_all
  qed
  moreover have "SensorID (made ?s ! k) = gen_id (gs ! (k mod ?n)) \<and> SensorType (made ?s ! k) = gen_type (gs ! (k mod ?n)) \<and>
      Sequence (made ?s ! k) = of_nat (k div ?n + 1)" if "k < length (made ?s)" for k
  proof (cases "k = ?p")
    case True
    have m: "made ?s ! k = msg" unfolding made True by simp
    show ?thesis unfolding m using True x g seq i(1) by simp
  next
    case False
    then have "k < ?p" using that by simp
    then have "made ?s ! k = sent s ! k" by (simp add: nth_append)
    then show ?thesis using assms(1) \<open>k < ?p\<close> unfolding turn_inv_def made(1) by metis
  qed
  ultimately show ?thesis using assms(1) n len by (simp add: turn_inv_def made)
qed

lemma turn_inv_step:
  assumes "turn_inv gs s" and "sim_exec encs a s = Some s'" and "\<And>now d. a = STick now d \<Longrightarrow> draws_ok d"
  shows "turn_inv gs s'"
proof (cases a)
  case (STick now d)
  then obtain msg g where "s_pending s = None" "Next encs now d (s_gens s ! generatorIndex s) = Some (msg, g)"
    "s' = s\<lparr>s_gens := (s_gens s)[generatorIndex s := g], s_pending := Some msg, totalSent := totalSent s + 1\<rparr>"
    using assms(2) by (auto simp: sim_exec_def split: if_splits)
  then show ?thesis using turn_inv_tick assms STick by blast
next
  case SSend
  then obtain msg c where m: "s_pending s = Some msg"
    "s' = s\<lparr>s_out := c, s_pending := None, sent := sent s @ [msg], generatorIndex := (generatorIndex s + 1) mod length (s_gens s)\<rparr>"
    using assms(2) by (auto simp: sim_exec_def split: if_splits option.splits send_result.splits)
  then have "made s' = made s" "(length (sent s) mod length gs + 1) mod length gs = length (sent s') mod length gs"
    by (simp_all add: made_def mod_Suc_eq)
  then show ?thesis using assms(1) m by (simp add: turn_inv_def)
next
  case SConsume
  then show ?thesis using assms by (auto simp: sim_exec_def turn_inv_def made_def split: recv_result.splits)
qed (use assms in \<open>auto simp: sim_exec_def turn_inv_def made_def split: if_splits\<close>)

definition good_draws :: "sim_act \<Rightarrow> bool" where
  "good_draws a = (case a of STick now d \<Rightarrow> draws_ok d | _ \<Rightarrow> True)"

lemma turn_inv_steps:
  "sim_steps encs as s = Some s' \<Longrightarrow> list_all good_draws as \<Longrightarrow> turn_inv gs s \<Longrightarrow> turn_inv gs s'"
proof (induction as arbitrary: s)
  case (Cons a as)
  then obtain s1 where "sim_exec encs a s = Some s1" "sim_steps encs as s1 = Some s'" by (auto split: Option.bind_splits)
  moreover have "turn_inv gs s1"
    by (rule turn_inv_step [OF Cons.prems(3) \<open>sim_exec encs a s = Some s1\<close>])
      (use Cons.prems(2) in \<open>simp add: good_draws_def\<close>)
  ultimately show ?case using Cons by simp
qed simp

lemma new_simulator_ok:
  assumes "\<forall>k. draws_ok (ds k)" and "g \<in> set (generators (NewSimulator config ds))"
  shows "gen_inv g \<and> gen_sequence g = 0"
  using add_generators_ok [OF assms(1)] assms(2) by (auto simp: NewSimulator_def Let_def)

section \<open>When it starts\<close>

definition known_types :: "bytes set" where
  "known_types = {''gps'', ''drone'', ''vehicle'', ''temperature''}"

lemma new_generator_None: "new_generator ty sid seed d = None \<longleftrightarrow> ty \<notin> known_types"
  by (auto simp: new_generator_def known_types_def)

lemma add_generators_Nil: "add_generators ds n ws = [] \<longleftrightarrow> (\<forall>w\<in>set ws. fst w \<notin> known_types)"
proof (induction ds n ws rule: add_generators.induct)
  case (2 ds n ty i rest)
  let ?g = "new_generator ty (ty @ ''-'' @ decimal i) (int n * 1000 + int i) (ds n)"
  show ?case
  proof (cases "ty \<in> known_types")
    case True
    then have "?g \<noteq> None" using new_generator_None by blast
    then show ?thesis using True by auto
  next
    case False
    then have "?g = None" using new_generator_None by blast
    then show ?thesis using False 2 by simp
  qed
qed simp

lemma no_generators:
  "generators (NewSimulator config ds) = [] \<longleftrightarrow>
     NumberOfSensors config \<le> 0 \<or> SensorTypes config \<noteq> [] \<and> set (SensorTypes config) \<inter> known_types = {}"
proof -
  have "(\<forall>w\<in>set (concat (map (\<lambda>ty. map (\<lambda>i. (ty, i)) [0..<nat (NumberOfSensors config)]) types)). fst w \<notin> known_types) \<longleftrightarrow>
      NumberOfSensors config \<le> 0 \<or> set types \<inter> known_types = {}" for types
  proof (cases "NumberOfSensors config \<le> 0")
    case False
    then have "0 \<in> {0..<nat (NumberOfSensors config)}" by simp
    then show ?thesis using False by fastforce
  qed simp
  note key = this
  let ?T = "if SensorTypes config = [] then [''gps'', ''drone'', ''vehicle'', ''temperature''] else SensorTypes config"
  have "generators (NewSimulator config ds) =
      add_generators ds 0 (concat (map (\<lambda>ty. map (\<lambda>i. (ty, i)) [0..<nat (NumberOfSensors config)]) ?T))"
    by (simp add: NewSimulator_def Let_def)
  then have "generators (NewSimulator config ds) = [] \<longleftrightarrow> NumberOfSensors config \<le> 0 \<or> set ?T \<inter> known_types = {}"
    using key [of ?T] add_generators_Nil by metis
  moreover have "set [''gps'', ''drone'', ''vehicle'', ''temperature''] \<inter> known_types \<noteq> {}"
    by (simp add: known_types_def)
  ultimately show ?thesis by (cases "SensorTypes config = []") (simp_all only: if_True if_False simp_thms refl)
qed

lemma ticker_interval_eq:
  "ticker_interval rate = (if 1 \<le> rate \<and> rate \<le> 1000 then Some (1000 div rate * millisecond) else None)"
proof -
  have "0 < 1000 div rate \<longleftrightarrow> rate \<le> 1000" if "1 \<le> rate"
    using that by (simp add: pos_imp_zdiv_pos_iff)
  moreover have "0 \<le> 1000 div (- rate)" if "rate < 0" using that by (intro pos_imp_zdiv_nonneg_iff [THEN iffD2]) auto
  ultimately show ?thesis by (auto simp: ticker_interval_def millisecond_def Let_def)
qed

section \<open>Properties\<close>

text \<open>
  \<open>Run\<close> starts exactly for a configuration with at least one sensor of a known type
  and a rate from 1 to 1000, and then ticks every \<open>1000 / rate\<close> milliseconds, rounded down, so at
  least at the rate asked for. Without a sensor it returns an error; with a rate that is zero,
  negative or above 1000 it panics.
\<close>

theorem simulator_starts:
  "map_sum id fst (Run (NewSimulator config ds) out) =
     (if NumberOfSensors config \<le> 0 \<or> SensorTypes config \<noteq> [] \<and> set (SensorTypes config) \<inter> known_types = {}
      then Inl NoSensors
      else if MessageRateHz config < 1 \<or> 1000 < MessageRateHz config then Inl Panic
      else Inr (1000 div MessageRateHz config * millisecond))"
proof -
  have "sim_config (NewSimulator config ds) = config" by (simp add: NewSimulator_def Let_def)
  then show ?thesis using no_generators [of config ds] by (auto simp: Run_def ticker_interval_eq)
qed

text \<open>
  Property C38. Every payload a generator of a new simulator ever makes is encodable (no NaN or
  infinity arises, however long it runs) and passes the server's validation; no call fails, and the
  sequence number counts the messages.
\<close>

theorem generated_payloads_valid:
  assumes "\<forall>k. draws_ok (ds k)" and "g \<in> set (generators (NewSimulator config ds))" and "list_all draws_ok us"
  shows "\<exists>g' xs. produce gen_data us g = Some (g', xs) \<and> length xs = length us \<and>
    list_all payload_ok xs \<and> gen_sequence g' = of_nat (length us)"
  using any.produce_ok [OF assms(3), of g] new_simulator_ok [OF assms(1,2)] by auto

text \<open>A source whose every draw is in the middle, and a simulator with one sensor of each of two types.\<close>

definition middle :: draws where "middle = (\<lambda>_. Fin (1 / 2), \<lambda>n. n div 2)"

lemma middle_ok: "draws_ok middle"
  by (auto simp: middle_def draws_ok_def in_range_def at_least_def at_most_def)

definition sample_config :: SimulatorConfig where
  "sample_config = \<lparr>NumberOfSensors = 1, MessageRateHz = 10, SensorTypes = [''gps'', ''radar'', ''temperature'']\<rparr>"

lemma sample_generators:
  "generators (NewSimulator sample_config (\<lambda>_. middle)) =
     [GPS (NewGPSSensorGenerator ''gps-0'' 0 middle), Temperature (NewTemperatureSensorGenerator ''temperature-0'' 1000 middle)]"
proof -
  have "decimal 0 = ''0''" by code_simp
  then show ?thesis by (simp add: NewSimulator_def sample_config_def new_generator_def Let_def)
qed

theorem generated_payloads_valid_witness:
  "\<exists>g' xs. produce gen_data [middle, middle, middle] (GPS (NewGPSSensorGenerator ''gps-0'' 0 middle)) = Some (g', xs) \<and>
     length xs = 3 \<and> list_all payload_ok xs \<and> gen_sequence g' = 3"
proof -
  have "GPS (NewGPSSensorGenerator ''gps-0'' 0 middle) \<in> set (generators (NewSimulator sample_config (\<lambda>_. middle)))"
    by (simp add: sample_generators)
  moreover have "list_all draws_ok [middle, middle, middle]" by (simp add: middle_ok)
  ultimately obtain g' xs where
    p: "produce gen_data [middle, middle, middle] (GPS (NewGPSSensorGenerator ''gps-0'' 0 middle)) = Some (g', xs)" and
    l: "length xs = length [middle, middle, middle]" and ok: "list_all payload_ok xs" and
    n: "gen_sequence g' = of_nat (length [middle, middle, middle])"
    using generated_payloads_valid [of "\<lambda>_. middle"] middle_ok by blast
  have "length xs = 3" "gen_sequence g' = 3" using l n by simp_all
  with p ok show ?thesis by blast
qed

text \<open>
  The simulator's sensors take turns: the \<open>k\<close>-th message it hands over comes from
  sensor \<open>k mod n\<close> of the \<open>n\<close> and is numbered \<open>k div n + 1\<close>, so each sensor's messages arrive
  numbered 1, 2, 3 and so on without a gap; the total it prints counts the messages made, of which at
  most one has not been handed over.
\<close>

theorem simulator_round_robin:
  assumes "\<forall>k. draws_ok (ds k)" and "Run (NewSimulator config ds) out = Inr (iv, s0)"
    and "list_all good_draws as" and "sim_steps encs as s0 = Some s"
    and "k < length (sent s)" and "n = length (generators (NewSimulator config ds))"
  shows "SensorID (sent s ! k) = gen_id (generators (NewSimulator config ds) ! (k mod n)) \<and>
    SensorType (sent s ! k) = gen_type (generators (NewSimulator config ds) ! (k mod n)) \<and>
    Sequence (sent s ! k) = of_nat (k div n + 1) \<and>
    totalSent s - int (length (sent s)) \<in> {0, 1}"
proof -
  have "turn_inv (generators (NewSimulator config ds)) s0"
    using turn_inv_start [OF assms(2)] new_simulator_ok [OF assms(1)] by blast
  then have t: "turn_inv (generators (NewSimulator config ds)) s" by (rule turn_inv_steps [OF assms(4,3)])
  have "k < length (made s)" "made s ! k = sent s ! k" using assms(5) by (simp_all add: made_def nth_append)
  moreover have "totalSent s - int (length (sent s)) \<in> {0, 1}"
    using t by (auto simp: turn_inv_def made_def split: option.split)
  ultimately show ?thesis using t assms(6) unfolding turn_inv_def by metis
qed

text \<open>Three ticks over two sensors.\<close>

definition sample_encoders :: encoders where
  "sample_encoders = \<lparr>enc_gps = (\<lambda>_. Some ''{}''), enc_drone = (\<lambda>_. Some ''{}''),
     enc_vehicle = (\<lambda>_. Some ''{}''), enc_temperature = (\<lambda>_. Some ''{}'')\<rparr>"

theorem simulator_round_robin_witness:
  "\<exists>s0 s. Run (NewSimulator sample_config (\<lambda>_. middle)) (make_chan 5) = Inr (100 * millisecond, s0) \<and>
     sim_steps sample_encoders [STick 1 middle, SSend, STick 2 middle, SSend, STick 3 middle, SSend] s0 = Some s \<and>
     SensorID (sent s ! 2) = ''gps-0'' \<and> Sequence (sent s ! 2) = 2"
proof -
  obtain s0 where s0: "Run (NewSimulator sample_config (\<lambda>_. middle)) (make_chan 5) = Inr (100 * millisecond, s0)"
    "s_gens s0 = generators (NewSimulator sample_config (\<lambda>_. middle))" "generatorIndex s0 = 0" "s_pending s0 = None"
    "s_out s0 = make_chan 5" "\<not> s_returned s0" "sent s0 = []"
  proof -
    have "sim_config (NewSimulator sample_config (\<lambda>_. middle)) = sample_config" by (simp add: NewSimulator_def Let_def)
    moreover have "MessageRateHz sample_config = 10" by (simp add: sample_config_def)
    ultimately show ?thesis using that by (simp add: Run_def sample_generators ticker_interval_eq)
  qed
  let ?as = "[STick 1 middle, SSend, STick 2 middle, SSend, STick 3 middle, SSend]"
  have "\<exists>s. sim_steps sample_encoders ?as s0 = Some s \<and> length (sent s) = 3"
    using s0(2-) by (simp add: sim_exec_def sample_generators GPS_Next_def Temperature_Next_def case_prod_unfold
        Let_def chan_send_def make_chan_def map_prod_def)
  then obtain s where s: "sim_steps sample_encoders ?as s0 = Some s" "length (sent s) = 3" by blast
  have "list_all good_draws ?as" by (simp add: good_draws_def middle_ok)
  then have "SensorID (sent s ! 2) = ''gps-0'' \<and> Sequence (sent s ! 2) = 2"
    using simulator_round_robin [OF _ s0(1) _ s(1), of 2 2] s(2) by (simp add: middle_ok sample_generators)
  with s0(1) s(1) show ?thesis by blast
qed

end
