(* ===== verification/Sender.thy ===== *)
theory Sender
  imports Message_Lines Udp Tcp
begin

text \<open>
  internal/simulator/sender.go: sending messages to a server over UDP or TCP. A connection is the
  list of the writes it has carried; the outcome of dialling and of each write is given by the
  environment, a failing write on a stream having sent some of its bytes.
\<close>

section \<open>Connections\<close>

datatype 'e net_error = NetClosed | NetError 'e

record net_conn =
  writes :: "bytes list"
  shut :: bool

definition new_net_conn :: net_conn where
  "new_net_conn = \<lparr>writes = [], shut = False\<rparr>"

text \<open>A write: None is success, \<open>Some (n, e)\<close> the error \<open>e\<close> after \<open>n\<close> bytes.\<close>

definition net_write :: "(nat \<times> 'e) option \<Rightarrow> bytes \<Rightarrow> net_conn \<Rightarrow> 'e net_error option \<times> net_conn" where
  "net_write io d c =
     (if shut c then (Some NetClosed, c)
      else case io of
        None \<Rightarrow> (None, c\<lparr>writes := writes c @ [d]\<rparr>)
      | Some (n, e) \<Rightarrow> (Some (NetError e), c\<lparr>writes := writes c @ (if n = 0 then [] else [take n d])\<rparr>))"

definition net_close :: "net_conn \<Rightarrow> 'e net_error option \<times> net_conn" where
  "net_close c = (if shut c then (Some NetClosed, c) else (None, c\<lparr>shut := True\<rparr>))"

section \<open>Senders\<close>

datatype Sender = udpSender net_conn | tcpSender net_conn

datatype 'e send_error = DialUDP bytes 'e | DialTCP bytes 'e | UnsupportedProtocol bytes
  | MarshalMessage | SendUDPDatagram "'e net_error" | SendTCPMessage "'e net_error"

text \<open>\<open>dial\<close> is the error \<open>net.Dial\<close> returns, if any.\<close>

definition NewSender :: "bytes \<Rightarrow> bytes \<Rightarrow> 'e option \<Rightarrow> 'e send_error + Sender" where
  "NewSender protocolName target dial =
     (if protocolName = ''udp'' then (case dial of
          Some err \<Rightarrow> Inl (DialUDP target err)
        | None \<Rightarrow> Inr (udpSender new_net_conn))
      else if protocolName = ''tcp'' then (case dial of
          Some err \<Rightarrow> Inl (DialTCP target err)
        | None \<Rightarrow> Inr (tcpSender new_net_conn))
      else Inl (UnsupportedProtocol protocolName))"

definition udpSender_Send :: "(nat \<times> 'e) option \<Rightarrow> int \<Rightarrow> TelemetryMessage \<Rightarrow> net_conn \<Rightarrow> 'e send_error option \<times> net_conn" where
  "udpSender_Send io zone msg c =
     (case marshal_message zone msg of
        None \<Rightarrow> (Some MarshalMessage, c)
      | Some data \<Rightarrow> (case net_write io data c of
            (Some err, c') \<Rightarrow> (Some (SendUDPDatagram err), c')
          | (None, c') \<Rightarrow> (None, c')))"

definition tcpSender_Send :: "(nat \<times> 'e) option \<Rightarrow> int \<Rightarrow> TelemetryMessage \<Rightarrow> net_conn \<Rightarrow> 'e send_error option \<times> net_conn" where
  "tcpSender_Send io zone msg c =
     (case marshal_message zone msg of
        None \<Rightarrow> (Some MarshalMessage, c)
      | Some data \<Rightarrow> (case net_write io (data @ [newline]) c of
            (Some err, c') \<Rightarrow> (Some (SendTCPMessage err), c')
          | (None, c') \<Rightarrow> (None, c')))"

text \<open>The two methods of the interface, by the dynamic type.\<close>

definition Send :: "(nat \<times> 'e) option \<Rightarrow> int \<Rightarrow> TelemetryMessage \<Rightarrow> Sender \<Rightarrow> 'e send_error option \<times> Sender" where
  "Send io zone msg s = (case s of
       udpSender c \<Rightarrow> (let (e, c') = udpSender_Send io zone msg c in (e, udpSender c'))
     | tcpSender c \<Rightarrow> (let (e, c') = tcpSender_Send io zone msg c in (e, tcpSender c')))"

definition Sender_Close :: "Sender \<Rightarrow> 'e net_error option \<times> Sender" where
  "Sender_Close s = (case s of
       udpSender c \<Rightarrow> (let (e, c') = net_close c in (e, udpSender c'))
     | tcpSender c \<Rightarrow> (let (e, c') = net_close c in (e, tcpSender c')))"

section \<open>The contract of a sender\<close>

text \<open>
  A sender writes each message as one frame: a message that cannot be marshalled is an error and
  writes nothing, nor does anything once the sender is closed.
\<close>

locale framing =
  fixes send :: "(nat \<times> unit) option \<Rightarrow> int \<Rightarrow> TelemetryMessage \<Rightarrow> net_conn \<Rightarrow> unit send_error option \<times> net_conn"
    and frame :: "bytes \<Rightarrow> bytes"
  assumes sent: "marshal_message zone m = Some b \<Longrightarrow> \<not> shut c \<Longrightarrow> send None zone m c = (None, c\<lparr>writes := writes c @ [frame b]\<rparr>)"
    and unsendable: "marshal_message zone m = None \<Longrightarrow> send io zone m c = (Some MarshalMessage, c)"
    and after_close: "shut c \<Longrightarrow> snd (send io zone m c) = c \<and> fst (send io zone m c) \<noteq> None"
begin

fun send_all :: "(int \<times> TelemetryMessage) list \<Rightarrow> net_conn \<Rightarrow> net_conn" where
  "send_all [] c = c"
| "send_all ((zone, m) # zms) c = send_all zms (snd (send None zone m c))"

lemma send_all_frames: "\<not> shut c \<Longrightarrow> writes (send_all zms c) = writes c @ map frame (lines_of zms)"
proof (induction zms arbitrary: c)
  case (Cons zm zms)
  obtain zone m where zm: "zm = (zone, m)" by fastforce
  show ?case
    using Cons sent [of zone m _ c] unsendable [of zone m None c] by (cases "marshal_message zone m") (simp_all add: zm)
qed simp

lemma send_all_closed: "shut c \<Longrightarrow> send_all zms c = c"
  by (induction zms) (auto simp: after_close)

end

interpretation udp_framing: framing udpSender_Send "\<lambda>b. b"
  by unfold_locales (auto simp: udpSender_Send_def net_write_def split: option.split)


section \<open>A client's messages at the server\<close>

text \<open>Sending several messages, each write succeeding; a message comes with the zone of its timestamp.\<close>

fun send_messages :: "(int \<times> TelemetryMessage) list \<Rightarrow> Sender \<Rightarrow> Sender" where
  "send_messages [] s = s"
| "send_messages ((zone, m) # zms) s = send_messages zms (snd (Send (None :: (nat \<times> unit) option) zone m s))"


lemma send_messages_udp: "send_messages zms (udpSender c) = udpSender (udp_framing.send_all zms c)"
  by (induction zms arbitrary: c) (auto simp: Send_def case_prod_unfold Let_def)

text \<open>What the server makes of a message it gets at a time.\<close>

definition receipt :: "time \<Rightarrow> TelemetryMessage \<Rightarrow> parse_error + TelemetryMessage" where
  "receipt now m = (case ValidateTelemetryMessage now (canonical m) of
       Some e \<Rightarrow> Inl (Invalid e)
     | None \<Rightarrow> Inr (canonical m))"

lemma line_receipt:
  assumes "marshal_message zone m = Some b" and "data_reads m"
  shows "ParseTelemetryMessage now b = receipt now m"
  using unmarshal_marshal [OF assms] by (simp add: ParseTelemetryMessage_def receipt_def split: option.split)

text \<open>Messages that fit the frames of a transport.\<close>

definition sendable :: "nat \<Rightarrow> (int \<times> TelemetryMessage) list \<Rightarrow> bool" where
  "sendable limit zms = (\<forall>(zone, m)\<in>set zms. data_reads m \<and>
     (\<exists>b. marshal_message zone m = Some b \<and> length b < limit))"

lemma sendable_Cons [simp]:
  "sendable limit ((zone, m) # zms) \<longleftrightarrow>
     data_reads m \<and> (\<exists>b. marshal_message zone m = Some b \<and> length b < limit) \<and> sendable limit zms"
  by (auto simp: sendable_def)

lemma sendable_lines:
  "sendable limit zms \<Longrightarrow> length (lines_of zms) = length zms \<and>
     (\<forall>l\<in>set (lines_of zms). newline \<notin> set l \<and> drop_cr l = l \<and> l \<noteq> [] \<and> length l < limit)"
proof (induction zms)
  case (Cons zm zms)
  obtain zone m where zm: "zm = (zone, m)" by fastforce
  then obtain b where b: "marshal_message zone m = Some b" "data_reads m" "length b < limit" "sendable limit zms"
    using Cons.prems by auto
  then show ?case using Cons.IH marshalled_line [OF b(1,2)] zm by simp
qed simp

lemma receipts_of_lines:
  assumes "sendable limit zms" and "length nows = length zms"
  shows "map (\<lambda>(now, line). ParseTelemetryMessage now line) (zip nows (lines_of zms)) =
    map2 receipt nows (map snd zms)"
  using assms
proof (induction zms arbitrary: nows)
  case (Cons zm zms)
  obtain zone m where zm: "zm = (zone, m)" by fastforce
  obtain now nows' where n: "nows = now # nows'" "length nows' = length zms" using Cons.prems(2) by (cases nows) auto
  obtain b where b: "marshal_message zone m = Some b" "data_reads m" "sendable limit zms"
    using Cons.prems(1) zm by auto
  then show ?case using Cons.IH [OF b(3) n(2)] line_receipt [OF b(1,2)] zm n(1) by simp
qed simp

text \<open>The datagrams a schedule of the listener reads, with the time each is read.\<close>

fun datagram_of :: "udp_act \<Rightarrow> (time \<times> bytes) list" where
  "datagram_of (Datagram now remote dgram) = [(now, dgram)]"
| "datagram_of _ = []"

definition datagrams :: "udp_act list \<Rightarrow> (time \<times> bytes) list" where
  "datagrams as = concat (map datagram_of as)"

lemma outcomes_datagrams:
  assumes "\<forall>(now, d)\<in>set (datagrams as). d \<noteq> [] \<and> length d \<le> 65507"
  shows "outcomes as = map (\<lambda>(now, d). ParseTelemetryMessage now d) (datagrams as)"
  using assms
proof (induction as)
  case (Cons a as)
  then show ?case by (cases a) (auto simp: outcomes_def datagrams_def)
qed (simp add: outcomes_def datagrams_def)

section \<open>Properties\<close>


lemma sample_sendable: "1000 \<le> limit \<Longrightarrow> sendable limit [(0, sample_input_message)]"
  using marshal_sample accepted_decoded [OF good_input_accepted]
  by (simp add: decoded_def sendable_def) (simp add: good_input_def)

lemma sample_sent:
  "send_messages [(0, sample_input_message)] (tcpSender new_net_conn) =
     tcpSender \<lparr>writes = [good_input @ [newline]], shut = False\<rparr>"
  "send_messages [(0, sample_input_message)] (udpSender new_net_conn) =
     udpSender \<lparr>writes = [good_input], shut = False\<rparr>"
  by (simp_all add: Send_def tcpSender_Send_def udpSender_Send_def net_write_def marshal_sample new_net_conn_def)

lemma sample_receipt: "receipt sample_now sample_input_message = Inr sample_input_message"
  using line_receipt [OF marshal_sample, of sample_now] accepted_decoded [OF good_input_accepted] good_input_accepted
  by (simp add: decoded_def)


text \<open>
  Over UDP the datagrams may be lost, doubled and reordered on their way; every one that
  the server reads still yields exactly one result, the validation, at the time of reading, of the
  message that was sent in it.
\<close>

theorem sent_over_udp_received:
  assumes "NewSender ''udp'' target (None :: unit option) = Inr s" and "send_messages zms s = udpSender c"
    and "sendable 65508 zms"
    and "list_all (\<lambda>k. k < length zms) ks" and "map snd (datagrams as) = map (\<lambda>k. writes c ! k) ks"
  shows "outcomes as = map2 receipt (map fst (datagrams as)) (map (\<lambda>k. snd (zms ! k)) ks)"
proof -
  let ?ls = "lines_of zms"
  have "s = udpSender new_net_conn" using assms(1) by (simp add: NewSender_def)
  then have "c = udp_framing.send_all zms new_net_conn" using assms(2) send_messages_udp by auto
  then have w: "writes c = ?ls"
    using udp_framing.send_all_frames [of new_net_conn zms] by (simp add: new_net_conn_def)
  have ls: "length ?ls = length zms" "\<forall>l\<in>set ?ls. l \<noteq> [] \<and> length l < 65508"
    using sendable_lines [OF assms(3)] by auto
  have line: "ParseTelemetryMessage now (?ls ! k) = receipt now (snd (zms ! k))" "?ls ! k \<noteq> []" "length (?ls ! k) \<le> 65507"
    if "k < length zms" for now k
  proof -
    have "map (\<lambda>(now, line). ParseTelemetryMessage now line) (zip (replicate (length zms) now) ?ls) ! k =
        map2 receipt (replicate (length zms) now) (map snd zms) ! k"
      using receipts_of_lines [OF assms(3), of "replicate (length zms) now"] by simp
    then show "ParseTelemetryMessage now (?ls ! k) = receipt now (snd (zms ! k))" using that ls(1) by simp
    have "?ls ! k \<in> set ?ls" using that ls(1) by simp
    then show "?ls ! k \<noteq> []" "length (?ls ! k) \<le> 65507" using ls(2) by fastforce+
  qed
  have "outcomes as = map (\<lambda>(now, d). ParseTelemetryMessage now d) (datagrams as)"
  proof (rule outcomes_datagrams, intro ballI)
    fix p assume "p \<in> set (datagrams as)"
    then have "snd p \<in> (\<lambda>k. writes c ! k) ` set ks" using assms(5) by (metis image_eqI list.set_map)
    then obtain k where k: "snd p = ?ls ! k" "k < length zms" using w assms(4) by (auto simp: list_all_iff)
    then show "case p of (now, d) \<Rightarrow> d \<noteq> [] \<and> length d \<le> 65507"
      using line(2,3) [OF k(2)] by (simp add: case_prod_unfold)
  qed
  also have "\<dots> = map (\<lambda>(now, d). ParseTelemetryMessage now d) (zip (map fst (datagrams as)) (map (\<lambda>k. ?ls ! k) ks))"
    using assms(5) zip_map_fst_snd [of "datagrams as"] w by simp
  also have "\<dots> = map2 receipt (map fst (datagrams as)) (map (\<lambda>k. snd (zms ! k)) ks)"
  proof -
    have "map (\<lambda>(now, d). ParseTelemetryMessage now d) (zip ns (map (\<lambda>k. ?ls ! k) ks)) = map2 receipt ns (map (\<lambda>k. snd (zms ! k)) ks)"
      for ns using assms(4)
    proof (induction ks arbitrary: ns)
      case (Cons k ks)
      then show ?case using line(1) by (cases ns) auto
    qed simp
    then show ?thesis .
  qed
  finally show ?thesis .
qed

theorem sent_over_udp_received_witness:
  "outcomes [Top, Datagram sample_now ''a'' good_input, Offer, Top, Datagram sample_now ''a'' good_input] =
     [Inr sample_input_message, Inr sample_input_message]"
proof -
  let ?as = "[Top, Datagram sample_now ''a'' good_input, Offer, Top, Datagram sample_now ''a'' good_input]"
  have new: "NewSender ''udp'' ''h'' (None :: unit option) = Inr (udpSender new_net_conn)" by (simp add: NewSender_def)
  have d: "datagrams ?as = [(sample_now, good_input), (sample_now, good_input)]" by (simp add: datagrams_def)
  have ok: "sendable 65508 [(0, sample_input_message)]" by (rule sample_sendable) simp
  show ?thesis
    using sent_over_udp_received [OF new sample_sent(2) ok, of "[0, 0]" ?as] unfolding d by (simp add: sample_receipt)
qed

end
