(* ===== verification/Simulator_Program.thy ===== *)
theory Simulator_Program
  imports Simulator Sender
begin

text \<open>
  cmd/simulator/main.go: the simulator program. A goroutine runs the simulator and closes the channel of
  messages when \<open>Run\<close> returns; \<open>main\<close> receives the messages, sends them on if there is a target, and
  returns on a signal or when the channel is closed. Printing is not modelled, and with it the flag
  \<open>--verbose\<close>.
\<close>

section \<open>The list of sensor types\<close>

text \<open>\<open>strings.Split\<close> with a separator of one byte.\<close>

fun split_on :: "char \<Rightarrow> bytes \<Rightarrow> bytes list" where
  "split_on c [] = [[]]"
| "split_on c (x # xs) = (if x = c then [] # split_on c xs
     else case split_on c xs of [] \<Rightarrow> [[x]] | p # ps \<Rightarrow> (x # p) # ps)"

text \<open>The UTF-8 encodings of the characters \<open>unicode.IsSpace\<close> accepts.\<close>

definition white_space :: "bytes list" where
  "white_space = [[CHR 0x09], [CHR 0x0A], [CHR 0x0B], [CHR 0x0C], [CHR 0x0D], [CHR 0x20],
     [CHR 0xC2, CHR 0x85], [CHR 0xC2, CHR 0xA0], [CHR 0xE1, CHR 0x9A, CHR 0x80]] @
     map (\<lambda>n. [CHR 0xE2, CHR 0x80, char_of (0x80 + n)]) [0..<11] @
     [[CHR 0xE2, CHR 0x80, CHR 0xA8], [CHR 0xE2, CHR 0x80, CHR 0xA9], [CHR 0xE2, CHR 0x80, CHR 0xAF],
      [CHR 0xE2, CHR 0x81, CHR 0x9F], [CHR 0xE3, CHR 0x80, CHR 0x80]]"

definition starts_with :: "bytes \<Rightarrow> bytes \<Rightarrow> bool" where
  "starts_with s w = (w \<noteq> [] \<and> take (length w) s = w)"

function strip :: "bytes list \<Rightarrow> bytes \<Rightarrow> bytes" where
  "strip ws s = (case find (starts_with s) ws of None \<Rightarrow> s | Some w \<Rightarrow> strip ws (drop (length w) s))"
  by pat_completeness auto
termination
proof (relation "measure (\<lambda>(ws, s). length s)")
  fix ws s w assume "find (starts_with s) ws = Some w"
  then have "starts_with s w" by (auto simp: find_Some_iff)
  then show "((ws, drop (length w) s), (ws, s)) \<in> measure (\<lambda>(ws, s). length s)"
    by (cases s) (auto simp: starts_with_def)
qed simp

declare strip.simps [simp del]

text \<open>\<open>strings.TrimSpace\<close>.\<close>

definition TrimSpace :: "bytes \<Rightarrow> bytes" where
  "TrimSpace s = rev (strip (map rev white_space) (rev (strip white_space s)))"

section \<open>The program\<close>

record sim_flags =
  numSensors :: goint
  rateHz :: goint
  types :: bytes
  protocolName :: bytes
  target :: bytes

definition default_sim_flags :: sim_flags where
  "default_sim_flags = \<lparr>numSensors = 5, rateHz = 10, types = ''gps,drone,vehicle,temperature'', protocolName = ''udp'',
     target = []\<rparr>"

definition sensorTypes :: "sim_flags \<Rightarrow> bytes list" where
  "sensorTypes fl = map TrimSpace (split_on (CHR '','') (types fl))"

definition sim_config_of :: "sim_flags \<Rightarrow> SimulatorConfig" where
  "sim_config_of fl = \<lparr>NumberOfSensors = numSensors fl, MessageRateHz = rateHz fl, SensorTypes = sensorTypes fl\<rparr>"

text \<open>\<open>sm_received\<close> and \<open>sm_failed\<close> are ghost history: the messages \<open>main\<close> has received, each with the zone
  of its timestamp, and whether a write to the network has failed.\<close>

datatype sim_phase = MLooping | MReturned

record SimMain =
  sm_run :: sim_run
  sm_sender :: "Sender option"
  sm_count :: goint
  sm_phase :: sim_phase
  sm_received :: "(int \<times> TelemetryMessage) list"
  sm_failed :: bool

datatype sim_start = SimStarted SimMain | SimExits | SimPanics

text \<open>A run that returned at once, having used only the channel.\<close>

definition returned_run :: "TelemetryMessage chan \<Rightarrow> sim_run" where
  "returned_run out = \<lparr>s_gens = [], generatorIndex = 0, totalSent = 0, s_pending = None, s_out = out,
     s_ctxDone = False, s_returned = True, sent = []\<rparr>"

definition launch :: "Simulator \<Rightarrow> Sender option \<Rightarrow> sim_start" where
  "launch sim sender =
     (let start = (\<lambda>r. SimStarted \<lparr>sm_run = r, sm_sender = sender, sm_count = 0, sm_phase = MLooping,
            sm_received = [], sm_failed = False\<rparr>)
      in case Run sim (make_chan 100) of
          Inl NoSensors \<Rightarrow> start (returned_run (make_chan 100))
        | Inl Panic \<Rightarrow> SimPanics
        | Inr (interval, r) \<Rightarrow> start r)"

definition simulator_main :: "sim_flags \<Rightarrow> (nat \<Rightarrow> draws) \<Rightarrow> unit option \<Rightarrow> sim_start" where
  "simulator_main fl ds dial =
     (let sim = NewSimulator (sim_config_of fl) ds
      in if target fl \<noteq> [] then (case NewSender (protocolName fl) (target fl) dial of
             Inl err \<Rightarrow> SimExits
           | Inr sender \<Rightarrow> launch sim (Some sender))
         else launch sim None)"

text \<open>The steps of the goroutine that runs the simulator, and those of \<open>main\<close>: a signal, and a receive
  with the outcome of the write it leads to.\<close>

datatype sim_main_act = MTick time draws | MSend | MSeeDone | MClose | MSignal | MReceive int "(nat \<times> unit) option"

text \<open>The deferred \<open>sender.Close\<close> and \<open>cancel\<close>.\<close>

definition main_returns :: "SimMain \<Rightarrow> SimMain" where
  "main_returns s = s\<lparr>sm_phase := MReturned, sm_run := (sm_run s)\<lparr>s_ctxDone := True\<rparr>,
     sm_sender := map_option (\<lambda>x. snd (Sender_Close x :: unit net_error option \<times> Sender)) (sm_sender s)\<rparr>"

definition main_receives :: "int \<Rightarrow> (nat \<times> unit) option \<Rightarrow> TelemetryMessage \<Rightarrow> SimMain \<Rightarrow> SimMain" where
  "main_receives zone io msg s = s\<lparr>sm_count := sm_count s + 1, sm_received := sm_received s @ [(zone, msg)],
     sm_sender := map_option (\<lambda>x. snd (Send io zone msg x)) (sm_sender s),
     sm_failed := (sm_failed s \<or> io \<noteq> None)\<rparr>"

definition sim_main_exec :: "encoders \<Rightarrow> sim_main_act \<Rightarrow> SimMain \<Rightarrow> SimMain option" where
  "sim_main_exec encs a s =
     (if sm_phase s = MReturned then None
      else let goroutine = (\<lambda>b. map_option (\<lambda>r. s\<lparr>sm_run := r\<rparr>) (sim_exec encs b (sm_run s)))
        in case a of
          MTick now d \<Rightarrow> goroutine (STick now d)
        | MSend \<Rightarrow> goroutine SSend
        | MSeeDone \<Rightarrow> goroutine SSeeDone
        | MClose \<Rightarrow> if s_returned (sm_run s)
            then map_option (\<lambda>c. s\<lparr>sm_run := (sm_run s)\<lparr>s_out := c\<rparr>\<rparr>) (chan_close (s_out (sm_run s))) else None
        | MSignal \<Rightarrow> Some (main_returns s)
        | MReceive zone io \<Rightarrow> (case chan_recv (s_out (sm_run s)) of
              Received msg c \<Rightarrow> Some (main_receives zone io msg (s\<lparr>sm_run := (sm_run s)\<lparr>s_out := c\<rparr>\<rparr>))
            | RecvClosed \<Rightarrow> Some (main_returns s)
            | RecvBlocks \<Rightarrow> None))"

fun sim_main_run :: "encoders \<Rightarrow> sim_main_act list \<Rightarrow> SimMain \<Rightarrow> SimMain option" where
  "sim_main_run encs [] s = Some s"
| "sim_main_run encs (a # as) s = Option.bind (sim_main_exec encs a s) (sim_main_run encs as)"

section \<open>Splitting and trimming\<close>

lemma split_on_ne [simp]: "split_on c s \<noteq> []"
  by (induction s) (auto split: list.split)

text \<open>Splitting is undone by joining, and leaves no separator.\<close>

fun join_with :: "char \<Rightarrow> bytes list \<Rightarrow> bytes" where
  "join_with c [] = []"
| "join_with c [p] = p"
| "join_with c (p # ps) = p @ c # join_with c ps"

lemma join_with_Cons: "ps \<noteq> [] \<Longrightarrow> join_with c (p # ps) = p @ c # join_with c ps"
  by (cases ps) simp_all

lemma join_split: "join_with c (split_on c s) = s \<and> (\<forall>p\<in>set (split_on c s). c \<notin> set p)"
proof (induction s)
  case (Cons x s)
  obtain p ps where p: "split_on c s = p # ps" by (cases "split_on c s") auto
  show ?case
  proof (cases "x = c")
    case True
    then show ?thesis using Cons by (simp add: join_with_Cons)
  next
    case False
    then show ?thesis using Cons p by (cases ps) auto
  qed
qed simp

lemma strip_stops: "find (starts_with (strip ws s)) ws = None"
proof (induction ws s rule: strip.induct)
  case (1 ws s)
  then show ?case by (subst (1) strip.simps) (auto split: option.split)
qed

lemma strip_suffix: "\<exists>pre. s = pre @ strip ws s"
proof (induction ws s rule: strip.induct)
  case (1 ws s)
  show ?case
  proof (cases "find (starts_with s) ws")
    case (Some w)
    then obtain pre where "drop (length w) s = pre @ strip ws (drop (length w) s)" using 1 by blast
    moreover have "strip ws s = strip ws (drop (length w) s)" using Some by (subst strip.simps) simp
    ultimately have "s = (take (length w) s @ pre) @ strip ws s" using append_take_drop_id [of "length w" s] by simp
    then show ?thesis by blast
  qed (subst strip.simps, simp)
qed

lemma strip_none: "find (starts_with s) ws = None \<Longrightarrow> strip ws s = s"
  by (subst strip.simps) simp

lemma plain_types: "TrimSpace s = s" if "s \<in> known_types \<or> s = []"
proof -
  have "\<forall>s\<in>{''gps'', ''drone'', ''vehicle'', ''temperature'', []}.
      find (starts_with s) white_space = None \<and> find (starts_with (rev s)) (map rev white_space) = None"
    by code_simp
  then show ?thesis using that by (auto simp: TrimSpace_def strip_none known_types_def)
qed

section \<open>Invariant\<close>

definition all_generators :: "sim_flags \<Rightarrow> (nat \<Rightarrow> draws) \<Rightarrow> SensorGenerator list" where
  "all_generators fl ds = generators (NewSimulator (sim_config_of fl) ds)"

text \<open>While the program runs, with and without sensors.\<close>

fun main_draws :: "sim_main_act \<Rightarrow> bool" where
  "main_draws (MTick now d) = draws_ok d"
| "main_draws _ = True"

definition run_ok :: "SensorGenerator list \<Rightarrow> SimMain \<Rightarrow> bool" where
  "run_ok gs s = (if gs = [] then s_returned (sm_run s) \<and> sent (sm_run s) = []
     else turn_inv gs (sm_run s) \<and> (sm_phase s = MLooping \<longrightarrow> \<not> s_ctxDone (sm_run s)) \<and>
       \<not> s_returned (sm_run s) \<and> \<not> closed (s_out (sm_run s)))"

definition chan_flow_ok :: "SimMain \<Rightarrow> bool" where
  "chan_flow_ok s = (sent (sm_run s) = map snd (sm_received s) @ buf (s_out (sm_run s)) \<and>
     chan_cap (s_out (sm_run s)) = 100 \<and> length (buf (s_out (sm_run s))) \<le> 100 \<and>
     sm_count s = int (length (sm_received s)))"

definition sender_ok :: "Sender option \<Rightarrow> SimMain \<Rightarrow> bool" where
  "sender_ok sender s = (\<not> sm_failed s \<and> sm_phase s = MLooping \<longrightarrow>
     sm_sender s = map_option (send_messages (sm_received s)) sender)"

lemma send_messages_snoc:
  "send_messages (zms @ [(zone, m)]) x = snd (Send (None :: (nat \<times> unit) option) zone m (send_messages zms x))"
  by (induction zms arbitrary: x) auto

lemma launch_cases:
  assumes "launch sim sender = SimStarted s"
  obtains (idle) "generators sim = []" "s = \<lparr>sm_run = returned_run (make_chan 100), sm_sender = sender, sm_count = 0,
      sm_phase = MLooping, sm_received = [], sm_failed = False\<rparr>"
  | (runs) iv r where "generators sim \<noteq> []" "Run sim (make_chan 100) = Inr (iv, r)" "s_out r = make_chan 100"
      "sent r = []" "\<not> s_ctxDone r" "\<not> s_returned r"
      "s = \<lparr>sm_run = r, sm_sender = sender, sm_count = 0, sm_phase = MLooping, sm_received = [], sm_failed = False\<rparr>"
  using assms
  by (auto simp: launch_def Run_def Let_def split: if_splits option.splits run_error.splits sum.splits)

lemma simulator_main_launch:
  "simulator_main fl ds dial = SimStarted s \<Longrightarrow> \<exists>sender. launch (NewSimulator (sim_config_of fl) ds) sender = SimStarted s"
  by (auto simp: simulator_main_def Let_def split: if_splits sum.splits)

lemma main_start_ok:
  assumes "simulator_main fl ds dial = SimStarted s" and "\<forall>k. draws_ok (ds k)"
  shows "run_ok (all_generators fl ds) s \<and> chan_flow_ok s \<and> sender_ok (sm_sender s) s"
proof -
  obtain sender where "launch (NewSimulator (sim_config_of fl) ds) sender = SimStarted s"
    using simulator_main_launch [OF assms(1)] by blast
  then show ?thesis
  proof (cases rule: launch_cases)
    case idle
    then show ?thesis
      by (cases sender) (simp_all add: run_ok_def chan_flow_ok_def sender_ok_def all_generators_def returned_run_def)
  next
    case (runs iv r)
    have "turn_inv (all_generators fl ds) r"
      using turn_inv_start [OF runs(2)] new_simulator_ok [OF assms(2)] by (simp add: all_generators_def)
    then show ?thesis using runs
      by (cases sender) (simp_all add: run_ok_def chan_flow_ok_def sender_ok_def all_generators_def)
  qed
qed

text \<open>The goroutine's steps.\<close>

lemma turn_inv_out [simp]:
  "turn_inv gs (r\<lparr>s_out := c\<rparr>) = turn_inv gs r" "turn_inv gs (r\<lparr>s_ctxDone := b\<rparr>) = turn_inv gs r"
  by (simp_all add: turn_inv_def made_def)

lemma goroutine_keeps:
  assumes "sim_exec encs b r = Some r'" and "b \<in> {STick now d, SSend, SSeeDone}"
  shows "s_ctxDone r' = s_ctxDone r \<and> chan_cap (s_out r') = chan_cap (s_out r) \<and> closed (s_out r') = closed (s_out r) \<and>
    (s_returned r' \<longrightarrow> s_returned r \<or> s_ctxDone r) \<and>
    (\<exists>ms. sent r' = sent r @ ms \<and> buf (s_out r') = buf (s_out r) @ ms \<and>
       (length (buf (s_out r)) \<le> chan_cap (s_out r) \<longrightarrow> length (buf (s_out r')) \<le> chan_cap (s_out r))) \<and>
    (s_returned r \<longrightarrow> s_returned r' \<and> sent r' = sent r)"
  using assms by (auto simp: sim_exec_def chan_send_def split: if_splits option.splits)

lemma goroutine_ok:
  assumes inv: "run_ok gs s" "chan_flow_ok s" "sender_ok sender s" and ph: "sm_phase s = MLooping"
    and ex: "sim_exec encs b (sm_run s) = Some r" and b: "b \<in> {STick now d, SSend, SSeeDone}" and "draws_ok d"
  shows "run_ok gs (s\<lparr>sm_run := r\<rparr>) \<and> chan_flow_ok (s\<lparr>sm_run := r\<rparr>) \<and> sender_ok sender (s\<lparr>sm_run := r\<rparr>)"
proof -
  note k = goroutine_keeps [OF ex b]
  have "turn_inv gs r" if "turn_inv gs (sm_run s)"
    by (rule turn_inv_step [OF that ex]) (use b assms(7) in auto)
  then have "run_ok gs (s\<lparr>sm_run := r\<rparr>)" using inv(1) k ph by (auto simp: run_ok_def split: if_splits)
  moreover have "chan_flow_ok (s\<lparr>sm_run := r\<rparr>)" using inv(2) k by (auto simp: chan_flow_ok_def)
  moreover have "sender_ok sender (s\<lparr>sm_run := r\<rparr>)" using inv(3) by (simp add: sender_ok_def)
  ultimately show ?thesis by blast
qed

lemma main_returns_ok:
  assumes "run_ok gs s" "chan_flow_ok s"
  shows "run_ok gs (main_returns s) \<and> chan_flow_ok (main_returns s) \<and> sender_ok sender (main_returns s)"
  using assms by (cases "gs = []") (simp_all add: run_ok_def chan_flow_ok_def sender_ok_def main_returns_def)

lemma sim_main_step_ok:
  assumes inv: "run_ok gs s" "chan_flow_ok s" "sender_ok sender s" and ex: "sim_main_exec encs a s = Some s'"
    and d: "main_draws a"
  shows "run_ok gs s' \<and> chan_flow_ok s' \<and> sender_ok sender s'"
proof -
  have ph: "sm_phase s = MLooping" using ex by (cases "sm_phase s") (simp_all add: sim_main_exec_def)
  obtain d0 where d0: "draws_ok d0" using middle_ok by blast
  show ?thesis
  proof (cases a)
    case (MTick now dr)
    then obtain r where r: "sim_exec encs (STick now dr) (sm_run s) = Some r" "s' = s\<lparr>sm_run := r\<rparr>"
      using ex ph by (auto simp: sim_main_exec_def)
    show ?thesis unfolding r(2) by (rule goroutine_ok [OF inv ph r(1), of now dr]) (use d MTick in auto)
  next
    case MSend
    then obtain r where r: "sim_exec encs SSend (sm_run s) = Some r" "s' = s\<lparr>sm_run := r\<rparr>"
      using ex ph by (auto simp: sim_main_exec_def)
    show ?thesis unfolding r(2) by (rule goroutine_ok [OF inv ph r(1) _ d0]) simp
  next
    case MSeeDone
    then obtain r where r: "sim_exec encs SSeeDone (sm_run s) = Some r" "s' = s\<lparr>sm_run := r\<rparr>"
      using ex ph by (auto simp: sim_main_exec_def)
    show ?thesis unfolding r(2) by (rule goroutine_ok [OF inv ph r(1) _ d0]) simp
  next
    case MClose
    then obtain c where c: "s_returned (sm_run s)" "chan_close (s_out (sm_run s)) = Some c"
      "s' = s\<lparr>sm_run := (sm_run s)\<lparr>s_out := c\<rparr>\<rparr>"
      using ex ph by (auto simp: sim_main_exec_def split: if_splits)
    then have "c = (s_out (sm_run s))\<lparr>closed := True\<rparr>" by (simp add: chan_close_def split: if_splits)
    then show ?thesis using c(1,3) inv by (auto simp: run_ok_def chan_flow_ok_def sender_ok_def split: if_splits)
  next
    case MSignal
    then show ?thesis using ex ph main_returns_ok [OF inv(1,2)] by (simp add: sim_main_exec_def)
  next
    case (MReceive zone io)
    show ?thesis
    proof (cases "chan_recv (s_out (sm_run s))")
      case (Received m c)
      then obtain ms where b: "buf (s_out (sm_run s)) = m # ms" "c = (s_out (sm_run s))\<lparr>buf := ms\<rparr>"
        by (auto simp: chan_simps)
      have s': "s' = main_receives zone io m (s\<lparr>sm_run := (sm_run s)\<lparr>s_out := c\<rparr>\<rparr>)"
        using ex ph MReceive Received by (simp add: sim_main_exec_def)
      have "run_ok gs s'" using inv(1) b(2) by (simp add: run_ok_def s' main_receives_def)
      moreover have "chan_flow_ok s'" using inv(2) b by (simp add: chan_flow_ok_def s' main_receives_def)
      moreover have "sender_ok sender s'" using inv(3) ph
        by (cases sender; cases io) (auto simp: sender_ok_def s' main_receives_def send_messages_snoc)
      ultimately show ?thesis by blast
    next
      case RecvClosed
      then show ?thesis using ex ph MReceive main_returns_ok [OF inv(1,2)] by (simp add: sim_main_exec_def)
    next
      case RecvBlocks
      then show ?thesis using ex ph MReceive by (simp add: sim_main_exec_def)
    qed
  qed
qed

lemma sim_main_run_ok:
  assumes "sim_main_run encs as s = Some s'" and "list_all main_draws as"
    and "run_ok gs s \<and> chan_flow_ok s \<and> sender_ok sender s"
  shows "run_ok gs s' \<and> chan_flow_ok s' \<and> sender_ok sender s'"
  using assms
proof (induction as arbitrary: s)
  case (Cons a as)
  then obtain s1 where s1: "sim_main_exec encs a s = Some s1" "sim_main_run encs as s1 = Some s'"
    by (auto split: Option.bind_splits)
  have "main_draws a" using Cons.prems(2) by simp
  then have "run_ok gs s1 \<and> chan_flow_ok s1 \<and> sender_ok sender s1"
    using sim_main_step_ok [OF _ _ _ s1(1)] Cons.prems(3) by blast
  then show ?case using Cons.IH [OF s1(2)] Cons.prems(2) by simp
qed simp

text \<open>With sensors, \<open>main\<close> leaves its loop on a signal only.\<close>

lemma stays_in_loop:
  assumes "sim_main_exec encs a s = Some s'" and "a \<noteq> MSignal" and "gs \<noteq> []" and "run_ok gs s"
  shows "sm_phase s' = MLooping"
proof -
  have "sm_phase s = MLooping" using assms(1) by (cases "sm_phase s") (simp_all add: sim_main_exec_def)
  moreover have "\<not> closed (s_out (sm_run s))" using assms(3,4) by (simp add: run_ok_def)
  ultimately show ?thesis using assms(1,2)
    by (cases a) (auto simp: sim_main_exec_def main_receives_def chan_simps split: if_splits recv_result.splits)
qed

lemma returns_on_signal:
  assumes "sim_main_run encs as s = Some s'" and "list_all main_draws as"
    and "run_ok gs s \<and> chan_flow_ok s \<and> sender_ok sender s" and "gs \<noteq> []" and "sm_phase s = MLooping"
  shows "sm_phase s' = MReturned \<Longrightarrow> MSignal \<in> set as"
  using assms
proof (induction as arbitrary: s)
  case (Cons a as)
  then obtain s1 where s1: "sim_main_exec encs a s = Some s1" "sim_main_run encs as s1 = Some s'"
    by (auto split: Option.bind_splits)
  show ?case
  proof (cases "a = MSignal")
    case False
    have "main_draws a" using Cons.prems(3) by simp
    then have "run_ok gs s1 \<and> chan_flow_ok s1 \<and> sender_ok sender s1"
      using sim_main_step_ok [OF _ _ _ s1(1)] Cons.prems(4) by blast
    moreover have "sm_phase s1 = MLooping" using stays_in_loop [OF s1(1) False] Cons.prems(4,5) by blast
    ultimately show ?thesis using Cons.IH [of s1] s1(2) Cons.prems(1,3,5) by simp
  qed simp
qed simp

lemma main_starts_looping: "simulator_main fl ds dial = SimStarted s \<Longrightarrow> sm_phase s = MLooping"
  using simulator_main_launch by (fastforce elim: launch_cases)

section \<open>Properties\<close>

text \<open>
  Property C40. How the simulator program starts: it exits with a message when the target cannot be dialled
  or the protocol is neither \<open>udp\<close> nor \<open>tcp\<close>; it panics when at least one sensor of a known type is asked
  for with a rate below 1 or above 1000; and it starts otherwise. The types are the parts of \<open>--types\<close>
  between commas, without the white space around them.
\<close>

theorem simulator_program_starts:
  "(simulator_main fl ds dial = SimExits \<longleftrightarrow>
      target fl \<noteq> [] \<and> \<not> (protocolName fl \<in> {''udp'', ''tcp''} \<and> dial = None)) \<and>
   (simulator_main fl ds dial = SimPanics \<longleftrightarrow>
      (target fl = [] \<or> protocolName fl \<in> {''udp'', ''tcp''} \<and> dial = None) \<and>
      0 < numSensors fl \<and> set (sensorTypes fl) \<inter> known_types \<noteq> {} \<and> (rateHz fl < 1 \<or> 1000 < rateHz fl)) \<and>
   join_with (CHR '','') (split_on (CHR '','') (types fl)) = types fl \<and>
   sensorTypes fl = map TrimSpace (split_on (CHR '','') (types fl))"
proof -
  let ?sim = "NewSimulator (sim_config_of fl) ds"
  have ne: "sensorTypes fl \<noteq> []" by (simp add: sensorTypes_def)
  have c: "sim_config ?sim = sim_config_of fl" by (simp add: NewSimulator_def Let_def)
  have g: "generators ?sim = [] \<longleftrightarrow> numSensors fl \<le> 0 \<or> set (sensorTypes fl) \<inter> known_types = {}"
    using no_generators [of "sim_config_of fl" ds] ne by (simp add: sim_config_of_def)
  have rate: "ticker_interval (rateHz fl) = None \<longleftrightarrow> rateHz fl < 1 \<or> 1000 < rateHz fl"
    by (auto simp: ticker_interval_eq)
  have l: "launch ?sim sender \<noteq> SimExits"
    "launch ?sim sender = SimPanics \<longleftrightarrow> generators ?sim \<noteq> [] \<and> ticker_interval (rateHz fl) = None" for sender
    using c by (auto simp: launch_def Run_def Let_def sim_config_of_def split: option.split)
  have "simulator_main fl ds dial = SimExits \<longleftrightarrow>
      target fl \<noteq> [] \<and> \<not> (protocolName fl \<in> {''udp'', ''tcp''} \<and> dial = None)"
    using l(1) by (auto simp: simulator_main_def NewSender_def Let_def split: option.split)
  moreover have "simulator_main fl ds dial = SimPanics \<longleftrightarrow>
      (target fl = [] \<or> protocolName fl \<in> {''udp'', ''tcp''} \<and> dial = None) \<and>
      generators ?sim \<noteq> [] \<and> ticker_interval (rateHz fl) = None"
    using l(2) by (auto simp: simulator_main_def NewSender_def Let_def split: option.split)
  ultimately show ?thesis using g rate join_split [of "CHR '',''" "types fl"]
    by (simp add: sensorTypes_def not_le not_less)
qed

text \<open>
  Property C39. What the simulator program transmits: \<open>main\<close> receives the simulator's messages in the order
  they were made, the \<open>k\<close>-th from sensor \<open>k mod n\<close> with number \<open>k div n + 1\<close>, counts them, and, as long as no
  write fails, has passed each of them to the sender once and in that order. At most the 100 messages
  buffered in the channel are made and sent by the simulator and not received. Without sensors nothing is
  ever received, and with sensors the program returns only on a signal.
\<close>

theorem simulator_program_transmits:
  assumes "\<forall>k. draws_ok (ds k)" and "simulator_main fl ds dial = SimStarted s0"
    and "sim_main_run encs as s0 = Some s" and "list_all main_draws as"
    and "n = length (all_generators fl ds)"
  shows "sent (sm_run s) = map snd (sm_received s) @ buf (s_out (sm_run s)) \<and> length (buf (s_out (sm_run s))) \<le> 100 \<and>
    sm_count s = int (length (sm_received s)) \<and>
    (n = 0 \<longrightarrow> sm_received s = []) \<and> (0 < n \<and> sm_phase s = MReturned \<longrightarrow> MSignal \<in> set as) \<and>
    (\<forall>k<length (sm_received s).
       SensorID (snd (sm_received s ! k)) = gen_id (all_generators fl ds ! (k mod n)) \<and>
       SensorType (snd (sm_received s ! k)) = gen_type (all_generators fl ds ! (k mod n)) \<and>
       Sequence (snd (sm_received s ! k)) = of_nat (k div n + 1)) \<and>
    (\<not> sm_failed s \<and> sm_phase s = MLooping \<longrightarrow>
       sm_sender s = map_option (send_messages (sm_received s)) (sm_sender s0))"
proof -
  let ?gs = "all_generators fl ds"
  note start = main_start_ok [OF assms(2,1)]
  have ok: "run_ok ?gs s" "chan_flow_ok s" "sender_ok (sm_sender s0) s"
    using sim_main_run_ok [OF assms(3,4) start] by blast+
  have none: "n = 0 \<longrightarrow> sm_received s = []" using ok(1,2) assms(5) by (auto simp: run_ok_def chan_flow_ok_def)
  have turn: "SensorID (snd (sm_received s ! k)) = gen_id (?gs ! (k mod n)) \<and>
       SensorType (snd (sm_received s ! k)) = gen_type (?gs ! (k mod n)) \<and>
       Sequence (snd (sm_received s ! k)) = of_nat (k div n + 1)" if k: "k < length (sm_received s)" for k
  proof -
    have "?gs \<noteq> []" using none k assms(5) by auto
    then have t: "turn_inv ?gs (sm_run s)" using ok(1) by (simp add: run_ok_def)
    have sent: "sent (sm_run s) = map snd (sm_received s) @ buf (s_out (sm_run s))" using ok(2) by (simp add: chan_flow_ok_def)
    then have "made (sm_run s) ! k = snd (sm_received s ! k)" "k < length (made (sm_run s))"
      using k by (simp_all add: made_def nth_append)
    with t show ?thesis unfolding turn_inv_def assms(5) by metis
  qed
  have signal: "0 < n \<and> sm_phase s = MReturned \<longrightarrow> MSignal \<in> set as"
    using returns_on_signal [OF assms(3,4) start] main_starts_looping [OF assms(2)] assms(5) by auto
  show ?thesis using ok none turn signal by (simp add: chan_flow_ok_def sender_ok_def)
qed

text \<open>Two sensors and an unknown type; three messages are made, and two of them received.\<close>

definition two_sensor_flags :: sim_flags where
  "two_sensor_flags = \<lparr>numSensors = 1, rateHz = 10, types = ''gps, radar ,temperature'', protocolName = ''tcp'',
     target = ''h:9001''\<rparr>"

definition two_sensor_run :: "sim_main_act list" where
  "two_sensor_run = [MTick 1 middle, MSend, MTick 2 middle, MSend, MReceive 0 None, MTick 3 middle, MSend, MReceive 0 None]"

lemma two_sensor_config: "sim_config_of two_sensor_flags = sample_config"
  by code_simp

theorem simulator_program_transmits_witness:
  "\<exists>s0 s. simulator_main two_sensor_flags (\<lambda>_. middle) None = SimStarted s0 \<and>
     sim_main_run sample_encoders two_sensor_run s0 = Some s \<and> length (sm_received s) = 2 \<and>
     SensorID (snd (sm_received s ! 1)) = ''temperature-0'' \<and> Sequence (snd (sm_received s ! 1)) = 1"
proof -
  let ?gs = "[GPS (NewGPSSensorGenerator ''gps-0'' 0 middle), Temperature (NewTemperatureSensorGenerator ''temperature-0'' 1000 middle)]"
  have gs: "all_generators two_sensor_flags (\<lambda>_. middle) = ?gs"
    by (simp add: all_generators_def two_sensor_config sample_generators)
  have conf: "sim_config (NewSimulator sample_config (\<lambda>_. middle)) = sample_config" "MessageRateHz sample_config = 10"
    by (simp_all add: NewSimulator_def Let_def sample_config_def)
  have fl: "target two_sensor_flags \<noteq> []" "protocolName two_sensor_flags = ''tcp''" by (simp_all add: two_sensor_flags_def)
  have start: "simulator_main two_sensor_flags (\<lambda>_. middle) None = SimStarted
      \<lparr>sm_run = \<lparr>s_gens = ?gs, generatorIndex = 0, totalSent = 0, s_pending = None, s_out = make_chan 100,
         s_ctxDone = False, s_returned = False, sent = []\<rparr>,
       sm_sender = Some (tcpSender new_net_conn), sm_count = 0, sm_phase = MLooping, sm_received = [], sm_failed = False\<rparr>"
    (is "_ = SimStarted ?s0")
    using fl conf by (simp add: simulator_main_def launch_def NewSender_def two_sensor_config Run_def sample_generators
        ticker_interval_eq)
  have "\<exists>s. sim_main_run sample_encoders two_sensor_run ?s0 = Some s \<and> length (sm_received s) = 2"
    by (simp add: two_sensor_run_def sim_main_exec_def sim_exec_def GPS_Next_def Temperature_Next_def case_prod_unfold
        Let_def chan_send_def chan_recv_def make_chan_def map_prod_def main_receives_def)
  then obtain s where s: "sim_main_run sample_encoders two_sensor_run ?s0 = Some s" "length (sm_received s) = 2" by blast
  have d: "\<forall>k. draws_ok ((\<lambda>_ :: nat. middle) k)" "list_all main_draws two_sensor_run"
    by (simp_all add: middle_ok two_sensor_run_def)
  have "SensorID (snd (sm_received s ! 1)) = ''temperature-0'' \<and> Sequence (snd (sm_received s ! 1)) = 1"
    using simulator_program_transmits [OF d(1) start s(1) d(2) refl] s(2) by (simp add: gs)
  with start s show ?thesis by blast
qed

end
