(* ===== verification/Api.thy ===== *)
theory Api
  imports Pool_Properties Udp Tcp
begin

text \<open>
  internal/api/api.go: the REST endpoints. A response carries its status, headers and the value
  that is encoded as its JSON body; the encoder's text is not modelled. A handler reads the
  listeners, the processor and the store one after the other while they run on, so what it sees
  of each is a separate argument.
\<close>

section \<open>Representations\<close>

record sensorSummary =
  ss_SensorID :: bytes
  ss_SensorType :: bytes
  ss_Status :: bytes
  ss_LastSeen :: time

record sensorDetail =
  sd_SensorID :: bytes
  sd_SensorType :: bytes
  sd_Status :: bytes
  sd_LastSequence :: u64
  sd_MessagesReceived :: u64
  sd_MessagesDropped :: u64
  sd_Duplicates :: u64
  sd_OutOfOrder :: u64
  sd_Errors :: u64
  sd_Anomalies :: u64
  sd_LastSeen :: time

definition toSensorSummary :: "SensorState \<Rightarrow> sensorSummary" where
  "toSensorSummary sn = \<lparr>ss_SensorID = st_SensorID sn, ss_SensorType = st_SensorType sn,
     ss_Status = st_Status sn, ss_LastSeen = st_LastSeen sn\<rparr>"

definition toSensorDetail :: "SensorState \<Rightarrow> sensorDetail" where
  "toSensorDetail sn = \<lparr>sd_SensorID = st_SensorID sn, sd_SensorType = st_SensorType sn,
     sd_Status = st_Status sn, sd_LastSequence = st_LastSequence sn,
     sd_MessagesReceived = st_MessageCount sn, sd_MessagesDropped = st_DroppedCount sn,
     sd_Duplicates = st_DuplicateCount sn, sd_OutOfOrder = st_OutOfOrderCount sn,
     sd_Errors = st_ErrorCount sn, sd_Anomalies = st_AnomalyCount sn, sd_LastSeen = st_LastSeen sn\<rparr>"

record listenerHealth =
  lh_MessagesReceived :: u64
  lh_MessagesRejected :: u64
  lh_IsRunning :: bool

record tcpListenerHealth =
  th_MessagesReceived :: u64
  th_MessagesRejected :: u64
  th_ActiveConnections :: u64
  th_TotalConnections :: u64
  th_IsRunning :: bool

record streamHealth =
  sh_UDP :: listenerHealth
  sh_TCP :: tcpListenerHealth
  sh_QueueDepth :: nat
  sh_QueueCapacity :: goint
  sh_WorkersRunning :: bool

record metricsSummary =
  mm_MessagesReceived :: u64
  mm_MessagesProcessed :: u64
  mm_ValidationErrors :: u64
  mm_ProcessingErrors :: u64
  mm_AnomaliesDetected :: u64
  mm_DroppedMessages :: u64
  mm_DuplicateMessages :: u64
  mm_OutOfOrderMessages :: u64
  mm_QueueDepth :: nat
  mm_ActiveTCPConnections :: u64
  mm_HealthySensors :: nat
  mm_StaleSensors :: nat

section \<open>Handlers\<close>

text \<open>What a request finds when the handler reads it; the map order is the store's iteration order.\<close>

record readings =
  rd_udp :: UDPListener
  rd_tcp :: TCPListener
  rd_proc :: Processor
  rd_store :: StateStore
  rd_order :: "bytes list"

datatype body = Summaries "sensorSummary list" | Detail sensorDetail | Streams streamHealth
  | Metrics metricsSummary | SensorNotFound bytes | PlainError | NoBody

record response =
  rs_status :: nat
  rs_headers :: "(bytes \<times> bytes) list"
  rs_body :: body

definition writeJSON :: "nat \<Rightarrow> body \<Rightarrow> (bytes \<times> bytes) list \<Rightarrow> response" where
  "writeJSON status v hs =
     \<lparr>rs_status = status, rs_headers = hs @ [(''Content-Type'', ''application/json'')], rs_body = v\<rparr>"

text \<open>A handler turns the headers set so far into a response; None is a panic, which ends the
  connection without one.\<close>

type_synonym http_handler = "(bytes \<times> bytes) list \<Rightarrow> response option"

definition handleListSensors :: "readings \<Rightarrow> http_handler" where
  "handleListSensors rd hs =
     Some (writeJSON 200 (Summaries (map toSensorSummary (List (rd_order rd) (rd_store rd)))) hs)"

definition handleGetSensor :: "bytes \<Rightarrow> readings \<Rightarrow> http_handler" where
  "handleGetSensor sensorID rd hs =
     (case Get sensorID (rd_store rd) of
        None \<Rightarrow> Some (writeJSON 404 (SensorNotFound sensorID) hs)
      | Some sn \<Rightarrow> Some (writeJSON 200 (Detail (toSensorDetail sn)) hs))"

definition handleHealthStreams :: "readings \<Rightarrow> http_handler" where
  "handleHealthStreams rd hs =
     (let udpStats = UDP_Stats (rd_udp rd); tcpStats = TCP_Stats (rd_tcp rd)
      in case Stats (rd_proc rd) of
          None \<Rightarrow> None
        | Some procStats \<Rightarrow> Some (writeJSON 200 (Streams
            \<lparr>sh_UDP = \<lparr>lh_MessagesReceived = ls_MessagesReceived udpStats,
               lh_MessagesRejected = ls_MessagesRejected udpStats, lh_IsRunning = ls_IsRunning udpStats\<rparr>,
             sh_TCP = \<lparr>th_MessagesReceived = ls_MessagesReceived tcpStats,
               th_MessagesRejected = ls_MessagesRejected tcpStats,
               th_ActiveConnections = ls_ActiveConnections tcpStats,
               th_TotalConnections = ls_TotalConnections tcpStats, th_IsRunning = ls_IsRunning tcpStats\<rparr>,
             sh_QueueDepth = ps_QueueDepth procStats, sh_QueueCapacity = ps_QueueSize procStats,
             sh_WorkersRunning = ps_IsRunning procStats\<rparr>) hs))"

definition count_status :: "bytes \<Rightarrow> SensorState list \<Rightarrow> nat" where
  "count_status status sns = length (filter (\<lambda>sn. st_Status sn = status) sns)"

definition handleMetricsSummary :: "readings \<Rightarrow> http_handler" where
  "handleMetricsSummary rd hs =
     (let udpStats = UDP_Stats (rd_udp rd); tcpStats = TCP_Stats (rd_tcp rd)
      in case Stats (rd_proc rd) of
          None \<Rightarrow> None
        | Some procStats \<Rightarrow>
            (let sns = List (rd_order rd) (rd_store rd)
             in Some (writeJSON 200 (Metrics
               \<lparr>mm_MessagesReceived = ls_MessagesReceived udpStats + ls_MessagesReceived tcpStats,
                mm_MessagesProcessed = ps_TotalMessagesProcessed procStats,
                mm_ValidationErrors = ls_MessagesRejected udpStats + ls_MessagesRejected tcpStats,
                mm_ProcessingErrors = ps_TotalErrors procStats,
                mm_AnomaliesDetected = ps_TotalAnomalies procStats,
                mm_DroppedMessages = ps_TotalDropped procStats,
                mm_DuplicateMessages = ps_TotalDuplicates procStats,
                mm_OutOfOrderMessages = ps_TotalOutOfOrder procStats,
                mm_QueueDepth = ps_QueueDepth procStats,
                mm_ActiveTCPConnections = ls_ActiveConnections tcpStats,
                mm_HealthySensors = count_status StatusHealthy sns,
                mm_StaleSensors = count_status StatusStale sns\<rparr>) hs)))"

section \<open>Routing\<close>

text \<open>
  A request is its method and the segments of its path, already cleaned and unescaped. The
  patterns are registered for GET, which \<open>net/http\<close> also uses for HEAD (dropping the body later);
  another method on a known path is answered 405. Of the headers of the library's own 404 and 405
  answers only \<open>Allow\<close> is kept.
\<close>

record request =
  rq_method :: bytes
  rq_path :: "bytes list"

definition route :: "bytes list \<Rightarrow> (readings \<Rightarrow> http_handler) option" where
  "route path =
     (if take 2 path \<noteq> [''api'', ''v1''] then None
      else case drop 2 path of
          [a] \<Rightarrow> if a = ''sensors'' then Some handleListSensors else None
        | [a, b] \<Rightarrow> if a = ''sensors'' \<and> b \<noteq> [] then Some (handleGetSensor b)
                   else if a = ''health'' \<and> b = ''streams'' then Some handleHealthStreams
                   else if a = ''metrics'' \<and> b = ''summary'' then Some handleMetricsSummary
                   else None
        | _ \<Rightarrow> None)"

definition mux :: "request \<Rightarrow> readings \<Rightarrow> http_handler" where
  "mux rq rd hs =
     (case route (rq_path rq) of
        None \<Rightarrow> Some \<lparr>rs_status = 404, rs_headers = hs, rs_body = PlainError\<rparr>
      | Some h \<Rightarrow> if rq_method rq \<in> {''GET'', ''HEAD''} then h rd hs
                  else Some \<lparr>rs_status = 405, rs_headers = hs @ [(''Allow'', ''GET, HEAD'')], rs_body = PlainError\<rparr>)"

definition withCORS :: "(request \<Rightarrow> readings \<Rightarrow> http_handler) \<Rightarrow> request \<Rightarrow> readings \<Rightarrow> response option" where
  "withCORS nxt rq rd =
     (let hs = [(''Access-Control-Allow-Origin'', ''*''), (''Access-Control-Allow-Methods'', ''GET, OPTIONS'')]
      in if rq_method rq = ''OPTIONS'' then Some \<lparr>rs_status = 204, rs_headers = hs, rs_body = NoBody\<rparr>
         else nxt rq rd hs)"

definition serve :: "request \<Rightarrow> readings \<Rightarrow> response option" where
  "serve rq rd = withCORS mux rq rd"

section \<open>The server around them\<close>

text \<open>
  \<open>Start\<close> binds the address, given the outcome of \<open>net.Listen\<close>: an error, or the address it listens on;
  requests are then answered until \<open>Shutdown\<close> has been called. \<open>Shutdown\<close> waits for requests in flight,
  and its result is the error of its context when that expires first.
\<close>

record ApiServer =
  http_addr :: bytes
  http_shutdown :: bool
  api_listener :: "bytes option"
  api_serving :: bool

definition NewServer :: "bytes \<Rightarrow> ApiServer" where
  "NewServer addr = \<lparr>http_addr = addr, http_shutdown = False, api_listener = None, api_serving = False\<rparr>"

definition Api_Start :: "bytes + bytes \<Rightarrow> ApiServer \<Rightarrow> (bytes \<times> bytes) option \<times> ApiServer" where
  "Api_Start listen s = (case listen of
       Inl err \<Rightarrow> (Some (http_addr s, err), s)
     | Inr bound \<Rightarrow> (None, s\<lparr>api_listener := Some bound, api_serving := \<not> http_shutdown s\<rparr>))"

definition Addr :: "ApiServer \<Rightarrow> bytes" where
  "Addr s = (case api_listener s of None \<Rightarrow> [] | Some bound \<Rightarrow> bound)"

definition Api_Stop :: "'e option \<Rightarrow> ApiServer \<Rightarrow> 'e option \<times> ApiServer" where
  "Api_Stop expired s = (expired, s\<lparr>http_shutdown := True, api_serving := False\<rparr>)"

text \<open>An answer comes only while it serves.\<close>

definition answer :: "ApiServer \<Rightarrow> request \<Rightarrow> readings \<Rightarrow> response option option" where
  "answer s rq rd = (if api_serving s then Some (serve rq rd) else None)"

lemma api_life_cycle:
  "Api_Start (Inr bound) (NewServer addr) = (None, s) \<Longrightarrow>
     Addr s = bound \<and> answer s rq rd = Some (serve rq rd) \<and> answer (snd (Api_Stop expired s)) rq rd = None"
  by (auto simp: Api_Start_def NewServer_def Addr_def answer_def Api_Stop_def)

section \<open>Properties\<close>

lemma serve_path:
  assumes "m \<in> {''GET'', ''HEAD''}" and "route path = Some h"
  shows "serve \<lparr>rq_method = m, rq_path = path\<rparr> rd =
    h rd [(''Access-Control-Allow-Origin'', ''*''), (''Access-Control-Allow-Methods'', ''GET, OPTIONS'')]"
  using assms by (auto simp: serve_def withCORS_def mux_def Let_def)

lemma route_sensors [simp]:
  "route [''api'', ''v1'', ''sensors''] = Some handleListSensors"
  "sid \<noteq> [] \<Longrightarrow> route [''api'', ''v1'', ''sensors'', sid] = Some (handleGetSensor sid)"
  "route [''api'', ''v1'', ''metrics'', ''summary''] = Some handleMetricsSummary"
  "route [''api'', ''v1'', ''health'', ''streams''] = Some handleHealthStreams"
  by (simp_all add: route_def)

lemma stored_status:
  assumes "map_order ids (exec_ops os NewStateStore)" and "sn \<in> set (List ids (exec_ops os NewStateStore))"
  shows "(st_Status sn = StatusHealthy) \<noteq> (st_Status sn = StatusStale)" and "st_SensorID sn \<in> set ids"
    and "Get (st_SensorID sn) (exec_ops os NewStateStore) = Some sn"
proof -
  obtain sid e where e: "sid \<in> set ids" "sensors (exec_ops os NewStateStore) sid = Some e" "sn = entry_state e"
    using assms unfolding List_def map_order_def by fastforce
  then have "entry_ok sid e" using store_ok_run [of os] by (simp add: store_ok_def)
  then show "(st_Status sn = StatusHealthy) \<noteq> (st_Status sn = StatusStale)" "st_SensorID sn \<in> set ids"
    "Get (st_SensorID sn) (exec_ops os NewStateStore) = Some sn"
    using e by (auto simp: entry_ok_def StatusHealthy_def StatusStale_def Get_def)
qed

lemma Stats_truncate: "Stats (Processor.Processor.truncate s) = Stats s"
  by (simp add: Stats_def Processor.Processor.truncate_def)

text \<open>The counts of the two statuses over the listed sensors are those over the store.\<close>

lemma count_status_card:
  assumes "map_order ids s"
  shows "count_status x (List ids s) = card {sid. \<exists>st. Get sid s = Some st \<and> st_Status st = x}"
proof -
  have ids: "distinct ids" "set ids = dom (sensors s)" using assms by (simp_all add: map_order_def)
  let ?P = "\<lambda>sid. st_Status (entry_state (the (sensors s sid))) = x"
  have "count_status x (List ids s) = length (filter ?P ids)"
    by (simp add: count_status_def List_def filter_map comp_def)
  also have "\<dots> = card (set (filter ?P ids))" using ids(1) by (metis distinct_card distinct_filter)
  also have "set (filter ?P ids) = {sid. \<exists>st. Get sid s = Some st \<and> st_Status st = x}"
    using ids(2) by (auto simp: Get_def)
  finally show ?thesis .
qed

lemma status_partition:
  assumes "s = exec_ops os NewStateStore" and "map_order ids s"
  shows "card {sid. \<exists>st. Get sid s = Some st \<and> st_Status st = StatusHealthy} +
    card {sid. \<exists>st. Get sid s = Some st \<and> st_Status st = StatusStale} = card {sid. history sid os \<noteq> []}"
proof -
  have known: "{sid. history sid os \<noteq> []} = dom (sensors s)"
    using assms(1) unknown_iff_no_history [of os] by (auto simp: dom_def)
  have ok: "(st_Status st = StatusHealthy) \<noteq> (st_Status st = StatusStale)" if "Get sid s = Some st" for sid st
  proof -
    have "\<exists>e. sensors s sid = Some e \<and> st = entry_state e" using that by (auto simp: Get_def)
    then show ?thesis using store_ok_run [of os] assms(1)
      by (auto simp: store_ok_def entry_ok_def StatusHealthy_def StatusStale_def)
  qed
  let ?A = "{sid. \<exists>st. Get sid s = Some st \<and> st_Status st = StatusHealthy}"
  let ?B = "{sid. \<exists>st. Get sid s = Some st \<and> st_Status st = StatusStale}"
  have "?A \<union> ?B = dom (sensors s)" using ok by (fastforce simp: Get_def dom_def)
  moreover have "finite (dom (sensors s))" using assms(2) by (metis List.finite_set map_order_def)
  moreover have "?A \<inter> ?B = {}" using ok by auto
  ultimately show ?thesis unfolding known using card_Un_disjoint [of ?A ?B] by (metis (lifting) finite_Un)
qed

text \<open>The headers of a JSON answer.\<close>

abbreviation json_headers :: "(bytes \<times> bytes) list" where
  "json_headers \<equiv> [(''Access-Control-Allow-Origin'', ''*''), (''Access-Control-Allow-Methods'', ''GET, OPTIONS''),
     (''Content-Type'', ''application/json'')]"

lemma get_sensor_answer:
  assumes "rd_store rd = exec_ops os NewStateStore" and "m \<in> {''GET'', ''HEAD''}"
    and "sid \<noteq> []" and "Get sid (rd_store rd) = Some st"
  shows "\<exists>d. serve \<lparr>rq_method = m, rq_path = [''api'', ''v1'', ''sensors'', sid]\<rparr> rd =
        Some \<lparr>rs_status = 200, rs_headers = json_headers, rs_body = Detail d\<rparr> \<and>
      sd_SensorID d = sid \<and> sd_SensorType d = st_SensorType st \<and> sd_Status d = st_Status st \<and>
      sd_LastSeen d = st_LastSeen st \<and> sd_LastSequence d = st_LastSequence st \<and>
      sd_MessagesReceived d = st_MessageCount st \<and> sd_MessagesDropped d = st_DroppedCount st \<and>
      sd_Duplicates d = st_DuplicateCount st \<and> sd_OutOfOrder d = st_OutOfOrderCount st \<and>
      sd_Errors d = st_ErrorCount st \<and> sd_Anomalies d = st_AnomalyCount st \<and>
      sd_MessagesReceived d = of_nat (length (history sid os)) \<and> sd_LastSequence d = highest (history sid os) \<and>
      unat (sd_MessagesDropped d) + advances (history sid os)
        = unat (highest (history sid os)) - unat (last (history sid os)) + 1 \<and>
      sd_Duplicates d + sd_OutOfOrder d + of_nat (advances (history sid os)) = sd_MessagesReceived d"
proof -
  have g: "Get sid (exec_ops os NewStateStore) = Some st" using assms(1,4) by simp
  then have "st_SensorID st = sid" using reachable_entry(2) [of os sid] by (auto simp: Get_def entry_ok_def)
  then show ?thesis using assms(2-4) counters_of_history [OF g]
    by (intro exI [of _ "toSensorDetail st"])
      (simp add: serve_path handleGetSensor_def writeJSON_def toSensorDetail_def)
qed

text \<open>
  Property C36. The two sensor endpoints agree with the store and with each other: the list names
  every sensor that has sent a message exactly once, in the order the store is visited, each with the
  type, status and last-seen time the store has for it; asking for one of them is answered 200 with
  these and with the store's last sequence and all six of its counters, which account for every
  message the sensor has sent; asking for any other is answered 404.
\<close>

theorem sensor_endpoints_agree:
  assumes "rd_store rd = exec_ops os NewStateStore" and "map_order (rd_order rd) (rd_store rd)"
    and "m \<in> {''GET'', ''HEAD''}"
  shows "\<exists>xs. serve \<lparr>rq_method = m, rq_path = [''api'', ''v1'', ''sensors'']\<rparr> rd =
      Some \<lparr>rs_status = 200, rs_headers = json_headers, rs_body = Summaries xs\<rparr> \<and>
    map ss_SensorID xs = rd_order rd \<and> distinct (rd_order rd) \<and> set (rd_order rd) = {sid. history sid os \<noteq> []} \<and>
    (\<forall>s\<in>set xs. \<exists>st. Get (ss_SensorID s) (rd_store rd) = Some st \<and>
      ss_SensorType s = st_SensorType st \<and> ss_Status s = st_Status st \<and> ss_LastSeen s = st_LastSeen st \<and>
      (ss_Status s = ''healthy'' \<or> ss_Status s = ''stale'')) \<and>
    (\<forall>sid st. sid \<noteq> [] \<and> Get sid (rd_store rd) = Some st \<longrightarrow>
      (\<exists>d. serve \<lparr>rq_method = m, rq_path = [''api'', ''v1'', ''sensors'', sid]\<rparr> rd =
          Some \<lparr>rs_status = 200, rs_headers = json_headers, rs_body = Detail d\<rparr> \<and>
        sd_SensorID d = sid \<and> sd_SensorType d = st_SensorType st \<and> sd_Status d = st_Status st \<and>
        sd_LastSeen d = st_LastSeen st \<and> sd_LastSequence d = st_LastSequence st \<and>
        sd_MessagesReceived d = st_MessageCount st \<and> sd_MessagesDropped d = st_DroppedCount st \<and>
        sd_Duplicates d = st_DuplicateCount st \<and> sd_OutOfOrder d = st_OutOfOrderCount st \<and>
        sd_Errors d = st_ErrorCount st \<and> sd_Anomalies d = st_AnomalyCount st \<and>
        sd_MessagesReceived d = of_nat (length (history sid os)) \<and> sd_LastSequence d = highest (history sid os) \<and>
        unat (sd_MessagesDropped d) + advances (history sid os)
          = unat (highest (history sid os)) - unat (last (history sid os)) + 1 \<and>
        sd_Duplicates d + sd_OutOfOrder d + of_nat (advances (history sid os)) = sd_MessagesReceived d)) \<and>
    (\<forall>sid. sid \<noteq> [] \<and> history sid os = [] \<longrightarrow>
      serve \<lparr>rq_method = m, rq_path = [''api'', ''v1'', ''sensors'', sid]\<rparr> rd =
        Some \<lparr>rs_status = 404, rs_headers = json_headers, rs_body = SensorNotFound sid\<rparr>)"
proof -
  let ?s = "exec_ops os NewStateStore"
  let ?sns = "List (rd_order rd) ?s"
  let ?xs = "map toSensorSummary ?sns"
  have answer: "serve \<lparr>rq_method = m, rq_path = [''api'', ''v1'', ''sensors'']\<rparr> rd =
      Some \<lparr>rs_status = 200, rs_headers = json_headers, rs_body = Summaries ?xs\<rparr>"
    using assms(1,3) by (simp add: serve_path handleListSensors_def writeJSON_def)
  have order: "distinct (rd_order rd)" "set (rd_order rd) = {sid. history sid os \<noteq> []}"
    using assms(1,2) unknown_iff_no_history [of os] by (auto simp: map_order_def dom_def)
  have "map st_SensorID ?sns = rd_order rd"
    unfolding List_def map_map
    using assms reachable_entry(2) [of os] by (intro map_idI) (fastforce simp: map_order_def entry_ok_def)
  then have ids: "map ss_SensorID ?xs = rd_order rd" by (simp add: toSensorSummary_def o_def)
  have "Get (st_SensorID sn) ?s = Some sn \<and> (st_Status sn = ''healthy'' \<or> st_Status sn = ''stale'')"
    if "sn \<in> set ?sns" for sn
    using stored_status(1,3) [of "rd_order rd" os sn] assms(1,2) that
    by (auto simp: StatusHealthy_def StatusStale_def)
  then have listed: "\<forall>s\<in>set ?xs. \<exists>st. Get (ss_SensorID s) (rd_store rd) = Some st \<and>
      ss_SensorType s = st_SensorType st \<and> ss_Status s = st_Status st \<and> ss_LastSeen s = st_LastSeen st \<and>
      (ss_Status s = ''healthy'' \<or> ss_Status s = ''stale'')"
    unfolding assms(1) by (simp add: toSensorSummary_def)
  have "Get sid ?s = None" if "history sid os = []" for sid
    using that unknown_iff_no_history [of os] by (simp add: Get_def)
  then have unknown: "\<forall>sid. sid \<noteq> [] \<and> history sid os = [] \<longrightarrow>
      serve \<lparr>rq_method = m, rq_path = [''api'', ''v1'', ''sensors'', sid]\<rparr> rd =
        Some \<lparr>rs_status = 404, rs_headers = json_headers, rs_body = SensorNotFound sid\<rparr>"
    using assms(1,3) by (auto simp: serve_path handleGetSensor_def writeJSON_def)
  show ?thesis
    by (rule exI [of _ ?xs], intro conjI, fact answer, fact ids, fact order(1), fact order(2), fact listed,
      intro allI impI, elim conjE, rule get_sensor_answer [OF assms(1,3)], assumption, assumption, fact unknown)
qed

text \<open>A server with two workers that knows two sensors; a message waits in the queue.\<close>

definition sample_readings :: "UDPListener \<Rightarrow> TCPListener \<Rightarrow> readings" where
  "sample_readings u t = \<lparr>rd_udp = u, rd_tcp = t, rd_proc = Processor.Processor.truncate queued_final,
     rd_store = sample_store, rd_order = [''b'', ''a'']\<rparr>"

lemma sample_readings_ok:
  "rd_store (sample_readings u t) = exec_ops [OpUpdate 10 (gps_msg ''a'' 1), OpUpdate 90 (gps_msg ''b'' 1)] NewStateStore"
  "map_order (rd_order (sample_readings u t)) (rd_store (sample_readings u t))"
  by (simp add: sample_readings_def sample_store_def)
    (auto simp: sample_readings_def map_order_def sample_store_sensors)

theorem sensor_endpoints_agree_witness:
  "\<exists>xs d. serve \<lparr>rq_method = ''GET'', rq_path = [''api'', ''v1'', ''sensors'']\<rparr> (sample_readings first_udp first_tcp) =
      Some \<lparr>rs_status = 200, rs_headers = json_headers, rs_body = Summaries xs\<rparr> \<and> map ss_SensorID xs = [''b'', ''a''] \<and>
    serve \<lparr>rq_method = ''GET'', rq_path = [''api'', ''v1'', ''sensors'', ''a'']\<rparr> (sample_readings first_udp first_tcp) =
      Some \<lparr>rs_status = 200, rs_headers = json_headers, rs_body = Detail d\<rparr> \<and> sd_MessagesReceived d = 1 \<and> sd_LastSeen d = 10 \<and>
    serve \<lparr>rq_method = ''GET'', rq_path = [''api'', ''v1'', ''sensors'', ''c'']\<rparr> (sample_readings first_udp first_tcp) =
      Some \<lparr>rs_status = 404, rs_headers = json_headers, rs_body = SensorNotFound ''c''\<rparr>"
proof -
  let ?rd = "sample_readings first_udp first_tcp"
  have order: "rd_order ?rd = [''b'', ''a'']" by (simp add: sample_readings_def)
  have a: "\<exists>st. Get ''a'' (rd_store ?rd) = Some st \<and> st_MessageCount st = 1 \<and> st_LastSeen st = 10"
    by (simp add: sample_readings_def Get_def sample_store_sensors new_entry_def)
  have c: "history ''c'' [OpUpdate 10 (gps_msg ''a'' 1), OpUpdate 90 (gps_msg ''b'' 1)] = []"
    by (simp add: history_def)
  have get: "''GET'' \<in> {''GET'', ''HEAD''}" "''a'' \<noteq> []" "''c'' \<noteq> []" by simp_all
  obtain st where st: "Get ''a'' (rd_store ?rd) = Some st" "st_MessageCount st = 1" "st_LastSeen st = 10" using a by blast
  obtain xs where xs: "serve \<lparr>rq_method = ''GET'', rq_path = [''api'', ''v1'', ''sensors'']\<rparr> ?rd =
      Some \<lparr>rs_status = 200, rs_headers = json_headers, rs_body = Summaries xs\<rparr>" "map ss_SensorID xs = rd_order ?rd"
    and detail: "\<exists>d. serve \<lparr>rq_method = ''GET'', rq_path = [''api'', ''v1'', ''sensors'', ''a'']\<rparr> ?rd =
      Some \<lparr>rs_status = 200, rs_headers = json_headers, rs_body = Detail d\<rparr> \<and>
      sd_MessagesReceived d = st_MessageCount st \<and> sd_LastSeen d = st_LastSeen st"
    and missing: "serve \<lparr>rq_method = ''GET'', rq_path = [''api'', ''v1'', ''sensors'', ''c'']\<rparr> ?rd =
      Some \<lparr>rs_status = 404, rs_headers = json_headers, rs_body = SensorNotFound ''c''\<rparr>"
    using sensor_endpoints_agree [OF sample_readings_ok get(1), of first_udp first_tcp] st(1) c get(2,3) by blast
  obtain d where d: "serve \<lparr>rq_method = ''GET'', rq_path = [''api'', ''v1'', ''sensors'', ''a'']\<rparr> ?rd =
      Some \<lparr>rs_status = 200, rs_headers = json_headers, rs_body = Detail d\<rparr>"
    "sd_MessagesReceived d = 1" "sd_LastSeen d = 10" using detail unfolding st(2,3) by blast
  show ?thesis
    by (rule exI [of _ xs], rule exI [of _ d], intro conjI, fact xs(1), fact xs(2) [unfolded order], fact d, fact d, fact d, fact missing)
qed

text \<open>
  Property C37. The metrics summary agrees with the listeners, the processor and the store. Received
  messages are the acceptable datagrams and lines read so far, validation errors the other ones that
  are not empty; the active connections are the TCP listener's, outside the setting up of a connection the
  handlers that have not exited. Every sensor in the store is counted under its status, every one that
  has ever sent a message once. The queue depth is the length of the queue, and the processing
  totals are each the sum of that counter of the workers; between messages the totals of errors, anomalies,
  dropped, duplicate and late messages are those of the sensors of the processor's store, and with the
  processed and the queued messages they add up to the messages enqueued.
\<close>

theorem metrics_summary_adds_up:
  assumes "udp_started prt n = Some l0" and "udp_run as l0 = Some (rd_udp rd)" and "tcp_reachable (rd_tcp rd)"
    and "reachable config s" and "rd_proc rd = Processor.Processor.truncate s"
    and "rd_store rd = exec_ops os NewStateStore" and "map_order (rd_order rd) (rd_store rd)"
    and "m \<in> {''GET'', ''HEAD''}"
  shows "\<exists>mm. serve \<lparr>rq_method = m, rq_path = [''api'', ''v1'', ''metrics'', ''summary'']\<rparr> rd =
      Some \<lparr>rs_status = 200, rs_headers = json_headers, rs_body = Metrics mm\<rparr> \<and>
    mm_MessagesReceived mm =
      of_nat (length (oks (outcomes as))) + of_nat (length (oks (concat (map outs (conns (rd_tcp rd)))))) \<and>
    mm_MessagesReceived mm + mm_ValidationErrors mm =
      of_nat (length (outcomes as)) + of_nat (length (concat (map outs (conns (rd_tcp rd))))) \<and>
    mm_ActiveTCPConnections mm = activeConnections (rd_tcp rd) \<and>
    (fresh (accepting (rd_tcp rd)) = None \<longrightarrow>
      mm_ActiveTCPConnections mm = of_nat (length (filter (\<lambda>c. handler c \<noteq> Exited) (conns (rd_tcp rd))))) \<and>
    mm_HealthySensors mm = card {sid. \<exists>st. Get sid (rd_store rd) = Some st \<and> st_Status st = ''healthy''} \<and>
    mm_StaleSensors mm = card {sid. \<exists>st. Get sid (rd_store rd) = Some st \<and> st_Status st = ''stale''} \<and>
    mm_HealthySensors mm + mm_StaleSensors mm = card {sid. history sid os \<noteq> []} \<and>
    mm_QueueDepth mm = length (buf (p_jobs s)) \<and>
    mm_MessagesProcessed mm = sum_list (map (\<lambda>w. w_messagesProcessed (fst w)) (p_workers s)) \<and>
    mm_ProcessingErrors mm = sum_list (map (\<lambda>w. w_errors (fst w)) (p_workers s)) \<and>
    mm_AnomaliesDetected mm = sum_list (map (\<lambda>w. w_anomalies (fst w)) (p_workers s)) \<and>
    mm_DroppedMessages mm = sum_list (map (\<lambda>w. w_dropped (fst w)) (p_workers s)) \<and>
    mm_DuplicateMessages mm = sum_list (map (\<lambda>w. w_duplicates (fst w)) (p_workers s)) \<and>
    mm_OutOfOrderMessages mm = sum_list (map (\<lambda>w. w_outOfOrder (fst w)) (p_workers s)) \<and>
    ((\<forall>(w, ph)\<in>set (p_workers s). ph = Idle \<or> ph = phase.Exited) \<and> Counting \<notin> set (calls s) \<longrightarrow>
      mm_MessagesProcessed mm + mm_ProcessingErrors mm + mm_AnomaliesDetected mm + of_nat (mm_QueueDepth mm) = p_enqueued s \<and>
      mm_ProcessingErrors mm = store_total st_ErrorCount (p_store s) \<and>
      mm_AnomaliesDetected mm = store_total st_AnomalyCount (p_store s) \<and>
      mm_DroppedMessages mm = store_total st_DroppedCount (p_store s) \<and>
      mm_DuplicateMessages mm = store_total st_DuplicateCount (p_store s) \<and>
      mm_OutOfOrderMessages mm = store_total st_OutOfOrderCount (p_store s))"
proof -
  obtain st where st: "Stats s = Some st" using Stats_running [OF assms(4)] by blast
  have tr: "Stats (rd_proc rd) = Some st" using st by (simp add: assms(5) Stats_truncate)
  let ?sns = "List (rd_order rd) (rd_store rd)" and ?t = "rd_tcp rd" and ?u = "rd_udp rd"
  define mm where "mm = \<lparr>mm_MessagesReceived = messagesReceived ?u + messagesReceived ?t,
    mm_MessagesProcessed = ps_TotalMessagesProcessed st,
    mm_ValidationErrors = messagesRejected ?u + messagesRejected ?t,
    mm_ProcessingErrors = ps_TotalErrors st, mm_AnomaliesDetected = ps_TotalAnomalies st,
    mm_DroppedMessages = ps_TotalDropped st, mm_DuplicateMessages = ps_TotalDuplicates st,
    mm_OutOfOrderMessages = ps_TotalOutOfOrder st, mm_QueueDepth = ps_QueueDepth st,
    mm_ActiveTCPConnections = activeConnections ?t,
    mm_HealthySensors = count_status StatusHealthy ?sns, mm_StaleSensors = count_status StatusStale ?sns\<rparr>"
  have answer: "serve \<lparr>rq_method = m, rq_path = [''api'', ''v1'', ''metrics'', ''summary'']\<rparr> rd =
      Some \<lparr>rs_status = 200, rs_headers = json_headers, rs_body = Metrics mm\<rparr>"
    using assms(8) tr
    by (auto simp: serve_path handleMetricsSummary_def writeJSON_def Let_def UDP_Stats_def TCP_Stats_def
        ListenerStats.extend_def TCPListenerStats.fields_def mm_def)
  have received: "mm_MessagesReceived mm =
      of_nat (length (oks (outcomes as))) + of_nat (length (oks (concat (map outs (conns ?t)))))"
    using udp_input_count [OF assms(1,2)] tcp_line_count [OF assms(3)] by (simp add: mm_def)
  have inputs: "mm_MessagesReceived mm + mm_ValidationErrors mm =
      of_nat (length (outcomes as)) + of_nat (length (concat (map outs (conns ?t))))"
    using udp_input_count [OF assms(1,2)] tcp_line_count [OF assms(3)]
    by (simp add: mm_def) (metis (no_types, lifting) add.assoc add.left_commute)
  have active: "mm_ActiveTCPConnections mm = activeConnections ?t" by (simp add: mm_def)
  have sensors: "mm_HealthySensors mm = card {sid. \<exists>st. Get sid (rd_store rd) = Some st \<and> st_Status st = ''healthy''}"
    "mm_StaleSensors mm = card {sid. \<exists>st. Get sid (rd_store rd) = Some st \<and> st_Status st = ''stale''}"
    "mm_HealthySensors mm + mm_StaleSensors mm = card {sid. history sid os \<noteq> []}"
    using count_status_card [OF assms(7)] status_partition [OF assms(6,7)]
    by (simp_all add: mm_def StatusHealthy_def StatusStale_def)
  have totals: "mm_MessagesProcessed mm = ps_TotalMessagesProcessed st" "mm_ProcessingErrors mm = ps_TotalErrors st"
    "mm_AnomaliesDetected mm = ps_TotalAnomalies st" "mm_DroppedMessages mm = ps_TotalDropped st"
    "mm_DuplicateMessages mm = ps_TotalDuplicates st" "mm_OutOfOrderMessages mm = ps_TotalOutOfOrder st"
    "mm_QueueDepth mm = ps_QueueDepth st" by (simp_all add: mm_def)
  note quiet = stats_between_messages [OF assms(4) st, folded totals, unfolded Stats_totals(7) [OF st]]
  note sums = Stats_totals [OF st, folded totals]
  show ?thesis
  proof (rule exI [of _ mm], intro conjI)
    show "fresh (accepting ?t) = None \<longrightarrow>
      mm_ActiveTCPConnections mm = of_nat (length (filter (\<lambda>c. handler c \<noteq> Exited) (conns ?t)))"
      using tcp_active_count [OF assms(3)] active by simp
    show "(\<forall>(w, ph)\<in>set (p_workers s). ph = Idle \<or> ph = phase.Exited) \<and> Counting \<notin> set (calls s) \<longrightarrow>
      mm_MessagesProcessed mm + mm_ProcessingErrors mm + mm_AnomaliesDetected mm + of_nat (mm_QueueDepth mm) = p_enqueued s \<and>
      mm_ProcessingErrors mm = store_total st_ErrorCount (p_store s) \<and>
      mm_AnomaliesDetected mm = store_total st_AnomalyCount (p_store s) \<and>
      mm_DroppedMessages mm = store_total st_DroppedCount (p_store s) \<and>
      mm_DuplicateMessages mm = store_total st_DuplicateCount (p_store s) \<and>
      mm_OutOfOrderMessages mm = store_total st_OutOfOrderCount (p_store s)"
      using quiet by blast
  qed (fact answer, fact received, fact inputs, fact active, fact sensors(1), fact sensors(2), fact sensors(3),
      fact sums(8), fact sums(1), fact sums(2), fact sums(3), fact sums(4), fact sums(5), fact sums(6))
qed

theorem metrics_summary_adds_up_witness:
  "\<exists>u mm. udp_run [Top, Datagram 0 ''a'' ''{''] first_udp = Some u \<and>
     serve \<lparr>rq_method = ''GET'', rq_path = [''api'', ''v1'', ''metrics'', ''summary'']\<rparr> (sample_readings u first_tcp) =
       Some \<lparr>rs_status = 200, rs_headers = json_headers, rs_body = Metrics mm\<rparr> \<and>
     mm_MessagesReceived mm = 0 \<and> mm_ValidationErrors mm = 1 \<and> mm_ActiveTCPConnections mm = 0 \<and>
     mm_HealthySensors mm + mm_StaleSensors mm = 2 \<and> mm_QueueDepth mm = 1 \<and>
     mm_MessagesProcessed mm + mm_ProcessingErrors mm + mm_AnomaliesDetected mm + 1 = 1"
proof -
  have "udp_run [Top, Datagram 0 ''a'' ''{''] first_udp \<noteq> None" by (simp add: first_udp_eval udp_eval)
  then obtain u where u: "udp_run [Top, Datagram 0 ''a'' ''{''] first_udp = Some u" by blast
  let ?rd = "sample_readings u first_tcp"
  let ?os = "[OpUpdate 10 (gps_msg ''a'' 1), OpUpdate 90 (gps_msg ''b'' 1)]"
  have "{sid. history sid ?os \<noteq> []} = {''a'', ''b''}" by (auto simp: history_def)
  then have two: "card {sid. history sid ?os \<noteq> []} = 2" by simp
  have o: "outcomes [Top, Datagram 0 ''a'' ''{''] = [Inl (ParseFailed ''failed to parse JSON'')]"
    by (simp add: outcomes_def bad_input_rejected)
  have t: "rd_tcp ?rd = first_tcp" "conns first_tcp = []" "activeConnections first_tcp = 0"
    by (simp_all add: sample_readings_def first_tcp_eval)
  have rd: "udp_run [Top, Datagram 0 ''a'' ''{''] first_udp = Some (rd_udp ?rd)" "tcp_reachable (rd_tcp ?rd)"
    "rd_proc ?rd = Processor.Processor.truncate queued_final"
    using u tcp_reachable.start [OF first_tcp] by (simp_all add: sample_readings_def)
  have q: "\<forall>(w, ph)\<in>set (p_workers queued_final). ph = Idle \<or> ph = phase.Exited" "Counting \<notin> set (calls queued_final)"
    by (simp_all add: queued_final_simps)
  have get: "''GET'' \<in> {''GET'', ''HEAD''}" by simp
  obtain mm where mm: "serve \<lparr>rq_method = ''GET'', rq_path = [''api'', ''v1'', ''metrics'', ''summary'']\<rparr> ?rd =
       Some \<lparr>rs_status = 200, rs_headers = json_headers, rs_body = Metrics mm\<rparr>"
    "mm_MessagesReceived mm = 0" "mm_MessagesReceived mm + mm_ValidationErrors mm = 1" "mm_ActiveTCPConnections mm = 0"
    "mm_HealthySensors mm + mm_StaleSensors mm = 2" "mm_QueueDepth mm = 1"
    "mm_MessagesProcessed mm + mm_ProcessingErrors mm + mm_AnomaliesDetected mm + of_nat (mm_QueueDepth mm) = 1"
    using metrics_summary_adds_up [OF first_udp rd(1,2) queued_final_reachable rd(3) sample_readings_ok get] q
    unfolding two t o queued_final_simps by (auto simp: oks_def)
  have "mm_ValidationErrors mm = 1" using mm(2,3) by simp
  with mm u show ?thesis by (intro exI [of _ u] exI [of _ mm]) simp
qed

end
