(* ===== verification/Spec2Isabelle.thy ===== *)
theory Spec2Isabelle
  imports Pool_Shutdown Pool_Verdicts Server_Properties Replay_Program Simulator_Program Api
begin

text \<open>
  \<^bold>\<open>SentinelStream\<close>: a telemetry server in Go. Simulated sensors send JSON messages over UDP or TCP;
  the server validates them, processes them in a bounded pool of workers, keeps the latest state of
  every sensor, watches for silent sensors and answers a REST API; accepted messages can be recorded
  and replayed.

  \<^bold>\<open>The program and its theories.\<close>

  \<^item> \<open>Prelude\<close>: types shared by all theories (bytes are char lists, uint64 is a 64 bit word, int and
    time are integers with Go's saturation where the code relies on it) and generic lemmas.
  \<^item> \<open>Go_Float\<close>, \<open>Go_Time\<close>, \<open>Go_Json\<close>, \<open>Go_Scan\<close>, \<open>Go_Chan\<close>: what the program uses of the language and
    its library: float64 as exact rationals with rounding to nearest even, infinities and NaN;
    instants and durations in nanoseconds with RFC 3339 parsing; \<open>json.Unmarshal\<close> into a struct,
    down to bytes; \<open>bufio.Scanner\<close> with a line limit; buffered channels.
  \<^item> \<open>Go_Format\<close>, \<open>Go_Marshal\<close>, \<open>Go_Compact\<close>, \<open>Go_Reads\<close>, \<open>Go_Recode\<close>: the way back, what \<open>json.Marshal\<close>
    does with a message: decimal numbers and RFC 3339 times; quoted strings; raw JSON without its white
    space and with its HTML characters escaped; and that the decoder reads such text as the original.
  \<^item> \<open>Message_Json\<close>, \<open>Message_Lines\<close>: the JSON text of a message, its round trip, and messages as lines.
  \<^item> \<open>Protocol\<close> (internal/protocol): the message and payload structs, the parsers, the validators.
  \<^item> \<open>State_Store\<close> (internal/state): the store of sensors, with duplicate and gap detection.
  \<^item> \<open>Latency\<close> (internal/metrics): the ring buffer of latency samples and its percentiles.
  \<^item> \<open>Worker\<close>, \<open>Processor\<close>, \<open>Pool_Invariants\<close>, \<open>Pool_Properties\<close>, \<open>Pool_Verdicts\<close>, \<open>Pool_Shutdown\<close>, \<open>Pool_Calls\<close>
    (internal/processor): one message through a worker; the pool as a transition system whose atomic
    steps are the accesses to shared state; its invariants; its safety properties; what it enters for
    each sensor; draining, stopping and the races the code has; the pool as a part of a program.
  \<^item> \<open>Replay\<close>, \<open>Recorder\<close> (internal/replay): replaying a JSON Lines file through a handler; appending
    messages to one; the round trip of the two.
  \<^item> \<open>Ingestion\<close>, \<open>Udp\<close>, \<open>Tcp\<close> (internal/ingestion): the two listeners as transition systems in which
    their goroutines, the network, the consumers of their channels and \<open>Stop\<close> act in any order.
  \<^item> \<open>Health\<close> (internal/health): the stale-sensor scan, interleaved with the store's other users.
  \<^item> \<open>Api\<close> (internal/api): routing, the CORS wrapper and the four endpoints.
  \<^item> \<open>Generator\<close>, \<open>Simulator\<close>, \<open>Sender\<close> (internal/simulator): the four sensor generators, the loop that
    hands out their messages in turn, and sending them to a server over UDP or TCP.
  \<^item> \<open>Server\<close>, \<open>Server_Calls\<close>, \<open>Server_Flow\<close>, \<open>Server_Record\<close>, \<open>Server_Properties\<close> (cmd/server): the server as the
    product of its parts, the two forwarding goroutines and \<open>main\<close>; whose the calls of \<open>Enqueue\<close> are; what
    reaches the queue and the record file; what holds end to end, and how a shutdown can fail.
  \<^item> \<open>Replay_Program\<close> (cmd/replay), \<open>Simulator_Program\<close> (cmd/simulator): the other two programs.

  A struct is a record, a channel a bounded queue with a closed flag, a mutex-protected or atomic
  access one step. Fields that the code does not have are ghost history; the theories name them.
  A clock reading, a random draw, the iteration order of a map, the file system and the outcome of
  a system call are arguments of the operation that uses them. A panic is None or a flag of the state.

  \<^bold>\<open>Coarser than the code\<close> are a few steps. \<open>Stats\<close> of the processor is one snapshot, while the code reads the
  workers' counters one by one as they run. Parsing an input, counting it and noting its error are one step of a
  listener. Reading a line and entering \<open>Enqueue\<close> are one step of the replay program. Stopping the
  API is a step of the shutdown that changes nothing the other parts see, and the pause after the signal is
  left out: any goroutine may run between any two steps anyway.

  \<^bold>\<open>Interfaces.\<close> \<open>bounded_fifo\<close> (channels), \<open>sample_window\<close> (the latency recorder), \<open>payload_parser\<close>
  (the parsers), \<open>sensor_generator\<close> (the generators), \<open>framing\<close> (the senders) and the locales of \<open>State_Store\<close> and \<open>Go_Json\<close> state what
  a client relies on; each is interpreted on the model's definitions where they are declared.

  \<^bold>\<open>What is shown.\<close> Of each part: its type or well-formedness invariant and what its operations do on every
  branch. Of the pool and the listeners, under every interleaving: no message is lost or doubled, the
  counters account for every input and every sensor, queues stay within bounds, shutdown ends. Of the programs: the server
  conserves and merges its listeners' messages and records them up to its shutdown, the replay program
  does to the processor what the player reads and ends, the simulator's messages are sent in turn. The
  properties that show a fault give a run that exhibits it.

  \<^bold>\<open>Bounds.\<close> The JSON decoder recurses on fuel, the length of its input, and is shown never to run out;
  every run is a finite list of actions; termination properties bound the number of steps left by a
  measure of the state.

  \<^bold>\<open>Not modelled.\<close> Log output (internal/logging), printed statistics and the text of the \<open>String\<close> methods;
  the encoded text of the API's JSON bodies and of the generators' payloads, whose encoder is an argument
  (\<open>encoders\<close>), as are \<open>net/http\<close> and the network; unbuffered channels, which the server makes only with
  \<open>--buffer 0\<close>; two calls of one \<open>Stop\<close> at the same time; the start of a component interleaved with its
  first callers; the sign of a floating-point zero and fused multiply-add; the web dashboard.
\<close>

end
